theory Spec2Isabelle
  imports Main "HOL-Library.Word" "HOL-Library.Code_Target_Nat"
begin

unbundle bit_operations_syntax

section \<open>Error codes and on-disk geometry\<close>

text \<open>
  The kernel error numbers the allocator and the file mapper return (as negative
  ints in C). The specification's error kinds map onto them: NoSpace is \<open>ENOSPC\<close>,
  IoCorrupt and Io are both \<open>EIO\<close>, Invalid is \<open>EINVAL\<close>, NoMem is \<open>ENOMEM\<close>.
  \<open>ENOENT\<close> is the b-tree's "no such item", \<open>EEXIST\<close> its "item already there".
\<close>

datatype errno = EIO | ENOSPC | EINVAL | ENOENT | ENOMEM | EEXIST

text \<open>
  \<open>format.h\<close> is not among the sources, so the layout constants it defines are
  parameters of the model: every function takes the geometry it runs with.
\<close>

record geometry =
  SCOUTFS_BUDDY_BM_BLKNO :: nat
  SCOUTFS_BUDDY_BM_NR :: nat
  SCOUTFS_BUDDY_ORDERS :: nat
  SCOUTFS_BUDDY_ORDER0_BITS :: nat
  SCOUTFS_BUDDY_SLOTS :: nat
  SCOUTFS_BLOCK_MAP_SHIFT :: nat
  SCOUTFS_BLOCK_MAP_COUNT :: nat

definition SCOUTFS_BLOCK_MAP_MASK :: "geometry \<Rightarrow> nat" where
  "SCOUTFS_BLOCK_MAP_MASK g = SCOUTFS_BLOCK_MAP_COUNT g - 1"

definition INT_MAX :: nat where
  "INT_MAX = 2147483647"

definition U64_MAX :: nat where
  "U64_MAX = 18446744073709551615"

section \<open>Persistent structures\<close>

record block_ref =
  ref_blkno :: nat
  ref_seq :: nat

record super_block =
  buddy_bm_ref :: block_ref
  buddy_ind_ref :: block_ref
  buddy_blocks :: nat
  total_blocks :: nat

text \<open>
  A buddy block: its header, the cached population count of every order's bitmap
  (\<open>__le32\<close>, so arithmetic on them wraps) and the bits of all orders in one bitmap,
  kept as the set of the positions that are set.
\<close>

record buddy_block =
  hdr_blkno :: nat
  hdr_seq :: nat
  order_counts :: "nat \<Rightarrow> 32 word"
  bud_bits :: "nat set"

record buddy_slot =
  slot_ref :: block_ref
  free_orders :: "8 word"

record buddy_indirect =
  order_totals :: "nat \<Rightarrow> 64 word"
  slots :: "nat \<Rightarrow> buddy_slot"

text \<open>
  The per-mount state. The dirty super and the stable super are the two views.
  The blocks of the transaction being built (what \<open>scoutfs_block_dirty_ref\<close> and
  \<open>scoutfs_block_dirty\<close> hand out) and the blocks of the last commit (what
  \<open>scoutfs_block_read_ref\<close> finds behind the stable super) are kept in two stores,
  one map from block number to contents for each kind of block. The file
  allocation reservoir and the block map items of the b-tree complete the state:
  \<open>btree\<close> maps the inode number and the offset of a block map key to the item's
  array of block numbers, and \<open>btree_fault\<close>, when set, is the error with which every
  b-tree operation fails (an I/O or allocation failure inside the b-tree).
\<close>

record sb_info =
  super :: super_block
  stable_super :: super_block
  trans_seq :: nat
  dirty_bm :: "nat \<rightharpoonup> nat set"
  dirty_ind :: "nat \<rightharpoonup> buddy_indirect"
  dirty_bud :: "nat \<rightharpoonup> buddy_block"
  stable_bm :: "nat \<rightharpoonup> nat set"
  stable_ind :: "nat \<rightharpoonup> buddy_indirect"
  stable_bud :: "nat \<rightharpoonup> buddy_block"
  file_alloc_blkno :: nat
  file_alloc_count :: nat
  btree :: "(nat \<times> nat) \<rightharpoonup> (nat \<Rightarrow> nat)"
  btree_fault :: "errno option"

section \<open>The block layer\<close>

text \<open>
  Modelled from the spec: \<open>block.c\<close> is not among the sources. Section 6 of the
  specification gives the contracts: \<open>block_read_ref\<close> is read-only access to the
  referenced block and may fail; \<open>block_dirty_ref\<close> gives the writable block of the
  current transaction behind a reference; \<open>block_dirty\<close> produces a writable zeroed
  buffer for a block number. A block that is missing from a store is a failed read
  (\<open>EIO\<close>). The writable copy lives in the dirty store, so writing to it never
  changes what the stable references read. Of the two cases of \<open>block_dirty_ref\<close>
  the model has the second, a block that is dirtied in place: the dirty store
  holds the writable block under the block number of the reference. The first case,
  in which a block that is still stable gets a new block number in its region and
  the reference is updated, is not modelled: in this model a reference keeps its
  block number when its block is dirtied, and what is said below of a dirtied block
  is said of its contents.
\<close>

definition scoutfs_block_read_ref :: "(nat \<rightharpoonup> 'a) \<Rightarrow> block_ref \<Rightarrow> errno + 'a" where
  "scoutfs_block_read_ref store r =
     (case store (ref_blkno r) of None \<Rightarrow> Inl EIO | Some b \<Rightarrow> Inr b)"

definition scoutfs_block_dirty_ref :: "(nat \<rightharpoonup> 'a) \<Rightarrow> block_ref \<Rightarrow> errno + 'a" where
  "scoutfs_block_dirty_ref store r =
     (case store (ref_blkno r) of None \<Rightarrow> Inl EIO | Some b \<Rightarrow> Inr b)"

text \<open>
  Modelled from the spec: a zeroed buddy block for \<open>blkno\<close>, as \<open>scoutfs_block_dirty\<close>
  followed by \<open>scoutfs_block_zero\<close> past the header leaves it. The header carries the
  block number and the sequence number of the transaction.
\<close>

definition scoutfs_block_dirty :: "sb_info \<Rightarrow> nat \<Rightarrow> buddy_block" where
  "scoutfs_block_dirty s blkno =
     \<lparr>hdr_blkno = blkno, hdr_seq = trans_seq s, order_counts = (\<lambda>_. 0), bud_bits = {}\<rparr>"

section \<open>Bit searches of the kernel\<close>

text \<open>
  \<open>find_next_bit_le(bits, sz, offset)\<close>: the position of the first set bit at or
  after \<open>offset\<close> and below \<open>sz\<close>, or \<open>sz\<close> when there is none.
\<close>

function find_next_bit_le :: "nat set \<Rightarrow> nat \<Rightarrow> nat \<Rightarrow> nat" where
  "find_next_bit_le bits sz off =
     (if sz \<le> off then sz
      else if off \<in> bits then off
      else find_next_bit_le bits sz (Suc off))"
  by pat_completeness auto
termination
  by (relation "measure (\<lambda>(bits, sz, off). sz - off)") auto

declare find_next_bit_le.simps [simp del]

section \<open>Regions and bit positions (buddy.c)\<close>

datatype region = REGION_PAIR | REGION_BM | REGION_BUDDY

definition blkno_region :: "geometry \<Rightarrow> super_block \<Rightarrow> nat \<Rightarrow> region" where
  "blkno_region g sb blkno =
     (let end1 = SCOUTFS_BUDDY_BM_BLKNO g + SCOUTFS_BUDDY_BM_NR g in
      if blkno < end1 then REGION_PAIR
      else if blkno < end1 + buddy_blocks sb then REGION_BM
      else REGION_BUDDY)"

definition first_blkno :: "geometry \<Rightarrow> super_block \<Rightarrow> nat" where
  "first_blkno g sb =
     SCOUTFS_BUDDY_BM_BLKNO g + SCOUTFS_BUDDY_BM_NR g + buddy_blocks sb"

text \<open>
  \<open>(u32)(blkno - first_blkno(super))\<close>: the subtraction is on \<open>u64\<close> and wraps, the
  cast keeps the low 32 bits.
\<close>

definition blkno_offset_u32 :: "geometry \<Rightarrow> super_block \<Rightarrow> nat \<Rightarrow> nat" where
  "blkno_offset_u32 g sb blkno =
     nat ((int blkno - int (first_blkno g sb)) mod 2 ^ 32)"

definition indirect_slot :: "geometry \<Rightarrow> super_block \<Rightarrow> nat \<Rightarrow> nat" where
  "indirect_slot g sb blkno = blkno_offset_u32 g sb blkno div SCOUTFS_BUDDY_ORDER0_BITS g"

definition slot_buddy_blkno :: "geometry \<Rightarrow> super_block \<Rightarrow> nat \<Rightarrow> nat \<Rightarrow> nat \<Rightarrow> nat" where
  "slot_buddy_blkno g sb sl ord nr =
     (first_blkno g sb + sl * SCOUTFS_BUDDY_ORDER0_BITS g + push_bit ord nr) mod 2 ^ 64"

text \<open>
  \<open>min_t(int, total_blocks - first, ORDER0_BITS)\<close>: the difference is computed on
  \<open>u64\<close> and then cast to a 32-bit signed int.
\<close>

definition slot_count :: "geometry \<Rightarrow> super_block \<Rightarrow> nat \<Rightarrow> int" where
  "slot_count g sb sl =
     min (signed_take_bit 31
            (int (total_blocks sb) - int (first_blkno g sb + sl * SCOUTFS_BUDDY_ORDER0_BITS g)))
         (int (SCOUTFS_BUDDY_ORDER0_BITS g))"

definition buddy_bit :: "geometry \<Rightarrow> super_block \<Rightarrow> nat \<Rightarrow> nat" where
  "buddy_bit g sb blkno = blkno_offset_u32 g sb blkno mod SCOUTFS_BUDDY_ORDER0_BITS g"

definition valid_order :: "geometry \<Rightarrow> super_block \<Rightarrow> nat \<Rightarrow> nat \<Rightarrow> bool" where
  "valid_order g sb blkno ord = (buddy_bit g sb blkno AND (2 ^ ord - 1) = 0)"

definition order_off :: "geometry \<Rightarrow> nat \<Rightarrow> nat" where
  "order_off g ord =
     (if ord = 0 then 0
      else 2 * SCOUTFS_BUDDY_ORDER0_BITS g - SCOUTFS_BUDDY_ORDER0_BITS g div 2 ^ (ord - 1))"

definition order_nr :: "geometry \<Rightarrow> nat \<Rightarrow> nat \<Rightarrow> nat" where
  "order_nr g ord nr = order_off g ord + nr"

definition test_buddy_bit :: "geometry \<Rightarrow> buddy_block \<Rightarrow> nat \<Rightarrow> nat \<Rightarrow> bool" where
  "test_buddy_bit g bud ord nr = (order_nr g ord nr \<in> bud_bits bud)"

text \<open>The loop of \<open>test_buddy_bit_or_higher\<close>, from order \<open>i\<close> on.\<close>

function test_buddy_bit_or_higher :: "geometry \<Rightarrow> buddy_block \<Rightarrow> nat \<Rightarrow> nat \<Rightarrow> bool" where
  "test_buddy_bit_or_higher g bud i nr =
     (if i < SCOUTFS_BUDDY_ORDERS g then
        (if test_buddy_bit g bud i nr then True
         else test_buddy_bit_or_higher g bud (Suc i) (drop_bit 1 nr))
      else False)"
  by pat_completeness auto
termination
  by (relation "measure (\<lambda>(g, bud, i, nr). SCOUTFS_BUDDY_ORDERS g - i)") auto

declare test_buddy_bit_or_higher.simps [simp del]

text \<open>
  \<open>set_buddy_bit\<close> and \<open>clear_buddy_bit\<close> update the indirect block's totals and the
  buddy block together; the pair is returned.
\<close>

definition set_buddy_bit ::
  "geometry \<Rightarrow> buddy_indirect \<Rightarrow> buddy_block \<Rightarrow> nat \<Rightarrow> nat \<Rightarrow> buddy_indirect \<times> buddy_block" where
  "set_buddy_bit g ind bud ord nr =
     (if order_nr g ord nr \<in> bud_bits bud then (ind, bud)
      else (ind\<lparr>order_totals := (order_totals ind)(ord := order_totals ind ord + 1)\<rparr>,
            bud\<lparr>order_counts := (order_counts bud)(ord := order_counts bud ord + 1),
                bud_bits := insert (order_nr g ord nr) (bud_bits bud)\<rparr>))"

definition clear_buddy_bit ::
  "geometry \<Rightarrow> buddy_indirect \<Rightarrow> buddy_block \<Rightarrow> nat \<Rightarrow> nat \<Rightarrow> buddy_indirect \<times> buddy_block" where
  "clear_buddy_bit g ind bud ord nr =
     (if order_nr g ord nr \<in> bud_bits bud then
        (ind\<lparr>order_totals := (order_totals ind)(ord := order_totals ind ord - 1)\<rparr>,
         bud\<lparr>order_counts := (order_counts bud)(ord := order_counts bud ord - 1),
             bud_bits := bud_bits bud - {order_nr g ord nr}\<rparr>)
      else (ind, bud))"

definition find_next_buddy_bit :: "geometry \<Rightarrow> buddy_block \<Rightarrow> nat \<Rightarrow> nat \<Rightarrow> nat" where
  "find_next_buddy_bit g bud ord nr =
     (let sz = order_off g (ord + 1);
          n = find_next_bit_le (bud_bits bud) sz (order_nr g ord nr)
      in if sz \<le> n then INT_MAX else n - order_off g ord)"

text \<open>The loop of \<open>update_free_orders\<close>: \<open>free |= (!!order_counts[i]) << i\<close>.\<close>

function free_orders_from :: "geometry \<Rightarrow> buddy_block \<Rightarrow> nat \<Rightarrow> 8 word \<Rightarrow> 8 word" where
  "free_orders_from g bud i free =
     (if i < SCOUTFS_BUDDY_ORDERS g then
        free_orders_from g bud (Suc i)
          (free OR push_bit i (if order_counts bud i \<noteq> 0 then 1 else 0))
      else free)"
  by pat_completeness auto
termination
  by (relation "measure (\<lambda>(g, bud, i, free). SCOUTFS_BUDDY_ORDERS g - i)") auto

declare free_orders_from.simps [simp del]

definition update_free_orders :: "geometry \<Rightarrow> buddy_slot \<Rightarrow> buddy_block \<Rightarrow> buddy_slot" where
  "update_free_orders g slot bud = slot\<lparr>free_orders := free_orders_from g bud 0 0\<rparr>"

section \<open>The self-host bitmap allocator\<close>

text \<open>
  The scan of \<open>bitmap_alloc\<close>:
  \<open>do { d = find_next_bit_le(bm, sz, s); s = find_next_bit_le(st_bm, sz, d); } while (d != s)\<close>.
\<close>

lemma find_next_bit_le_le: "find_next_bit_le bits sz off \<le> sz"
  by (induction bits sz off rule: find_next_bit_le.induct)
     (subst find_next_bit_le.simps, simp)

lemma find_next_bit_le_ge: "off \<le> sz \<Longrightarrow> off \<le> find_next_bit_le bits sz off"
proof (induction bits sz off rule: find_next_bit_le.induct)
  case (1 bits sz off)
  show ?case
  proof (cases "sz \<le> off \<or> off \<in> bits")
    case True
    then show ?thesis using "1.prems" by (subst find_next_bit_le.simps) auto
  next
    case False
    then have "Suc off \<le> find_next_bit_le bits sz (Suc off)"
      using "1.IH" by simp
    then show ?thesis using False by (subst find_next_bit_le.simps) simp
  qed
qed

lemma find_next_bit_le_past: "sz \<le> off \<Longrightarrow> find_next_bit_le bits sz off = sz"
  by (subst find_next_bit_le.simps) simp

function bitmap_alloc_scan :: "nat set \<Rightarrow> nat set \<Rightarrow> nat \<Rightarrow> nat \<Rightarrow> nat" where
  "bitmap_alloc_scan bm st_bm sz s =
     (let d = find_next_bit_le bm sz s;
          s' = find_next_bit_le st_bm sz d
      in if d \<noteq> s' then bitmap_alloc_scan bm st_bm sz s' else d)"
  by pat_completeness auto
termination
proof (relation "measure (\<lambda>(bm, st_bm, sz, s). sz - s)", goal_cases)
  case 1
  show ?case by simp
next
  case (2 bm st_bm sz s d s')
  have dle: "d \<le> sz" using 2(1) by (simp add: find_next_bit_le_le)
  have s'le: "s' \<le> sz" using 2(2) by (simp add: find_next_bit_le_le)
  have ds': "d \<le> s'" using 2(2) dle by (simp add: find_next_bit_le_ge)
  have "s < sz"
  proof (rule ccontr)
    assume "\<not> s < sz"
    then have "d = sz" using 2(1) by (simp add: find_next_bit_le_past)
    then have "s' = sz" using 2(2) by (simp add: find_next_bit_le_past)
    then show False using \<open>d = sz\<close> 2(3) by simp
  qed
  moreover have "s \<le> d" using 2(1) \<open>s < sz\<close> by (simp add: find_next_bit_le_ge)
  ultimately show ?case using ds' s'le 2(3) by simp
qed

declare bitmap_alloc_scan.simps [simp del]

definition bitmap_alloc :: "geometry \<Rightarrow> sb_info \<Rightarrow> (errno + nat) \<times> sb_info" where
  "bitmap_alloc g s =
     (if ref_blkno (buddy_bm_ref (super s)) = 0 \<or>
         ref_blkno (buddy_bm_ref (stable_super s)) = 0 then (Inl EIO, s)
      else
        case scoutfs_block_dirty_ref (dirty_bm s) (buddy_bm_ref (super s)) of
          Inl e \<Rightarrow> (Inl e, s)
        | Inr bm \<Rightarrow>
            (case scoutfs_block_read_ref (stable_bm s) (buddy_bm_ref (stable_super s)) of
               Inl e \<Rightarrow> (Inl e, s)
             | Inr st_bm \<Rightarrow>
                 (let sz = buddy_blocks (super s);
                      d = bitmap_alloc_scan bm st_bm sz 0
                  in if sz \<le> d then (Inl ENOSPC, s)
                     else (Inr (SCOUTFS_BUDDY_BM_BLKNO g + SCOUTFS_BUDDY_BM_NR g + d),
                           s\<lparr>dirty_bm := (dirty_bm s)
                                (ref_blkno (buddy_bm_ref (super s)) \<mapsto> bm - {d})\<rparr>))))"

definition bitmap_free :: "geometry \<Rightarrow> sb_info \<Rightarrow> nat \<Rightarrow> (errno + unit) \<times> sb_info" where
  "bitmap_free g s blkno =
     (if ref_blkno (buddy_bm_ref (super s)) = 0 then (Inl EIO, s)
      else
        case scoutfs_block_dirty_ref (dirty_bm s) (buddy_bm_ref (super s)) of
          Inl e \<Rightarrow> (Inl e, s)
        | Inr bm \<Rightarrow>
            (let nr = nat ((int blkno -
                       int (SCOUTFS_BUDDY_BM_BLKNO g + SCOUTFS_BUDDY_BM_NR g)) mod 2 ^ 32)
             in (Inr (),
                 s\<lparr>dirty_bm := (dirty_bm s)
                      (ref_blkno (buddy_bm_ref (super s)) \<mapsto> insert nr bm)\<rparr>)))"

lemma find_next_bit_le_in: "find_next_bit_le bits sz off < sz \<Longrightarrow> find_next_bit_le bits sz off \<in> bits"
proof (induction bits sz off rule: find_next_bit_le.induct)
  case (1 bits sz off)
  then show ?case
    by (subst find_next_bit_le.simps, subst (asm) (3) find_next_bit_le.simps)
       (auto split: if_splits)
qed

lemma find_next_bit_le_skips:
  "off \<le> k \<Longrightarrow> k < find_next_bit_le bits sz off \<Longrightarrow> k \<notin> bits"
proof (induction bits sz off rule: find_next_bit_le.induct)
  case (1 bits sz off)
  show ?case
  proof (cases "sz \<le> off \<or> off \<in> bits")
    case True
    then show ?thesis using "1.prems"
      by (subst (asm) find_next_bit_le.simps) (auto split: if_splits)
  next
    case False
    then have eq: "find_next_bit_le bits sz off = find_next_bit_le bits sz (Suc off)"
      by (subst find_next_bit_le.simps) simp
    show ?thesis
    proof (cases "k = off")
      case True
      then show ?thesis using False by simp
    next
      case False
      then have "Suc off \<le> k" using "1.prems" by simp
      then show ?thesis using "1.IH" "1.prems" eq \<open>\<not> (sz \<le> off \<or> off \<in> bits)\<close> by simp
    qed
  qed
qed

lemma bitmap_alloc_scan_le: "bitmap_alloc_scan bm st_bm sz s \<le> sz"
proof (induction bm st_bm sz s rule: bitmap_alloc_scan.induct)
  case (1 bm st_bm sz s)
  show ?case
    using "1.IH" by (subst bitmap_alloc_scan.simps) (simp add: Let_def find_next_bit_le_le)
qed

lemma bitmap_alloc_scan_both:
  "bitmap_alloc_scan bm st_bm sz s < sz \<Longrightarrow>
     bitmap_alloc_scan bm st_bm sz s \<in> bm \<and> bitmap_alloc_scan bm st_bm sz s \<in> st_bm"
proof (induction bm st_bm sz s rule: bitmap_alloc_scan.induct)
  case (1 bm st_bm sz s)
  define d where "d = find_next_bit_le bm sz s"
  define s' where "s' = find_next_bit_le st_bm sz d"
  show ?case
  proof (cases "d = s'")
    case True
    then have r: "bitmap_alloc_scan bm st_bm sz s = d"
      by (subst bitmap_alloc_scan.simps) (simp add: Let_def d_def s'_def)
    then have "d < sz" using "1.prems" by simp
    then have "d \<in> bm" unfolding d_def by (rule find_next_bit_le_in)
    moreover have "s' \<in> st_bm" using \<open>d < sz\<close> True unfolding s'_def
      by (intro find_next_bit_le_in) simp
    ultimately show ?thesis using r True by simp
  next
    case False
    then have r: "bitmap_alloc_scan bm st_bm sz s = bitmap_alloc_scan bm st_bm sz s'"
      by (subst bitmap_alloc_scan.simps) (simp add: Let_def d_def s'_def)
    show ?thesis using "1.IH"[OF d_def s'_def False] "1.prems" r by simp
  qed
qed

lemma bitmap_alloc_scan_skips:
  "s \<le> k \<Longrightarrow> k < bitmap_alloc_scan bm st_bm sz s \<Longrightarrow> \<not> (k \<in> bm \<and> k \<in> st_bm)"
proof (induction bm st_bm sz s rule: bitmap_alloc_scan.induct)
  case (1 bm st_bm sz s)
  define d where "d = find_next_bit_le bm sz s"
  define s' where "s' = find_next_bit_le st_bm sz d"
  have below_d: "k < d \<Longrightarrow> k \<notin> bm"
    using find_next_bit_le_skips[of s k bm sz] "1.prems"(1) by (simp add: d_def)
  have below_s': "d \<le> k \<Longrightarrow> k < s' \<Longrightarrow> k \<notin> st_bm"
    using find_next_bit_le_skips[of d k st_bm sz] by (simp add: s'_def)
  show ?case
  proof (cases "d = s'")
    case True
    then have r: "bitmap_alloc_scan bm st_bm sz s = d"
      by (subst bitmap_alloc_scan.simps) (simp add: Let_def d_def s'_def)
    then show ?thesis using below_d "1.prems" by simp
  next
    case False
    then have r: "bitmap_alloc_scan bm st_bm sz s = bitmap_alloc_scan bm st_bm sz s'"
      by (subst bitmap_alloc_scan.simps) (simp add: Let_def d_def s'_def)
    show ?thesis
    proof (cases "k < d")
      case True then show ?thesis using below_d by simp
    next
      case kd: False
      show ?thesis
      proof (cases "k < s'")
        case True then show ?thesis using below_s' kd by simp
      next
        case ks: False
        then show ?thesis using "1.IH"[OF d_def s'_def False] "1.prems" r by simp
      qed
    qed
  qed
qed

lemma bitmap_alloc_scan_lowest:
  assumes "d < sz" "d \<in> bm" "d \<in> st_bm" "\<And>k. k < d \<Longrightarrow> \<not> (k \<in> bm \<and> k \<in> st_bm)"
  shows "bitmap_alloc_scan bm st_bm sz 0 = d"
proof -
  let ?r = "bitmap_alloc_scan bm st_bm sz 0"
  have "\<not> d < ?r" using bitmap_alloc_scan_skips[of 0 d bm st_bm sz] assms by auto
  moreover have "\<not> ?r < d"
  proof
    assume "?r < d"
    then have "?r < sz" using assms(1) by simp
    then have "?r \<in> bm \<and> ?r \<in> st_bm" by (rule bitmap_alloc_scan_both)
    then show False using assms(4) \<open>?r < d\<close> by blast
  qed
  ultimately show ?thesis by simp
qed

lemma bitmap_alloc_scan_none:
  assumes "\<And>k. k < sz \<Longrightarrow> \<not> (k \<in> bm \<and> k \<in> st_bm)"
  shows "bitmap_alloc_scan bm st_bm sz 0 = sz"
  using assms bitmap_alloc_scan_both[of bm st_bm sz 0] bitmap_alloc_scan_le[of bm st_bm sz 0]
  by (metis le_neq_implies_less)

section \<open>Concrete states for evaluation\<close>

text \<open>
  A small geometry: three orders over four order-0 bits per buddy block (order 0 at
  bit positions 0 to 3, order 1 at 4 and 5, order 2 at 6), two slots, the bitmap
  region at blocks 2 and 3.
\<close>

definition g_small :: geometry where
  "g_small = \<lparr>SCOUTFS_BUDDY_BM_BLKNO = 2, SCOUTFS_BUDDY_BM_NR = 2, SCOUTFS_BUDDY_ORDERS = 3,
     SCOUTFS_BUDDY_ORDER0_BITS = 4, SCOUTFS_BUDDY_SLOTS = 2,
     SCOUTFS_BLOCK_MAP_SHIFT = 2, SCOUTFS_BLOCK_MAP_COUNT = 4\<rparr>"

definition super_small :: "nat \<Rightarrow> nat \<Rightarrow> super_block" where
  "super_small bm ind =
     \<lparr>buddy_bm_ref = \<lparr>ref_blkno = bm, ref_seq = 1\<rparr>,
      buddy_ind_ref = \<lparr>ref_blkno = ind, ref_seq = 1\<rparr>,
      buddy_blocks = 4, total_blocks = 16\<rparr>"

definition sb_empty :: sb_info where
  "sb_empty = \<lparr>super = super_small 2 4, stable_super = super_small 2 4, trans_seq = 2,
     dirty_bm = Map.empty, dirty_ind = Map.empty, dirty_bud = Map.empty,
     stable_bm = Map.empty, stable_ind = Map.empty, stable_bud = Map.empty,
     file_alloc_blkno = 0, file_alloc_count = 0, btree = Map.empty, btree_fault = None\<rparr>"

definition sb_bitmaps :: "nat set \<Rightarrow> nat set \<Rightarrow> sb_info" where
  "sb_bitmaps bm st_bm = sb_empty\<lparr>dirty_bm := [2 \<mapsto> bm], stable_bm := [2 \<mapsto> st_bm]\<rparr>"

section \<open>The self-host bitmap allocator returns the lowest common bit\<close>



section \<open>The buddy allocator: allocation\<close>

text \<open>
  The two loops of \<open>dirty_buddy_block\<close> that mark a new block's initial free
  extents: \<open>while (count > size)\<close> sets bits of the highest order, the
  \<open>do ... while (order--)\<close> loop sets one bit for every bit of the remaining count.
  \<open>count\<close> is a C int and may be negative.
\<close>

function init_highest_order ::
  "geometry \<Rightarrow> buddy_indirect \<Rightarrow> buddy_block \<Rightarrow> nat \<Rightarrow> nat \<Rightarrow> int \<Rightarrow>
     buddy_indirect \<times> buddy_block \<times> nat \<times> int" where
  "init_highest_order g ind bud ord nr count =
     (if 2 ^ ord < count then
        (case set_buddy_bit g ind bud ord nr of
           (ind', bud') \<Rightarrow> init_highest_order g ind' bud' ord (nr + 1) (count - 2 ^ ord))
      else (ind, bud, nr, count))"
  by pat_completeness auto
termination
proof (relation "measure (\<lambda>(g, ind, bud, ord, nr, count). nat count)", goal_cases)
  case 1
  show ?case by simp
next
  case (2 g ind bud ord nr count ind' bud')
  have "(0::int) < 2 ^ ord" by simp
  then have "0 < count" using 2(1) by (rule less_trans)
  then show ?case by simp
qed

declare init_highest_order.simps [simp del]

fun init_remaining_orders ::
  "geometry \<Rightarrow> buddy_indirect \<Rightarrow> buddy_block \<Rightarrow> nat \<Rightarrow> nat \<Rightarrow> int \<Rightarrow>
     buddy_indirect \<times> buddy_block" where
  "init_remaining_orders g ind bud 0 nr count =
     (if count AND 1 \<noteq> 0 then set_buddy_bit g ind bud 0 nr else (ind, bud))"
| "init_remaining_orders g ind bud (Suc ord) nr count =
     (if count AND 2 ^ Suc ord \<noteq> 0 then
        (case set_buddy_bit g ind bud (Suc ord) nr of
           (ind', bud') \<Rightarrow> init_remaining_orders g ind' bud' ord (push_bit 1 (nr + 1)) count)
      else init_remaining_orders g ind bud ord (push_bit 1 nr) count)"

text \<open>
  \<open>dirty_buddy_block\<close> gives the dirty buddy block of a slot, the state and the
  indirect block as it leaves them. A slot with no block yet gets one from
  \<open>bitmap_alloc\<close>, initialised and referenced from the slot. In this model
  \<open>scoutfs_block_dirty\<close> does not fail, so the \<open>bitmap_free\<close> of its error path is
  never reached.
\<close>

definition dirty_buddy_block ::
  "geometry \<Rightarrow> sb_info \<Rightarrow> buddy_indirect \<Rightarrow> nat \<Rightarrow>
     (errno + buddy_block) \<times> sb_info \<times> buddy_indirect" where
  "dirty_buddy_block g s ind sl =
     (if ref_blkno (slot_ref (slots ind sl)) \<noteq> 0 then
        (scoutfs_block_dirty_ref (dirty_bud s) (slot_ref (slots ind sl)), s, ind)
      else
        case bitmap_alloc g s of
          (Inl e, s1) \<Rightarrow> (Inl e, s1, ind)
        | (Inr blkno, s1) \<Rightarrow>
            (let bud = scoutfs_block_dirty s1 blkno;
                 ord = SCOUTFS_BUDDY_ORDERS g - 1
             in case init_highest_order g ind bud ord 0 (slot_count g (super s1) sl) of
                  (ind1, bud1, nr, count) \<Rightarrow>
                    (case init_remaining_orders g ind1 bud1 ord nr count of
                       (ind2, bud2) \<Rightarrow>
                         (let slot = (slots ind2 sl)
                                \<lparr>slot_ref := \<lparr>ref_blkno = hdr_blkno bud2, ref_seq = hdr_seq bud2\<rparr>\<rparr>;
                              ind3 = ind2\<lparr>slots := (slots ind2)(sl := update_free_orders g slot bud2)\<rparr>
                          in (Inr bud2, s1\<lparr>dirty_bud := (dirty_bud s1)(blkno \<mapsto> bud2)\<rparr>, ind3)))))"

text \<open>
  \<open>find_first_fit\<close>. The state of its search is the array \<open>nrs\<close>, the lowest block
  number seen (\<open>blkno\<close>, initially \<open>U64_MAX\<close>), the order stored through \<open>order_ret\<close>,
  the bit to return (\<open>ret\<close>, initially \<open>INT_MAX\<close>) and \<open>made_progress\<close>.
  \<open>find_first_fit_orders\<close> is one run of the \<open>for\<close> loop over the orders, from order
  \<open>i\<close> on. \<open>st_bud\<close> is \<open>None\<close> for the C null pointer.
\<close>

type_synonym fit_state = "(nat \<Rightarrow> nat) \<times> nat \<times> nat \<times> nat \<times> bool"

function find_first_fit_orders ::
  "geometry \<Rightarrow> super_block \<Rightarrow> nat \<Rightarrow> buddy_block \<Rightarrow> buddy_block option \<Rightarrow> nat \<Rightarrow>
     fit_state \<Rightarrow> fit_state" where
  "find_first_fit_orders g sb sl bud st_bud i (nrs, blkno, order_ret, ret, made_progress) =
     (if i < SCOUTFS_BUDDY_ORDERS g then
        (let nr = find_next_buddy_bit g bud i (nrs i) in
         if nr = INT_MAX then
           find_first_fit_orders g sb sl bud st_bud (Suc i)
             (nrs(i := nr), blkno, order_ret, ret, made_progress)
         else if (case st_bud of None \<Rightarrow> True
                  | Some st \<Rightarrow> \<not> test_buddy_bit_or_higher g st i nr) then
           find_first_fit_orders g sb sl bud st_bud (Suc i)
             (nrs(i := nr + 1), blkno, order_ret, ret, True)
         else if slot_buddy_blkno g sb sl i nr < blkno then
           find_first_fit_orders g sb sl bud st_bud (Suc i)
             (nrs(i := nr), slot_buddy_blkno g sb sl i nr, i, nr, True)
         else
           find_first_fit_orders g sb sl bud st_bud (Suc i)
             (nrs(i := nr), blkno, order_ret, ret, True))
      else (nrs, blkno, order_ret, ret, made_progress))"
  by pat_completeness auto
termination
  by (relation "measure (\<lambda>(g, sb, sl, bud, st_bud, i, st). SCOUTFS_BUDDY_ORDERS g - i)") auto

declare find_first_fit_orders.simps [simp del]

text \<open>
  The \<open>do ... while (ret == INT_MAX && made_progress)\<close> loop. Nothing in the code
  bounds its runs, so it is a partial function: \<open>None\<close> is a search that never
  returns. The result is the returned bit and the order stored through \<open>order_ret\<close>.
\<close>

partial_function (option) find_first_fit_loop ::
  "geometry \<Rightarrow> super_block \<Rightarrow> nat \<Rightarrow> buddy_block \<Rightarrow> buddy_block option \<Rightarrow> nat \<Rightarrow>
     (nat \<Rightarrow> nat) \<times> nat \<times> nat \<times> nat \<Rightarrow> (nat \<times> nat) option" where
  "find_first_fit_loop g sb sl bud st_bud ord st =
     (case st of (nrs, blkno, order_ret, ret) \<Rightarrow>
        (case find_first_fit_orders g sb sl bud st_bud ord (nrs, blkno, order_ret, ret, False) of
           (nrs', blkno', order_ret', ret', made_progress) \<Rightarrow>
             if ret' = INT_MAX \<and> made_progress
             then find_first_fit_loop g sb sl bud st_bud ord (nrs', blkno', order_ret', ret')
             else Some (ret', order_ret')))"

declare find_first_fit_loop.simps [code]

text \<open>
  \<open>order_ret\<close> points to an uninitialised int of the caller; it is read only when a
  bit was found, which stores it first. The model starts it at 0.
\<close>

definition find_first_fit ::
  "geometry \<Rightarrow> super_block \<Rightarrow> nat \<Rightarrow> buddy_block \<Rightarrow> buddy_block option \<Rightarrow> nat \<Rightarrow>
     (nat \<times> nat) option" where
  "find_first_fit g sb sl bud st_bud ord =
     find_first_fit_loop g sb sl bud st_bud ord ((\<lambda>_. 0), U64_MAX, 0, INT_MAX)"

text \<open>
  The loop of \<open>alloc_slot\<close> that frees the right buddies when a larger order is
  broken up: \<open>for (nr <<= 1, i = found - 1; i >= order; i--, nr <<= 1)\<close>. The first
  numeric argument is \<open>i + 1\<close>.
\<close>

fun free_right_buddies ::
  "geometry \<Rightarrow> buddy_indirect \<Rightarrow> buddy_block \<Rightarrow> nat \<Rightarrow> nat \<Rightarrow> nat \<Rightarrow>
     buddy_indirect \<times> buddy_block" where
  "free_right_buddies g ind bud ord 0 nr = (ind, bud)"
| "free_right_buddies g ind bud ord (Suc i) nr =
     (if ord \<le> i then
        (case set_buddy_bit g ind bud i (nr OR 1) of
           (ind', bud') \<Rightarrow> free_right_buddies g ind' bud' ord i (push_bit 1 nr))
      else (ind, bud))"

text \<open>
  \<open>alloc_slot\<close>: the result, the state and the indirect block. Every write to the
  dirty buddy block goes to the dirty store under the slot's block number.
\<close>

definition alloc_slot ::
  "geometry \<Rightarrow> sb_info \<Rightarrow> buddy_indirect \<Rightarrow> nat \<Rightarrow> block_ref \<Rightarrow> nat \<Rightarrow>
     ((errno + nat) \<times> sb_info \<times> buddy_indirect) option" where
  "alloc_slot g s ind sl stable_ref ord =
     (case dirty_buddy_block g s ind sl of
        (Inl e, s1, ind1) \<Rightarrow> Some (Inl e, s1, ind1)
      | (Inr bud, s1, ind1) \<Rightarrow>
          (case (if ref_blkno stable_ref \<noteq> 0 then
                   (case scoutfs_block_read_ref (stable_bud s1) stable_ref of
                      Inl e \<Rightarrow> Inl e
                    | Inr st \<Rightarrow> Inr (Some st))
                 else Inr None) of
             Inl e \<Rightarrow> Some (Inl e, s1, ind1)
           | Inr st_bud \<Rightarrow>
               (case find_first_fit g (super s1) sl bud st_bud ord of
                  None \<Rightarrow> None
                | Some (nr, found) \<Rightarrow>
                    if nr = INT_MAX then Some (Inl ENOSPC, s1, ind1)
                    else
                      (case clear_buddy_bit g ind1 bud found nr of
                         (ind2, bud2) \<Rightarrow>
                           (case free_right_buddies g ind2 bud2 ord found (push_bit 1 nr) of
                              (ind3, bud3) \<Rightarrow>
                                Some (Inr (slot_buddy_blkno g (super s1) sl found nr),
                                      s1\<lparr>dirty_bud := (dirty_bud s1)
                                           (ref_blkno (slot_ref (slots ind3 sl)) \<mapsto> bud3)\<rparr>,
                                      ind3\<lparr>slots := (slots ind3)
                                           (sl := update_free_orders g (slots ind3 sl) bud3)\<rparr>))))))"

text \<open>
  The loop of \<open>alloc_order\<close> over the slots, from slot \<open>i\<close> on; \<open>ret\<close> is the value the
  previous slot left.
\<close>

function alloc_order_slots ::
  "geometry \<Rightarrow> sb_info \<Rightarrow> buddy_indirect \<Rightarrow> buddy_indirect \<Rightarrow> 8 word \<Rightarrow> nat \<Rightarrow> nat \<Rightarrow>
     (errno + nat) \<Rightarrow> ((errno + nat) \<times> sb_info \<times> buddy_indirect) option" where
  "alloc_order_slots g s ind st_ind msk ord i ret =
     (if i < SCOUTFS_BUDDY_SLOTS g then
        (if \<not> (msk AND free_orders (slots ind i) \<noteq> 0 \<and>
                msk AND free_orders (slots st_ind i) \<noteq> 0) then
           alloc_order_slots g s ind st_ind msk ord (Suc i) (Inl ENOSPC)
         else
           (case alloc_slot g s ind i (slot_ref (slots st_ind i)) ord of
              None \<Rightarrow> None
            | Some (r, s1, ind1) \<Rightarrow>
                if r \<noteq> Inl ENOSPC then Some (r, s1, ind1)
                else alloc_order_slots g s1 ind1 st_ind msk ord (Suc i) r))
      else Some (ret, s, ind))"
  by pat_completeness auto
termination
  by (relation "measure (\<lambda>(g, s, ind, st_ind, msk, ord, i, ret). SCOUTFS_BUDDY_SLOTS g - i)")
     auto

declare alloc_order_slots.simps [simp del]

text \<open>
  \<open>alloc_order\<close>. \<open>msk = ~0U << order\<close> is computed on 32 bits and stored in a \<open>u8\<close>.
  \<open>ret\<close> is uninitialised before the slot loop; with at least one slot the loop
  always assigns it, and the model starts it at \<open>-ENOSPC\<close>.
\<close>

definition alloc_order :: "geometry \<Rightarrow> sb_info \<Rightarrow> nat \<Rightarrow> ((errno + nat) \<times> sb_info) option" where
  "alloc_order g s ord =
     (if ref_blkno (buddy_ind_ref (super s)) = 0 \<or>
         ref_blkno (buddy_ind_ref (stable_super s)) = 0 then Some (Inl EIO, s)
      else
        case scoutfs_block_dirty_ref (dirty_ind s) (buddy_ind_ref (super s)) of
          Inl e \<Rightarrow> Some (Inl e, s)
        | Inr ind \<Rightarrow>
            (case scoutfs_block_read_ref (stable_ind s) (buddy_ind_ref (stable_super s)) of
               Inl e \<Rightarrow> Some (Inl e, s)
             | Inr st_ind \<Rightarrow>
                 (case alloc_order_slots g s ind st_ind
                         (ucast (push_bit ord (- 1 :: 32 word))) ord 0 (Inl ENOSPC) of
                    None \<Rightarrow> None
                  | Some (ret, s1, ind1) \<Rightarrow>
                      Some (ret, s1\<lparr>dirty_ind := (dirty_ind s1)
                                   (ref_blkno (buddy_ind_ref (super s)) \<mapsto> ind1)\<rparr>))))"

text \<open>
  \<open>buddy_alloc\<close>: \<open>do { ret = alloc_order(sb, blkno, order); } while (ret == -ENOSPC && order--)\<close>
  and \<open>return ret ?: order\<close>. A success is the block number with the granted order.
\<close>

fun buddy_alloc_orders ::
  "geometry \<Rightarrow> sb_info \<Rightarrow> nat \<Rightarrow> ((errno + nat \<times> nat) \<times> sb_info) option" where
  "buddy_alloc_orders g s 0 =
     (case alloc_order g s 0 of
        None \<Rightarrow> None
      | Some (Inl e, s1) \<Rightarrow> Some (Inl e, s1)
      | Some (Inr blkno, s1) \<Rightarrow> Some (Inr (blkno, 0), s1))"
| "buddy_alloc_orders g s (Suc ord) =
     (case alloc_order g s (Suc ord) of
        None \<Rightarrow> None
      | Some (Inl e, s1) \<Rightarrow>
          if e = ENOSPC then buddy_alloc_orders g s1 ord else Some (Inl e, s1)
      | Some (Inr blkno, s1) \<Rightarrow> Some (Inr (blkno, Suc ord), s1))"

definition buddy_alloc ::
  "geometry \<Rightarrow> sb_info \<Rightarrow> int \<Rightarrow> ((errno + nat \<times> nat) \<times> sb_info) option" where
  "buddy_alloc g s ord =
     (if ord < 0 \<or> int (SCOUTFS_BUDDY_ORDERS g) \<le> ord then Some (Inl EINVAL, s)
      else buddy_alloc_orders g s (nat ord))"

section \<open>What the first-fit search returns\<close>

lemma find_next_buddy_bit_found:
  assumes "find_next_buddy_bit g bud i k = nr" "nr \<noteq> INT_MAX"
  shows "test_buddy_bit g bud i nr \<and> k \<le> nr \<and> order_nr g i nr < order_off g (Suc i)"
proof -
  define sz where "sz = order_off g (Suc i)"
  define n where "n = find_next_bit_le (bud_bits bud) sz (order_nr g i k)"
  have lt: "n < sz" and nr: "nr = n - order_off g i"
    using assms by (auto simp: find_next_buddy_bit_def Let_def sz_def n_def split: if_splits)
  have inb: "n \<in> bud_bits bud" using lt unfolding n_def by (rule find_next_bit_le_in)
  have "order_nr g i k \<le> sz"
  proof (rule ccontr)
    assume "\<not> order_nr g i k \<le> sz"
    then have "n = sz" unfolding n_def by (simp add: find_next_bit_le_past)
    then show False using lt by simp
  qed
  then have ge: "order_nr g i k \<le> n" unfolding n_def by (rule find_next_bit_le_ge)
  then have "order_nr g i nr = n" using nr by (simp add: order_nr_def)
  then show ?thesis using inb ge lt nr by (simp add: test_buddy_bit_def order_nr_def sz_def)
qed

text \<open>
  A search state is sound when the bit it would return, if any, is set in the dirty
  buddy block at the stored order and is covered by a free extent of the stable one.
\<close>

definition fit_sound ::
  "geometry \<Rightarrow> buddy_block \<Rightarrow> buddy_block option \<Rightarrow> nat \<Rightarrow> nat \<Rightarrow> nat \<Rightarrow> bool" where
  "fit_sound g bud st_bud ord order_ret ret =
     (ret = INT_MAX \<or>
      (ord \<le> order_ret \<and> order_ret < SCOUTFS_BUDDY_ORDERS g \<and>
       test_buddy_bit g bud order_ret ret \<and>
       order_nr g order_ret ret < order_off g (Suc order_ret) \<and>
       (\<exists>st. st_bud = Some st \<and> test_buddy_bit_or_higher g st order_ret ret)))"

lemma find_first_fit_orders_sound:
  assumes "find_first_fit_orders g sb sl bud st_bud i (nrs, blkno, order_ret, ret, mp) =
             (nrs', blkno', order_ret', ret', mp')"
      and "ord \<le> i" and "fit_sound g bud st_bud ord order_ret ret"
  shows "fit_sound g bud st_bud ord order_ret' ret'"
  using assms
proof (induction g sb sl bud st_bud i "(nrs, blkno, order_ret, ret, mp)"
       arbitrary: nrs blkno order_ret ret mp rule: find_first_fit_orders.induct)
  case (1 g sb sl bud st_bud i nrs blkno order_ret ret made_progress)
  show ?case
  proof (cases "i < SCOUTFS_BUDDY_ORDERS g")
    case False
    then show ?thesis using "1.prems" by (simp add: find_first_fit_orders.simps)
  next
    case True
    define x where "x = find_next_buddy_bit g bud i (nrs i)"
    have le: "ord \<le> Suc i" using "1.prems"(2) by simp
    have step: "find_first_fit_orders g sb sl bud st_bud i
                  (nrs, blkno, order_ret, ret, made_progress) =
       (if x = INT_MAX then
          find_first_fit_orders g sb sl bud st_bud (Suc i)
            (nrs(i := x), blkno, order_ret, ret, made_progress)
        else if (case st_bud of None \<Rightarrow> True
                 | Some st \<Rightarrow> \<not> test_buddy_bit_or_higher g st i x) then
          find_first_fit_orders g sb sl bud st_bud (Suc i)
            (nrs(i := x + 1), blkno, order_ret, ret, True)
        else if slot_buddy_blkno g sb sl i x < blkno then
          find_first_fit_orders g sb sl bud st_bud (Suc i)
            (nrs(i := x), slot_buddy_blkno g sb sl i x, i, x, True)
        else
          find_first_fit_orders g sb sl bud st_bud (Suc i)
            (nrs(i := x), blkno, order_ret, ret, True))"
      using True unfolding x_def
      by (subst find_first_fit_orders.simps) (simp add: Let_def)
    consider (none) "x = INT_MAX"
      | (skip) "x \<noteq> INT_MAX" "(case st_bud of None \<Rightarrow> True
                  | Some st \<Rightarrow> \<not> test_buddy_bit_or_higher g st i x)"
      | (take) "x \<noteq> INT_MAX" "\<not> (case st_bud of None \<Rightarrow> True
                  | Some st \<Rightarrow> \<not> test_buddy_bit_or_higher g st i x)"
               "slot_buddy_blkno g sb sl i x < blkno"
      | (keep) "x \<noteq> INT_MAX" "\<not> (case st_bud of None \<Rightarrow> True
                  | Some st \<Rightarrow> \<not> test_buddy_bit_or_higher g st i x)"
               "\<not> slot_buddy_blkno g sb sl i x < blkno"
      by blast
    then show ?thesis
    proof cases
      case none
      have "find_first_fit_orders g sb sl bud st_bud (Suc i)
              (nrs(i := x), blkno, order_ret, ret, made_progress) =
            (nrs', blkno', order_ret', ret', mp')"
        using "1.prems"(1) none unfolding step by simp
      from "1.hyps"(1)[OF True x_def none this le "1.prems"(3)] show ?thesis .
    next
      case skip
      have "find_first_fit_orders g sb sl bud st_bud (Suc i)
              (nrs(i := x + 1), blkno, order_ret, ret, True) =
            (nrs', blkno', order_ret', ret', mp')"
        using "1.prems"(1) skip unfolding step by simp
      from "1.hyps"(2)[OF True x_def skip this le "1.prems"(3)] show ?thesis .
    next
      case take
      have run: "find_first_fit_orders g sb sl bud st_bud (Suc i)
              (nrs(i := x), slot_buddy_blkno g sb sl i x, i, x, True) =
            (nrs', blkno', order_ret', ret', mp')"
        using "1.prems"(1) take unfolding step by simp
      have found: "test_buddy_bit g bud i x \<and> order_nr g i x < order_off g (Suc i)"
        using find_next_buddy_bit_found[OF x_def[symmetric] take(1)] by simp
      have "\<exists>st. st_bud = Some st \<and> test_buddy_bit_or_higher g st i x"
        using take(2) by (cases st_bud) auto
      then have "fit_sound g bud st_bud ord i x"
        using found True "1.prems"(2) by (simp add: fit_sound_def)
      from "1.hyps"(3)[OF True x_def take run le this] show ?thesis .
    next
      case keep
      have "find_first_fit_orders g sb sl bud st_bud (Suc i)
              (nrs(i := x), blkno, order_ret, ret, True) =
            (nrs', blkno', order_ret', ret', mp')"
        using "1.prems"(1) keep unfolding step by simp
      from "1.hyps"(4)[OF True x_def keep this le "1.prems"(3)] show ?thesis .
    qed
  qed
qed

lemma find_first_fit_loop_sound:
  assumes "find_first_fit_loop g sb sl bud st_bud ord st = Some y"
      and "fit_sound g bud st_bud ord (fst (snd (snd st))) (snd (snd (snd st)))"
  shows "fit_sound g bud st_bud ord (snd y) (fst y)"
proof -
  have "fit_sound g bud st_bud ord (fst (snd (snd st))) (snd (snd (snd st))) \<longrightarrow>
        fit_sound g bud st_bud ord (snd y) (fst y)"
  proof (rule find_first_fit_loop.raw_induct
      [where P = "\<lambda>g sb sl bud st_bud ord st y.
          fit_sound g bud st_bud ord (fst (snd (snd st))) (snd (snd (snd st))) \<longrightarrow>
          fit_sound g bud st_bud ord (snd y) (fst y)", OF _ assms(1)])
    fix loop :: "geometry \<Rightarrow> super_block \<Rightarrow> nat \<Rightarrow> buddy_block \<Rightarrow> buddy_block option \<Rightarrow>
        nat \<Rightarrow> (nat \<Rightarrow> nat) \<times> nat \<times> nat \<times> nat \<Rightarrow> (nat \<times> nat) option"
      and g sb sl bud st_bud ord and st :: "(nat \<Rightarrow> nat) \<times> nat \<times> nat \<times> nat" and y
    assume IH: "\<And>g sb sl bud st_bud ord st y. loop g sb sl bud st_bud ord st = Some y \<Longrightarrow>
        fit_sound g bud st_bud ord (fst (snd (snd st))) (snd (snd (snd st))) \<longrightarrow>
        fit_sound g bud st_bud ord (snd y) (fst y)"
    assume body: "(case st of (nrs, blkno, order_ret, ret) \<Rightarrow>
        (case find_first_fit_orders g sb sl bud st_bud ord (nrs, blkno, order_ret, ret, False) of
           (nrs', blkno', order_ret', ret', made_progress) \<Rightarrow>
             if ret' = INT_MAX \<and> made_progress
             then loop g sb sl bud st_bud ord (nrs', blkno', order_ret', ret')
             else Some (ret', order_ret'))) = Some y"
    show "fit_sound g bud st_bud ord (fst (snd (snd st))) (snd (snd (snd st))) \<longrightarrow>
          fit_sound g bud st_bud ord (snd y) (fst y)"
    proof
      assume sound: "fit_sound g bud st_bud ord (fst (snd (snd st))) (snd (snd (snd st)))"
      obtain nrs blkno order_ret ret where st: "st = (nrs, blkno, order_ret, ret)"
        by (cases st) auto
      obtain nrs' blkno' order_ret' ret' mp' where
        run: "find_first_fit_orders g sb sl bud st_bud ord (nrs, blkno, order_ret, ret, False) =
                (nrs', blkno', order_ret', ret', mp')"
        by (cases "find_first_fit_orders g sb sl bud st_bud ord
                     (nrs, blkno, order_ret, ret, False)") auto
      have sound': "fit_sound g bud st_bud ord order_ret' ret'"
        using find_first_fit_orders_sound[OF run order_refl] sound st by simp
      show "fit_sound g bud st_bud ord (snd y) (fst y)"
      proof (cases "ret' = INT_MAX \<and> mp'")
        case True
        then have "loop g sb sl bud st_bud ord (nrs', blkno', order_ret', ret') = Some y"
          using body st run by simp
        from IH[OF this] sound' show ?thesis by simp
      next
        case False
        then have "y = (ret', order_ret')" using body st run by auto
        then show ?thesis using sound' by simp
      qed
    qed
  qed
  then show ?thesis using assms(2) by simp
qed

lemma find_first_fit_sound:
  assumes "find_first_fit g sb sl bud st_bud ord = Some (nr, found)" "nr \<noteq> INT_MAX"
  shows "ord \<le> found \<and> found < SCOUTFS_BUDDY_ORDERS g \<and> test_buddy_bit g bud found nr \<and>
         order_nr g found nr < order_off g (Suc found) \<and>
         (\<exists>st. st_bud = Some st \<and> test_buddy_bit_or_higher g st found nr)"
proof -
  have "fit_sound g bud st_bud ord found nr"
    using find_first_fit_loop_sound[OF assms(1)[unfolded find_first_fit_def]]
    by (simp add: fit_sound_def)
  then show ?thesis using assms(2) by (simp add: fit_sound_def)
qed

section \<open>The allocator writes only the dirty view\<close>

text \<open>
  \<open>dirty_only s s'\<close>: the state \<open>s'\<close> differs from \<open>s\<close> at most in the three dirty
  stores. Both supers, the stable stores, the reservoir and the b-tree are the same.
\<close>

definition dirty_only :: "sb_info \<Rightarrow> sb_info \<Rightarrow> bool" where
  "dirty_only s s' =
     (s' = s\<lparr>dirty_bm := dirty_bm s', dirty_ind := dirty_ind s', dirty_bud := dirty_bud s'\<rparr>)"

lemma dirty_only_refl [simp]: "dirty_only s s"
  by (simp add: dirty_only_def)

lemma dirty_only_trans: "dirty_only s s1 \<Longrightarrow> dirty_only s1 s2 \<Longrightarrow> dirty_only s s2"
  unfolding dirty_only_def
  by (cases s, cases s1, cases s2) simp

lemma dirty_only_fields:
  assumes "dirty_only s s'"
  shows "super s' = super s" "stable_super s' = stable_super s"
    "stable_bm s' = stable_bm s" "stable_ind s' = stable_ind s" "stable_bud s' = stable_bud s"
    "file_alloc_blkno s' = file_alloc_blkno s" "file_alloc_count s' = file_alloc_count s"
    "btree s' = btree s" "trans_seq s' = trans_seq s" "btree_fault s' = btree_fault s"
  using assms unfolding dirty_only_def
  by (cases s, cases s', simp)+

lemma dirty_only_dirty_bm [simp]: "dirty_only s (s\<lparr>dirty_bm := m\<rparr>)"
  by (simp add: dirty_only_def)

lemma dirty_only_dirty_ind [simp]: "dirty_only s (s\<lparr>dirty_ind := m\<rparr>)"
  by (simp add: dirty_only_def)

lemma dirty_only_dirty_bud [simp]: "dirty_only s (s\<lparr>dirty_bud := m\<rparr>)"
  by (simp add: dirty_only_def)

lemma bitmap_alloc_dirty_only: "bitmap_alloc g s = (r, s') \<Longrightarrow> dirty_only s s'"
  by (auto simp: bitmap_alloc_def Let_def split: if_splits sum.splits)

lemma bitmap_free_dirty_only: "bitmap_free g s blkno = (r, s') \<Longrightarrow> dirty_only s s'"
  by (auto simp: bitmap_free_def Let_def split: if_splits sum.splits)

lemma dirty_buddy_block_dirty_only:
  assumes "dirty_buddy_block g s ind sl = (r, s', ind')"
  shows "dirty_only s s'"
proof (cases "ref_blkno (slot_ref (slots ind sl)) \<noteq> 0")
  case True
  then show ?thesis using assms by (simp add: dirty_buddy_block_def)
next
  case False
  obtain rb s1 where ba: "bitmap_alloc g s = (rb, s1)" by (cases "bitmap_alloc g s") auto
  have d1: "dirty_only s s1" using ba by (rule bitmap_alloc_dirty_only)
  show ?thesis
  proof (cases rb)
    case (Inl e)
    then show ?thesis using assms False ba d1 by (simp add: dirty_buddy_block_def)
  next
    case (Inr blkno)
    then have "\<exists>m. s' = s1\<lparr>dirty_bud := m\<rparr>"
      using assms False ba
      by (auto simp: dirty_buddy_block_def Let_def split: prod.splits)
    then obtain m where "s' = s1\<lparr>dirty_bud := m\<rparr>" by blast
    then have "dirty_only s1 s'" by simp
    with d1 show ?thesis by (rule dirty_only_trans)
  qed
qed

lemma alloc_slot_dirty_only:
  assumes "alloc_slot g s ind sl stable_ref ord = Some (r, s', ind')"
  shows "dirty_only s s'"
proof -
  obtain rb s1 ind1 where db: "dirty_buddy_block g s ind sl = (rb, s1, ind1)"
    by (cases "dirty_buddy_block g s ind sl") auto
  have d1: "dirty_only s s1" using db by (rule dirty_buddy_block_dirty_only)
  have "s' = s1 \<or> (\<exists>m. s' = s1\<lparr>dirty_bud := m\<rparr>)"
    using assms db
    by (auto simp: alloc_slot_def split: sum.splits if_splits option.splits prod.splits)
  then have "dirty_only s1 s'" by auto
  with d1 show ?thesis by (rule dirty_only_trans)
qed

lemma alloc_order_slots_dirty_only:
  "alloc_order_slots g s ind st_ind msk ord i ret = Some (r, s', ind') \<Longrightarrow> dirty_only s s'"
proof (induction g s ind st_ind msk ord i ret rule: alloc_order_slots.induct)
  case (1 g s ind st_ind msk ord i ret)
  show ?case
  proof (cases "i < SCOUTFS_BUDDY_SLOTS g")
    case False
    then show ?thesis using "1.prems" by (simp add: alloc_order_slots.simps)
  next
    case True
    show ?thesis
    proof (cases "msk AND free_orders (slots ind i) \<noteq> 0 \<and>
                  msk AND free_orders (slots st_ind i) \<noteq> 0")
      case False
      then have "alloc_order_slots g s ind st_ind msk ord (Suc i) (Inl ENOSPC) =
                   Some (r, s', ind')"
        using "1.prems" True by (subst (asm) alloc_order_slots.simps) auto
      from "1.IH"(1)[OF True _ this] False show ?thesis by blast
    next
      case hints: True
      obtain r1 s1 ind1 where
        as: "alloc_slot g s ind i (slot_ref (slots st_ind i)) ord = Some (r1, s1, ind1)"
        using "1.prems" True hints
        by (subst (asm) alloc_order_slots.simps) (auto split: option.splits)
      have d1: "dirty_only s s1" using as by (rule alloc_slot_dirty_only)
      show ?thesis
      proof (cases "r1 = Inl ENOSPC")
        case False
        then have "s' = s1" using "1.prems" True hints as
          by (subst (asm) alloc_order_slots.simps) auto
        then show ?thesis using d1 by simp
      next
        case enospc: True
        then have run: "alloc_order_slots g s1 ind1 st_ind msk ord (Suc i) r1 =
                     Some (r, s', ind')"
          using "1.prems" True hints as by (subst (asm) alloc_order_slots.simps) auto
        have "dirty_only s1 s'"
          using "1.IH"(2)[OF True _ as _ _ _ run] hints enospc by simp
        with d1 show ?thesis by (rule dirty_only_trans)
      qed
    qed
  qed
qed

lemma alloc_order_dirty_only:
  assumes "alloc_order g s ord = Some (r, s')"
  shows "dirty_only s s'"
proof -
  have "s' = s \<or> (\<exists>ind st_ind msk r1 s1 ind1 m.
          alloc_order_slots g s ind st_ind msk ord 0 (Inl ENOSPC) = Some (r1, s1, ind1) \<and>
          s' = s1\<lparr>dirty_ind := m\<rparr>)"
    using assms
    by (simp add: alloc_order_def split: if_splits sum.splits option.splits prod.splits)
       blast+
  then show ?thesis
  proof
    assume "s' = s" then show ?thesis by simp
  next
    assume "\<exists>ind st_ind msk r1 s1 ind1 m.
          alloc_order_slots g s ind st_ind msk ord 0 (Inl ENOSPC) = Some (r1, s1, ind1) \<and>
          s' = s1\<lparr>dirty_ind := m\<rparr>"
    then obtain ind st_ind msk r1 s1 ind1 m where
      run: "alloc_order_slots g s ind st_ind msk ord 0 (Inl ENOSPC) = Some (r1, s1, ind1)"
      and s': "s' = s1\<lparr>dirty_ind := m\<rparr>" by blast
    have "dirty_only s s1" using run by (rule alloc_order_slots_dirty_only)
    moreover have "dirty_only s1 s'" using s' by simp
    ultimately show ?thesis by (rule dirty_only_trans)
  qed
qed

lemma buddy_alloc_orders_dirty_only:
  "buddy_alloc_orders g s ord = Some (r, s') \<Longrightarrow> dirty_only s s'"
proof (induction ord arbitrary: s)
  case 0
  then obtain r1 where "alloc_order g s 0 = Some (r1, s')"
    by (auto split: option.splits sum.splits prod.splits)
  then show ?case by (rule alloc_order_dirty_only)
next
  case (Suc ord)
  obtain r1 s1 where ao: "alloc_order g s (Suc ord) = Some (r1, s1)"
    using Suc.prems by (auto split: option.splits)
  have d1: "dirty_only s s1" using ao by (rule alloc_order_dirty_only)
  show ?case
  proof (cases "r1 = Inl ENOSPC")
    case True
    then have "buddy_alloc_orders g s1 ord = Some (r, s')" using Suc.prems ao by simp
    then have "dirty_only s1 s'" by (rule Suc.IH)
    with d1 show ?thesis by (rule dirty_only_trans)
  next
    case False
    then have "s' = s1" using Suc.prems ao by (auto split: sum.splits if_splits)
    then show ?thesis using d1 by simp
  qed
qed

lemma buddy_alloc_dirty_only: "buddy_alloc g s ord = Some (r, s') \<Longrightarrow> dirty_only s s'"
  by (auto simp: buddy_alloc_def split: if_splits dest: buddy_alloc_orders_dirty_only)

section \<open>What a successful allocation returns\<close>

text \<open>
  \<open>slot_fit g s ind sl stable_ref ord blkno\<close>: in state \<open>s\<close>, with \<open>ind\<close> the dirty
  indirect block, the dirty buddy block of slot \<open>sl\<close> has a bit set at some order
  \<open>found\<close> at least \<open>ord\<close> and position \<open>nr\<close>, the stable buddy block behind
  \<open>stable_ref\<close> has that extent free at that order or a higher one, and \<open>blkno\<close> is
  the first block of the extent.
\<close>

definition slot_fit ::
  "geometry \<Rightarrow> sb_info \<Rightarrow> buddy_indirect \<Rightarrow> nat \<Rightarrow> block_ref \<Rightarrow> nat \<Rightarrow> nat \<Rightarrow> bool" where
  "slot_fit g s ind sl stable_ref ord blkno =
     (\<exists>bud st found nr.
        fst (dirty_buddy_block g s ind sl) = Inr bud \<and>
        ref_blkno stable_ref \<noteq> 0 \<and> stable_bud s (ref_blkno stable_ref) = Some st \<and>
        ord \<le> found \<and> found < SCOUTFS_BUDDY_ORDERS g \<and>
        test_buddy_bit g bud found nr \<and>
        order_nr g found nr < order_off g (Suc found) \<and>
        test_buddy_bit_or_higher g st found nr \<and>
        blkno = slot_buddy_blkno g (super s) sl found nr)"

lemma alloc_slot_success:
  assumes "alloc_slot g s ind sl stable_ref ord = Some (Inr blkno, s', ind')"
  shows "slot_fit g s ind sl stable_ref ord blkno"
proof -
  obtain rb s1 ind1 where db: "dirty_buddy_block g s ind sl = (rb, s1, ind1)"
    by (cases "dirty_buddy_block g s ind sl") auto
  have fr: "dirty_only s s1" using db by (rule dirty_buddy_block_dirty_only)
  obtain bud where rb: "rb = Inr bud"
    using assms db by (cases rb) (auto simp: alloc_slot_def)
  define rd where "rd = (if ref_blkno stable_ref \<noteq> 0 then
                   (case scoutfs_block_read_ref (stable_bud s1) stable_ref of
                      Inl e \<Rightarrow> Inl e
                    | Inr st \<Rightarrow> Inr (Some st))
                 else Inr None)"
  have eq: "alloc_slot g s ind sl stable_ref ord =
      (case rd of
         Inl e \<Rightarrow> Some (Inl e, s1, ind1)
       | Inr st_bud \<Rightarrow>
           (case find_first_fit g (super s1) sl bud st_bud ord of
              None \<Rightarrow> None
            | Some (nr, found) \<Rightarrow>
                if nr = INT_MAX then Some (Inl ENOSPC, s1, ind1)
                else
                  (case clear_buddy_bit g ind1 bud found nr of
                     (ind2, bud2) \<Rightarrow>
                       (case free_right_buddies g ind2 bud2 ord found (push_bit 1 nr) of
                          (ind3, bud3) \<Rightarrow>
                            Some (Inr (slot_buddy_blkno g (super s1) sl found nr),
                                  s1\<lparr>dirty_bud := (dirty_bud s1)
                                       (ref_blkno (slot_ref (slots ind3 sl)) \<mapsto> bud3)\<rparr>,
                                  ind3\<lparr>slots := (slots ind3)
                                       (sl := update_free_orders g (slots ind3 sl) bud3)\<rparr>)))))"
    unfolding alloc_slot_def rd_def using db rb by simp
  obtain st_bud where rd_ok: "rd = Inr st_bud"
    using assms unfolding eq by (cases rd) auto
  obtain nr found where
    fit: "find_first_fit g (super s1) sl bud st_bud ord = Some (nr, found)"
    using assms rd_ok unfolding eq by (auto split: option.splits)
  have nr: "nr \<noteq> INT_MAX" and blkno: "blkno = slot_buddy_blkno g (super s1) sl found nr"
    using assms rd_ok fit unfolding eq by (auto split: if_splits prod.splits)
  from find_first_fit_sound[OF fit nr] obtain st where
    snd: "ord \<le> found" "found < SCOUTFS_BUDDY_ORDERS g" "test_buddy_bit g bud found nr"
      "order_nr g found nr < order_off g (Suc found)"
      "st_bud = Some st" "test_buddy_bit_or_higher g st found nr"
    by blast
  have "ref_blkno stable_ref \<noteq> 0 \<and> stable_bud s1 (ref_blkno stable_ref) = Some st"
    using rd_ok snd(5) unfolding rd_def
    by (auto simp: scoutfs_block_read_ref_def split: if_splits option.splits sum.splits)
  then show ?thesis
    unfolding slot_fit_def using db rb snd blkno dirty_only_fields[OF fr] by auto
qed

lemma alloc_order_slots_success:
  "alloc_order_slots g s ind st_ind msk ord i ret = Some (Inr blkno, s', ind') \<Longrightarrow>
     ret = Inr blkno \<or>
     (\<exists>s1 ind1 sl. dirty_only s s1 \<and> sl < SCOUTFS_BUDDY_SLOTS g \<and>
        slot_fit g s1 ind1 sl (slot_ref (slots st_ind sl)) ord blkno)"
proof (induction g s ind st_ind msk ord i ret rule: alloc_order_slots.induct)
  case (1 g s ind st_ind msk ord i ret)
  show ?case
  proof (cases "i < SCOUTFS_BUDDY_SLOTS g")
    case False
    then show ?thesis using "1.prems" by (simp add: alloc_order_slots.simps)
  next
    case True
    show ?thesis
    proof (cases "msk AND free_orders (slots ind i) \<noteq> 0 \<and>
                  msk AND free_orders (slots st_ind i) \<noteq> 0")
      case False
      then have "alloc_order_slots g s ind st_ind msk ord (Suc i) (Inl ENOSPC) =
                   Some (Inr blkno, s', ind')"
        using "1.prems" True by (subst (asm) alloc_order_slots.simps) auto
      from "1.IH"(1)[OF True _ this] False show ?thesis by blast
    next
      case hints: True
      obtain r1 s1 ind1 where
        as: "alloc_slot g s ind i (slot_ref (slots st_ind i)) ord = Some (r1, s1, ind1)"
        using "1.prems" True hints
        by (subst (asm) alloc_order_slots.simps) (auto split: option.splits)
      have d1: "dirty_only s s1" using as by (rule alloc_slot_dirty_only)
      show ?thesis
      proof (cases "r1 = Inl ENOSPC")
        case False
        then have "r1 = Inr blkno" using "1.prems" True hints as
          by (subst (asm) alloc_order_slots.simps) auto
        then have "slot_fit g s ind i (slot_ref (slots st_ind i)) ord blkno"
          using as alloc_slot_success by blast
        then show ?thesis using True dirty_only_refl by blast
      next
        case enospc: True
        then have run: "alloc_order_slots g s1 ind1 st_ind msk ord (Suc i) r1 =
                     Some (Inr blkno, s', ind')"
          using "1.prems" True hints as by (subst (asm) alloc_order_slots.simps) auto
        have "r1 = Inr blkno \<or>
              (\<exists>s2 ind2 sl. dirty_only s1 s2 \<and> sl < SCOUTFS_BUDDY_SLOTS g \<and>
                 slot_fit g s2 ind2 sl (slot_ref (slots st_ind sl)) ord blkno)"
          using "1.IH"(2)[OF True _ as _ _ _ run] hints enospc by simp
        then show ?thesis using enospc d1 dirty_only_trans by blast
      qed
    qed
  qed
qed

lemma alloc_order_success:
  assumes "alloc_order g s ord = Some (Inr blkno, s')"
  shows "\<exists>s1 ind1 st_ind sl. dirty_only s s1 \<and> sl < SCOUTFS_BUDDY_SLOTS g \<and>
           stable_ind s (ref_blkno (buddy_ind_ref (stable_super s))) = Some st_ind \<and>
           slot_fit g s1 ind1 sl (slot_ref (slots st_ind sl)) ord blkno"
proof -
  have "\<exists>ind st_ind msk sa inda.
          stable_ind s (ref_blkno (buddy_ind_ref (stable_super s))) = Some st_ind \<and>
          alloc_order_slots g s ind st_ind msk ord 0 (Inl ENOSPC) = Some (Inr blkno, sa, inda)"
    using assms
    by (simp add: alloc_order_def scoutfs_block_read_ref_def
             split: if_splits sum.splits option.splits prod.splits)
       blast+
  then obtain ind st_ind msk sa inda where
    st: "stable_ind s (ref_blkno (buddy_ind_ref (stable_super s))) = Some st_ind" and
    run: "alloc_order_slots g s ind st_ind msk ord 0 (Inl ENOSPC) = Some (Inr blkno, sa, inda)"
    by blast
  from alloc_order_slots_success[OF run] st show ?thesis by auto
qed

text \<open>
  \<open>order_retries g s ord granted\<close>: from state \<open>s\<close>, \<open>alloc_order\<close> failed with
  \<open>ENOSPC\<close> at every order from \<open>ord\<close> down to \<open>granted + 1\<close>, each attempt starting in
  the state the previous one left; the result is the state before the attempt at
  order \<open>granted\<close>.
\<close>

fun order_retries :: "geometry \<Rightarrow> sb_info \<Rightarrow> nat \<Rightarrow> nat \<Rightarrow> sb_info option" where
  "order_retries g s 0 granted = (if granted = 0 then Some s else None)"
| "order_retries g s (Suc ord) granted =
     (if granted = Suc ord then Some s
      else case alloc_order g s (Suc ord) of
             Some (Inl ENOSPC, s1) \<Rightarrow> order_retries g s1 ord granted
           | _ \<Rightarrow> None)"

lemma order_retries_dirty_only:
  "order_retries g s ord granted = Some s0 \<Longrightarrow> dirty_only s s0"
proof (induction ord arbitrary: s)
  case 0
  then show ?case by (simp split: if_splits)
next
  case (Suc ord)
  show ?case
  proof (cases "granted = Suc ord")
    case True
    then show ?thesis using Suc.prems by simp
  next
    case False
    then obtain s1 where ao: "alloc_order g s (Suc ord) = Some (Inl ENOSPC, s1)"
      and rest: "order_retries g s1 ord granted = Some s0"
      using Suc.prems
      by (auto split: option.splits sum.splits errno.splits prod.splits)
    have "dirty_only s s1" using ao by (rule alloc_order_dirty_only)
    moreover have "dirty_only s1 s0" using rest by (rule Suc.IH)
    ultimately show ?thesis by (rule dirty_only_trans)
  qed
qed

lemma buddy_alloc_orders_success:
  "buddy_alloc_orders g s ord = Some (Inr (blkno, granted), s') \<Longrightarrow>
     granted \<le> ord \<and>
     (\<exists>s0. order_retries g s ord granted = Some s0 \<and>
           alloc_order g s0 granted = Some (Inr blkno, s'))"
proof (induction ord arbitrary: s)
  case 0
  then show ?case by (auto split: option.splits sum.splits prod.splits)
next
  case (Suc ord)
  obtain r1 s1 where ao: "alloc_order g s (Suc ord) = Some (r1, s1)"
    using Suc.prems by (auto split: option.splits)
  show ?case
  proof (cases r1)
    case (Inr b)
    then show ?thesis using Suc.prems ao by auto
  next
    case (Inl e)
    then have e: "e = ENOSPC" and rest: "buddy_alloc_orders g s1 ord = Some (Inr (blkno, granted), s')"
      using Suc.prems ao by (auto split: if_splits)
    from Suc.IH[OF rest] obtain s0 where
      le: "granted \<le> ord" and r: "order_retries g s1 ord granted = Some s0"
      and a: "alloc_order g s0 granted = Some (Inr blkno, s')" by blast
    have "order_retries g s (Suc ord) granted = Some s0"
      using le r ao Inl e by simp
    then show ?thesis using le a by auto
  qed
qed

section \<open>Concrete allocator states\<close>

text \<open>
  With the small geometry and four bitmap blocks the buddy region starts at block 8:
  slot 0 covers blocks 8 to 11, slot 1 blocks 12 to 15. The bitmap block is block 2,
  the indirect block is block 4, the buddy block of slot 0 is block 5.
\<close>

definition bud_small :: "nat \<Rightarrow> nat set \<Rightarrow> (nat \<Rightarrow> 32 word) \<Rightarrow> buddy_block" where
  "bud_small b bits counts =
     \<lparr>hdr_blkno = b, hdr_seq = 1, order_counts = counts, bud_bits = bits\<rparr>"

definition slot_small :: "nat \<Rightarrow> 8 word \<Rightarrow> buddy_slot" where
  "slot_small b fo = \<lparr>slot_ref = \<lparr>ref_blkno = b, ref_seq = 1\<rparr>, free_orders = fo\<rparr>"

definition ind_small :: "buddy_slot \<Rightarrow> buddy_slot \<Rightarrow> (nat \<Rightarrow> 64 word) \<Rightarrow> buddy_indirect" where
  "ind_small s0 s1 totals =
     \<lparr>order_totals = totals, slots = (\<lambda>_. slot_small 0 0)(0 := s0, 1 := s1)\<rparr>"

definition sb_views ::
  "buddy_indirect \<Rightarrow> (nat \<rightharpoonup> buddy_block) \<Rightarrow> buddy_indirect \<Rightarrow> (nat \<rightharpoonup> buddy_block) \<Rightarrow>
     sb_info" where
  "sb_views ind buds st_ind st_buds =
     sb_empty\<lparr>dirty_bm := [2 \<mapsto> {2, 3}], stable_bm := [2 \<mapsto> {2, 3}],
              dirty_ind := [4 \<mapsto> ind], stable_ind := [4 \<mapsto> st_ind],
              dirty_bud := buds, stable_bud := st_buds\<rparr>"

text \<open>Slot 0 entirely free in both views: one bit of order 2.\<close>

definition ind_whole :: buddy_indirect where
  "ind_whole = ind_small (slot_small 5 4) (slot_small 0 0) ((\<lambda>_. 0)(2 := 1))"

definition bud_whole :: buddy_block where
  "bud_whole = bud_small 5 {6} ((\<lambda>_. 0)(2 := 1))"

definition sb_whole :: sb_info where
  "sb_whole = sb_views ind_whole [5 \<mapsto> bud_whole] ind_whole [5 \<mapsto> bud_whole]"

text \<open>
  A dirty buddy block with block 9 free at order 0 and blocks 10 and 11 free at
  order 1, against the stable block with the whole slot free.
\<close>

definition bud_split :: buddy_block where
  "bud_split = bud_small 5 {1, 5} ((\<lambda>_. 0)(0 := 1, 1 := 1))"

text \<open>
  Slot 0 has only block 8 free (order 0); slot 1 has all its blocks free in both
  views according to the indirect blocks, but its stable buddy block (block 6) cannot
  be read.
\<close>

definition ind_broken :: buddy_indirect where
  "ind_broken = ind_small (slot_small 5 1) (slot_small 6 4) ((\<lambda>_. 0)(0 := 1, 2 := 1))"

definition bud_one :: buddy_block where
  "bud_one = bud_small 5 {0} ((\<lambda>_. 0)(0 := 1))"

definition sb_broken :: sb_info where
  "sb_broken =
     sb_views ind_broken [5 \<mapsto> bud_one, 6 \<mapsto> bud_whole] ind_broken [5 \<mapsto> bud_one]"

text \<open>Only block 8 is free, in both views.\<close>

definition ind_one :: buddy_indirect where
  "ind_one = ind_small (slot_small 5 1) (slot_small 0 0) ((\<lambda>_. 0)(0 := 1))"

definition sb_one_free :: sb_info where
  "sb_one_free = sb_views ind_one [5 \<mapsto> bud_one] ind_one [5 \<mapsto> bud_one]"

lemma option_fst_result:
  "map_option fst x = Some r \<Longrightarrow> x = Some (r, snd (the x))"
  by (cases x) auto

section \<open>Errors other than ENOSPC end the retries\<close>



section \<open>The buddy allocator: freeing\<close>

text \<open>
  The merge loop of \<open>buddy_free\<close>:
  \<open>for (i = order; i < ORDERS - 1; i++) { if (!test_buddy_bit(bud, i, nr ^ 1)) break;
  clear_buddy_bit(ind, bud, i, nr ^ 1); nr >>= 1; }\<close>. It returns the blocks with the
  order \<open>i\<close> and the position \<open>nr\<close> it stopped at.
\<close>

function buddy_free_merge ::
  "geometry \<Rightarrow> buddy_indirect \<Rightarrow> buddy_block \<Rightarrow> nat \<Rightarrow> nat \<Rightarrow>
     buddy_indirect \<times> buddy_block \<times> nat \<times> nat" where
  "buddy_free_merge g ind bud i nr =
     (if i < SCOUTFS_BUDDY_ORDERS g - 1 then
        (if \<not> test_buddy_bit g bud i (nr XOR 1) then (ind, bud, i, nr)
         else
           (case clear_buddy_bit g ind bud i (nr XOR 1) of
              (ind', bud') \<Rightarrow> buddy_free_merge g ind' bud' (Suc i) (drop_bit 1 nr)))
      else (ind, bud, i, nr))"
  by pat_completeness auto
termination
  by (relation "measure (\<lambda>(g, ind, bud, i, nr). SCOUTFS_BUDDY_ORDERS g - 1 - i)") auto

declare buddy_free_merge.simps [simp del]

text \<open>The merge loop followed by \<open>set_buddy_bit(ind, bud, i, nr)\<close>.\<close>

definition buddy_free_bits ::
  "geometry \<Rightarrow> buddy_indirect \<Rightarrow> buddy_block \<Rightarrow> nat \<Rightarrow> nat \<Rightarrow> buddy_indirect \<times> buddy_block" where
  "buddy_free_bits g ind bud ord nr =
     (case buddy_free_merge g ind bud ord nr of
        (ind1, bud1, i, nr1) \<Rightarrow> set_buddy_bit g ind1 bud1 i nr1)"

definition buddy_free :: "geometry \<Rightarrow> sb_info \<Rightarrow> nat \<Rightarrow> int \<Rightarrow> (errno + unit) \<times> sb_info" where
  "buddy_free g s blkno ord =
     (if ord < 0 \<or> int (SCOUTFS_BUDDY_ORDERS g) \<le> ord \<or>
         \<not> valid_order g (super s) blkno (nat ord) then (Inl EINVAL, s)
      else if ref_blkno (buddy_ind_ref (super s)) = 0 then (Inl EIO, s)
      else
        case scoutfs_block_dirty_ref (dirty_ind s) (buddy_ind_ref (super s)) of
          Inl e \<Rightarrow> (Inl e, s)
        | Inr ind \<Rightarrow>
            (let sl = indirect_slot g (super s) blkno in
             case scoutfs_block_dirty_ref (dirty_bud s) (slot_ref (slots ind sl)) of
               Inl e \<Rightarrow> (Inl e, s)
             | Inr bud \<Rightarrow>
                 (case buddy_free_bits g ind bud (nat ord)
                         (drop_bit (nat ord) (buddy_bit g (super s) blkno)) of
                    (ind1, bud1) \<Rightarrow>
                      (Inr (),
                       s\<lparr>dirty_ind := (dirty_ind s)
                            (ref_blkno (buddy_ind_ref (super s)) \<mapsto>
                               ind1\<lparr>slots := (slots ind1)
                                  (sl := update_free_orders g (slots ind1 sl) bud1)\<rparr>),
                          dirty_bud := (dirty_bud s)
                            (ref_blkno (slot_ref (slots ind sl)) \<mapsto> bud1)\<rparr>))))"

definition scoutfs_buddy_free ::
  "geometry \<Rightarrow> sb_info \<Rightarrow> nat \<Rightarrow> int \<Rightarrow> (errno + unit) \<times> sb_info" where
  "scoutfs_buddy_free g s blkno ord =
     (case blkno_region g (super s) blkno of
        REGION_PAIR \<Rightarrow> (Inr (), s)
      | REGION_BM \<Rightarrow> bitmap_free g s blkno
      | REGION_BUDDY \<Rightarrow> buddy_free g s blkno ord)"

definition alloc_region ::
  "geometry \<Rightarrow> sb_info \<Rightarrow> int \<Rightarrow> nat \<Rightarrow> region \<Rightarrow> ((errno + nat \<times> nat) \<times> sb_info) option" where
  "alloc_region g s ord existing reg =
     (case reg of
        REGION_PAIR \<Rightarrow> Some (Inr (existing XOR 1, 0), s)
      | REGION_BM \<Rightarrow>
          (case bitmap_alloc g s of
             (Inl e, s1) \<Rightarrow> Some (Inl e, s1)
           | (Inr blkno, s1) \<Rightarrow> Some (Inr (blkno, 0), s1))
      | REGION_BUDDY \<Rightarrow> buddy_alloc g s ord)"

definition scoutfs_buddy_alloc ::
  "geometry \<Rightarrow> sb_info \<Rightarrow> int \<Rightarrow> ((errno + nat \<times> nat) \<times> sb_info) option" where
  "scoutfs_buddy_alloc g s ord = alloc_region g s ord 0 REGION_BUDDY"

definition scoutfs_buddy_alloc_same ::
  "geometry \<Rightarrow> sb_info \<Rightarrow> int \<Rightarrow> nat \<Rightarrow> ((errno + nat \<times> nat) \<times> sb_info) option" where
  "scoutfs_buddy_alloc_same g s ord existing =
     alloc_region g s ord existing (blkno_region g (super s) existing)"

text \<open>
  The kernel's \<open>fls64\<close> (the position of the highest set bit, counted from 1, and 0
  for 0) and \<open>__ffs64\<close> (the position of the lowest set bit, counted from 0). The
  kernel leaves \<open>__ffs64 (0)\<close> undefined and the code calls it all the same; the
  argument \<open>z\<close> stands for the value that the platform returns there, as it reads
  after the cast to \<open>int\<close> and taken as not negative (63 with the generic \<open>__ffs\<close>, 64
  with a count of trailing zeros).
\<close>

fun fls64 :: "nat \<Rightarrow> nat" where
  "fls64 n = (if n = 0 then 0 else Suc (fls64 (n div 2)))"

declare fls64.simps [simp del]

fun lowest_set_bit :: "nat \<Rightarrow> nat" where
  "lowest_set_bit n = (if n = 0 \<or> odd n then 0 else Suc (lowest_set_bit (n div 2)))"

declare lowest_set_bit.simps [simp del]

definition ffs64 :: "nat \<Rightarrow> nat \<Rightarrow> nat" where
  "ffs64 z n = (if n = 0 then z else lowest_set_bit n)"

lemma fls64_le: "0 < n \<Longrightarrow> 2 ^ (fls64 n - 1) \<le> n"
proof (induction n rule: fls64.induct)
  case (1 n)
  show ?case
  proof (cases "n div 2 = 0")
    case True
    then have "fls64 n = 1" using "1.prems"
      by (subst fls64.simps, subst fls64.simps) simp
    then show ?thesis using "1.prems" by simp
  next
    case False
    then have ih: "2 ^ (fls64 (n div 2) - 1) \<le> n div 2" using "1.IH" "1.prems" by simp
    have pos: "0 < fls64 (n div 2)" using False by (subst fls64.simps) simp
    have "fls64 n = Suc (fls64 (n div 2))" using "1.prems" by (subst fls64.simps) simp
    then have "(2::nat) ^ (fls64 n - 1) = 2 * 2 ^ (fls64 (n div 2) - 1)"
      using pos by (cases "fls64 (n div 2)") auto
    also have "\<dots> \<le> 2 * (n div 2)" using ih by simp
    also have "\<dots> \<le> n" by simp
    finally show ?thesis .
  qed
qed

text \<open>
  \<open>scoutfs_buddy_free_extent\<close> returns nothing; \<open>BUG_ON(ret)\<close> stops the kernel when
  a free fails. The model returns how the loop ended. \<open>BUG_ON e\<close> is a \<open>BUG_ON\<close> on
  the error \<open>e\<close> of a call, \<open>BUG\<close> a \<open>BUG_ON\<close> on any other condition. The order of a
  piece is \<open>min3_t(int, __ffs64(buddy_bit(super, blkno)), fls64(count) - 1,
  SCOUTFS_BUDDY_ORDERS - 1)\<close>, with the stable super.
\<close>

datatype halt = BUG_ON errno | BUG

function scoutfs_buddy_free_extent ::
  "geometry \<Rightarrow> nat \<Rightarrow> sb_info \<Rightarrow> nat \<Rightarrow> nat \<Rightarrow> (halt + unit) \<times> sb_info" where
  "scoutfs_buddy_free_extent g z s blkno count =
     (if count = 0 then (Inr (), s)
      else
        (let ord = min (ffs64 z (buddy_bit g (stable_super s) blkno))
                       (min (fls64 count - 1) (SCOUTFS_BUDDY_ORDERS g - 1)) in
         case scoutfs_buddy_free g s blkno (int ord) of
           (Inl e, s1) \<Rightarrow> (Inl (BUG_ON e), s1)
         | (Inr u, s1) \<Rightarrow>
             scoutfs_buddy_free_extent g z s1 ((blkno + 2 ^ ord) mod 2 ^ 64) (count - 2 ^ ord)))"
  by pat_completeness auto
termination
proof (relation "measure (\<lambda>(g, z, s, blkno, count). count)", goal_cases)
  case 1
  show ?case by simp
next
  case (2 g z s blkno count ord r s1 u)
  have "ord \<le> fls64 count - 1" using 2(2) by (simp add: min_def)
  then have "(2::nat) ^ ord \<le> 2 ^ (fls64 count - 1)"
    by (intro power_increasing) auto
  also have "\<dots> \<le> count" using 2(1) by (intro fls64_le) simp
  finally have "(2::nat) ^ ord \<le> count" .
  moreover have "(0::nat) < 2 ^ ord" by simp
  ultimately show ?case using 2(1) by simp
qed

declare scoutfs_buddy_free_extent.simps [simp del]

lemma buddy_free_dirty_only: "buddy_free g s blkno ord = (r, s') \<Longrightarrow> dirty_only s s'"
  by (auto simp: buddy_free_def Let_def dirty_only_def
           split: if_splits sum.splits prod.splits)

lemma scoutfs_buddy_free_dirty_only:
  "scoutfs_buddy_free g s blkno ord = (r, s') \<Longrightarrow> dirty_only s s'"
  by (auto simp: scoutfs_buddy_free_def split: region.splits
           dest: buddy_free_dirty_only bitmap_free_dirty_only)

section \<open>Freeing an unaligned extent\<close>

text \<open>
  The extent freeing of the specification: the order of the next piece is the
  smallest of the position of the lowest set bit of the block's offset in its slot,
  \<open>floor (log2 count)\<close> and \<open>ORDERS - 1\<close>; the pieces follow each other until
  \<open>count\<close> blocks are covered; they are freed in turn.
\<close>

fun floor_log2 :: "nat \<Rightarrow> nat" where
  "floor_log2 n = (if n < 2 then 0 else Suc (floor_log2 (n div 2)))"

declare floor_log2.simps [simp del]

lemma floor_log2_bounds: "0 < n \<Longrightarrow> 2 ^ floor_log2 n \<le> n \<and> n < 2 ^ Suc (floor_log2 n)"
proof (induction n rule: floor_log2.induct)
  case (1 n)
  show ?case
  proof (cases "n < 2")
    case True
    then have "floor_log2 n = 0" by (subst floor_log2.simps) simp
    then show ?thesis using True "1.prems" by simp
  next
    case False
    then have ih: "2 ^ floor_log2 (n div 2) \<le> n div 2 \<and> n div 2 < 2 ^ Suc (floor_log2 (n div 2))"
      using "1.IH" by simp
    have eq: "floor_log2 n = Suc (floor_log2 (n div 2))"
      using False by (subst floor_log2.simps) simp
    have "2 * 2 ^ floor_log2 (n div 2) \<le> 2 * (n div 2)" using ih by simp
    moreover have "2 * (n div 2) \<le> n" by simp
    moreover have "n < 2 * 2 ^ Suc (floor_log2 (n div 2))"
    proof -
      have "n < 2 * (n div 2) + 2" by presburger
      moreover have "n div 2 + 1 \<le> 2 ^ Suc (floor_log2 (n div 2))" using ih by simp
      ultimately show ?thesis by linarith
    qed
    ultimately show ?thesis unfolding eq by simp
  qed
qed

lemma fls64_floor_log2: "fls64 n - 1 = floor_log2 n"
proof (induction n rule: floor_log2.induct)
  case (1 n)
  show ?case
  proof (cases "n < 2")
    case True
    then have "n = 0 \<or> n = 1" by auto
    then show ?thesis
      by (subst fls64.simps, subst fls64.simps, subst floor_log2.simps) auto
  next
    case False
    then have ih: "fls64 (n div 2) - 1 = floor_log2 (n div 2)" using "1.IH" by simp
    have pos: "0 < fls64 (n div 2)" using False by (subst fls64.simps) simp
    have "fls64 n = Suc (fls64 (n div 2))" using False by (subst fls64.simps) simp
    moreover have "floor_log2 n = Suc (floor_log2 (n div 2))"
      using False by (subst floor_log2.simps) simp
    ultimately show ?thesis using ih pos by simp
  qed
qed

definition extent_order :: "geometry \<Rightarrow> nat \<Rightarrow> super_block \<Rightarrow> nat \<Rightarrow> nat \<Rightarrow> nat" where
  "extent_order g z sb blkno count =
     min (ffs64 z (buddy_bit g sb blkno))
         (min (floor_log2 count) (SCOUTFS_BUDDY_ORDERS g - 1))"

lemma extent_order_le: "0 < count \<Longrightarrow> 2 ^ extent_order g z sb blkno count \<le> count"
proof -
  assume pos: "0 < count"
  have "extent_order g z sb blkno count \<le> floor_log2 count"
    by (simp add: extent_order_def)
  then have "(2::nat) ^ extent_order g z sb blkno count \<le> 2 ^ floor_log2 count"
    by (intro power_increasing) auto
  also have "\<dots> \<le> count" using floor_log2_bounds[OF pos] by simp
  finally show ?thesis .
qed

function extent_pieces ::
  "geometry \<Rightarrow> nat \<Rightarrow> super_block \<Rightarrow> nat \<Rightarrow> nat \<Rightarrow> (nat \<times> nat) list" where
  "extent_pieces g z sb blkno count =
     (if count = 0 then []
      else (blkno, extent_order g z sb blkno count) #
           extent_pieces g z sb ((blkno + 2 ^ extent_order g z sb blkno count) mod 2 ^ 64)
             (count - 2 ^ extent_order g z sb blkno count))"
  by pat_completeness auto
termination
proof (relation "measure (\<lambda>(g, z, sb, blkno, count). count)", goal_cases)
  case 1
  show ?case by simp
next
  case (2 g z sb blkno count)
  have "(0::nat) < 2 ^ extent_order g z sb blkno count" by simp
  then show ?case using 2 by simp
qed

declare extent_pieces.simps [simp del]

fun free_pieces :: "geometry \<Rightarrow> sb_info \<Rightarrow> (nat \<times> nat) list \<Rightarrow> (halt + unit) \<times> sb_info" where
  "free_pieces g s [] = (Inr (), s)"
| "free_pieces g s ((b, ord) # ps) =
     (case scoutfs_buddy_free g s b (int ord) of
        (Inl e, s1) \<Rightarrow> (Inl (BUG_ON e), s1)
      | (Inr u, s1) \<Rightarrow> free_pieces g s1 ps)"

lemma extent_pieces_sum:
  "(\<Sum>(b, ord) \<leftarrow> extent_pieces g z sb blkno count. 2 ^ ord) = count"
proof (induction g z sb blkno count rule: extent_pieces.induct)
  case (1 g z sb blkno count)
  show ?case
  proof (cases "count = 0")
    case True
    then show ?thesis by (subst extent_pieces.simps) simp
  next
    case False
    then have "2 ^ extent_order g z sb blkno count \<le> count"
      by (intro extent_order_le) simp
    then show ?thesis using False "1.IH"
      by (subst extent_pieces.simps) simp
  qed
qed

lemma free_extent_pieces:
  assumes "stable_super s = sb"
  shows "scoutfs_buddy_free_extent g z s blkno count =
         free_pieces g s (extent_pieces g z sb blkno count)"
  using assms
proof (induction g z sb blkno count arbitrary: s rule: extent_pieces.induct)
  case (1 g z sb blkno count)
  show ?case
  proof (cases "count = 0")
    case True
    then show ?thesis
      by (subst scoutfs_buddy_free_extent.simps, subst extent_pieces.simps) simp
  next
    case False
    define ord where "ord = extent_order g z sb blkno count"
    have pieces: "extent_pieces g z sb blkno count =
        (blkno, ord) # extent_pieces g z sb ((blkno + 2 ^ ord) mod 2 ^ 64) (count - 2 ^ ord)"
      using False unfolding ord_def by (subst extent_pieces.simps) simp
    have ord_eq: "min (ffs64 z (buddy_bit g (stable_super s) blkno))
                    (min (fls64 count - 1) (SCOUTFS_BUDDY_ORDERS g - 1)) = ord"
      using fls64_floor_log2[of count] "1.prems" by (simp add: ord_def extent_order_def)
    obtain r s1 where fr: "scoutfs_buddy_free g s blkno (int ord) = (r, s1)"
      by (cases "scoutfs_buddy_free g s blkno (int ord)") auto
    have s1: "stable_super s1 = sb"
      using dirty_only_fields(2)[OF scoutfs_buddy_free_dirty_only[OF fr]] "1.prems" by simp
    have unfold: "scoutfs_buddy_free_extent g z s blkno count =
        (case r of
           Inl e \<Rightarrow> (Inl (BUG_ON e), s1)
         | Inr u \<Rightarrow> scoutfs_buddy_free_extent g z s1 ((blkno + 2 ^ ord) mod 2 ^ 64)
                      (count - 2 ^ ord))"
      using False ord_eq fr
      by (subst scoutfs_buddy_free_extent.simps) (simp add: Let_def)
    show ?thesis
    proof (cases r)
      case (Inl e)
      then show ?thesis using unfold pieces fr by simp
    next
      case (Inr u)
      have "scoutfs_buddy_free_extent g z s1 ((blkno + 2 ^ ord) mod 2 ^ 64) (count - 2 ^ ord) =
            free_pieces g s1 (extent_pieces g z sb ((blkno + 2 ^ ord) mod 2 ^ 64)
              (count - 2 ^ ord))"
        using "1.IH"[OF False s1] unfolding ord_def by simp
      then show ?thesis using unfold pieces fr Inr by simp
    qed
  qed
qed

text \<open>All four blocks of slot 0 are allocated.\<close>

definition ind_full :: buddy_indirect where
  "ind_full = ind_small (slot_small 5 0) (slot_small 0 0) (\<lambda>_. 0)"

definition bud_full :: buddy_block where
  "bud_full = bud_small 5 {} (\<lambda>_. 0)"

definition sb_full :: sb_info where
  "sb_full = sb_views ind_full [5 \<mapsto> bud_full] ind_full [5 \<mapsto> bud_full]"

section \<open>Bits of the buddy bitmaps\<close>

lemma xor_one_twice: "((nr::nat) XOR 1) XOR 1 = nr"
  by (simp add: xor.assoc)

lemma xor_one_half: "drop_bit 1 ((nr::nat) XOR 1) = drop_bit 1 nr"
  by simp

lemma xor_one_ne: "(nr::nat) XOR 1 \<noteq> nr"
  by (metis xor_self_eq xor.left_commute xor.right_neutral one_neq_zero)

lemma drop_bit_step:
  "i < j \<Longrightarrow> drop_bit (j - Suc i) (drop_bit 1 (n::nat)) = drop_bit (j - i) n"
  by (simp add: Suc_diff_Suc)

lemma order_off_mono: "i \<le> j \<Longrightarrow> order_off g i \<le> order_off g j"
proof (cases "i = 0")
  case True
  then show ?thesis by (simp add: order_off_def)
next
  case False
  assume le: "i \<le> j"
  then have "(2::nat) ^ (i - 1) \<le> 2 ^ (j - 1)" by (intro power_increasing) auto
  then have "SCOUTFS_BUDDY_ORDER0_BITS g div 2 ^ (j - 1) \<le>
             SCOUTFS_BUDDY_ORDER0_BITS g div 2 ^ (i - 1)"
    by (intro div_le_mono2) auto
  then show ?thesis using False le by (auto simp: order_off_def)
qed

lemma order_nr_distinct:
  assumes "i < j" "order_nr g i n < order_off g (Suc i)"
  shows "order_nr g i n \<noteq> order_nr g j m"
proof -
  have "order_off g (Suc i) \<le> order_off g j" using assms(1) by (intro order_off_mono) simp
  then show ?thesis using assms(2) by (simp add: order_nr_def)
qed

lemma set_buddy_bit_bits:
  "set_buddy_bit g ind bud ord nr = (ind', bud') \<Longrightarrow>
     bud_bits bud' = insert (order_nr g ord nr) (bud_bits bud)"
  by (auto simp: set_buddy_bit_def split: if_splits)

lemma clear_buddy_bit_bits:
  "clear_buddy_bit g ind bud ord nr = (ind', bud') \<Longrightarrow>
     bud_bits bud' = bud_bits bud - {order_nr g ord nr}"
  by (auto simp: clear_buddy_bit_def split: if_splits)

lemma set_buddy_bit_slots:
  "set_buddy_bit g ind bud ord nr = (ind', bud') \<Longrightarrow>
     slots ind' = slots ind \<and> hdr_blkno bud' = hdr_blkno bud \<and> hdr_seq bud' = hdr_seq bud"
  by (auto simp: set_buddy_bit_def split: if_splits)

lemma clear_buddy_bit_slots:
  "clear_buddy_bit g ind bud ord nr = (ind', bud') \<Longrightarrow>
     slots ind' = slots ind \<and> hdr_blkno bud' = hdr_blkno bud \<and> hdr_seq bud' = hdr_seq bud"
  by (auto simp: clear_buddy_bit_def split: if_splits)

lemma test_buddy_bit_or_higher_above:
  assumes "i \<le> j" "j < SCOUTFS_BUDDY_ORDERS g" "test_buddy_bit g bud j (drop_bit (j - i) n)"
  shows "test_buddy_bit_or_higher g bud i n"
  using assms
proof (induction "j - i" arbitrary: i n)
  case 0
  then have "i = j" by simp
  then show ?case using 0 by (subst test_buddy_bit_or_higher.simps) simp
next
  case (Suc d)
  then have lt: "i < j" by simp
  have d: "d = j - Suc i" using Suc.hyps(2) by simp
  have "test_buddy_bit g bud j (drop_bit (j - Suc i) (drop_bit 1 n))"
    using Suc.prems(3) unfolding drop_bit_step[OF lt] .
  then have "test_buddy_bit_or_higher g bud (Suc i) (drop_bit 1 n)"
    using Suc.hyps(1)[OF d _ Suc.prems(2)] lt by simp
  then show ?case using lt Suc.prems(2) by (subst test_buddy_bit_or_higher.simps) simp
qed

text \<open>
  Where the merge loop stops: at an order at or above the one it started from and
  below \<open>ORDERS\<close>, at the position shifted accordingly, with the buddy there clear
  (or at the highest order), and having cleared bits only.
\<close>

lemma buddy_free_merge_result:
  assumes "buddy_free_merge g ind bud i nr = (ind', bud', j, nrj)"
  shows "i \<le> j \<and> (j < SCOUTFS_BUDDY_ORDERS g \<or> j = i) \<and> nrj = drop_bit (j - i) nr \<and>
         bud_bits bud' \<subseteq> bud_bits bud \<and> slots ind' = slots ind \<and>
         (Suc j < SCOUTFS_BUDDY_ORDERS g \<longrightarrow> \<not> test_buddy_bit g bud' j (nrj XOR 1)) \<and>
         (\<not> test_buddy_bit g bud i (nr XOR 1) \<longrightarrow> bud' = bud \<and> ind' = ind \<and> j = i)"
  using assms
proof (induction g ind bud i nr rule: buddy_free_merge.induct)
  case (1 g ind bud i nr)
  show ?case
  proof (cases "i < SCOUTFS_BUDDY_ORDERS g - 1 \<and> test_buddy_bit g bud i (nr XOR 1)")
    case False
    then have "(ind', bud', j, nrj) = (ind, bud, i, nr)"
      using "1.prems" by (subst (asm) buddy_free_merge.simps) (auto split: if_splits)
    then show ?thesis using False by auto
  next
    case True
    obtain ind1 bud1 where cl: "clear_buddy_bit g ind bud i (nr XOR 1) = (ind1, bud1)"
      by (cases "clear_buddy_bit g ind bud i (nr XOR 1)") auto
    have run: "buddy_free_merge g ind1 bud1 (Suc i) (drop_bit 1 nr) = (ind', bud', j, nrj)"
      using "1.prems" True cl by (subst (asm) buddy_free_merge.simps) simp
    from "1.IH"[OF _ _ cl[symmetric] run] True have
      ih: "Suc i \<le> j" "j < SCOUTFS_BUDDY_ORDERS g \<or> j = Suc i"
        "nrj = drop_bit (j - Suc i) (drop_bit 1 nr)"
        "bud_bits bud' \<subseteq> bud_bits bud1" "slots ind' = slots ind1"
        "Suc j < SCOUTFS_BUDDY_ORDERS g \<longrightarrow> \<not> test_buddy_bit g bud' j (nrj XOR 1)"
      by blast+
    have lt: "i < j" using ih(1) by simp
    have nrj: "nrj = drop_bit (j - i) nr" using ih(3) unfolding drop_bit_step[OF lt] .
    have sub: "bud_bits bud' \<subseteq> bud_bits bud"
      using ih(4) clear_buddy_bit_bits[OF cl] by auto
    have sl: "slots ind' = slots ind" using ih(5) clear_buddy_bit_slots[OF cl] by simp
    have bound: "j < SCOUTFS_BUDDY_ORDERS g" using ih(2) True by auto
    show ?thesis using lt nrj sub sl bound ih(6) True by simp
  qed
qed

lemma buddy_free_bits_result:
  assumes "buddy_free_bits g ind bud i nr = (ind', bud')"
  shows "\<exists>j b. i \<le> j \<and> (j < SCOUTFS_BUDDY_ORDERS g \<or> j = i) \<and> bud_bits b \<subseteq> bud_bits bud \<and>
           bud_bits bud' = insert (order_nr g j (drop_bit (j - i) nr)) (bud_bits b) \<and>
           slots ind' = slots ind \<and>
           (Suc j < SCOUTFS_BUDDY_ORDERS g \<longrightarrow>
              \<not> test_buddy_bit g b j (drop_bit (j - i) nr XOR 1)) \<and>
           (\<not> test_buddy_bit g bud i (nr XOR 1) \<longrightarrow> b = bud \<and> j = i)"
proof -
  obtain ind1 bud1 j nrj where m: "buddy_free_merge g ind bud i nr = (ind1, bud1, j, nrj)"
    by (cases "buddy_free_merge g ind bud i nr") auto
  have st: "set_buddy_bit g ind1 bud1 j nrj = (ind', bud')"
    using assms m by (simp add: buddy_free_bits_def)
  from buddy_free_merge_result[OF m] set_buddy_bit_bits[OF st] set_buddy_bit_slots[OF st]
  show ?thesis by (intro exI[of _ j] exI[of _ bud1]) auto
qed

section \<open>What a successful free does\<close>

lemma buddy_free_ok:
  assumes "buddy_free g s blkno (int k) = (Inr (), s')"
  shows "k < SCOUTFS_BUDDY_ORDERS g \<and>
    (\<exists>ind bud ind1 bud1.
       dirty_ind s (ref_blkno (buddy_ind_ref (super s))) = Some ind \<and>
       dirty_bud s (ref_blkno (slot_ref (slots ind (indirect_slot g (super s) blkno)))) =
         Some bud \<and>
       buddy_free_bits g ind bud k (drop_bit k (buddy_bit g (super s) blkno)) = (ind1, bud1) \<and>
       s' = s\<lparr>dirty_ind := (dirty_ind s)
                 (ref_blkno (buddy_ind_ref (super s)) \<mapsto>
                    ind1\<lparr>slots := (slots ind1)
                       (indirect_slot g (super s) blkno :=
                          update_free_orders g (slots ind1 (indirect_slot g (super s) blkno))
                            bud1)\<rparr>),
              dirty_bud := (dirty_bud s)
                 (ref_blkno (slot_ref (slots ind (indirect_slot g (super s) blkno))) \<mapsto>
                    bud1)\<rparr>)"
  using assms
  by (auto simp: buddy_free_def scoutfs_block_dirty_ref_def Let_def
           split: if_splits option.splits prod.splits)

section \<open>Was an extent free in the stable view\<close>

text \<open>
  \<open>scoutfs_buddy_was_free\<close> returns 1, 0 or a negative error; the model returns the
  truth value or the error. It reads the stable view only.
\<close>

definition scoutfs_buddy_was_free :: "geometry \<Rightarrow> sb_info \<Rightarrow> nat \<Rightarrow> nat \<Rightarrow> errno + bool" where
  "scoutfs_buddy_was_free g s blkno ord =
     (if ref_blkno (buddy_bm_ref (super s)) = 0 \<or>
         ref_blkno (buddy_bm_ref (stable_super s)) = 0 then Inl EIO
      else
        case scoutfs_block_read_ref (stable_ind s) (buddy_ind_ref (stable_super s)) of
          Inl e \<Rightarrow> Inl e
        | Inr ind \<Rightarrow>
            (let r = slot_ref (slots ind (indirect_slot g (stable_super s) blkno)) in
             if ref_blkno r = 0 then Inr True
             else
               case scoutfs_block_read_ref (stable_bud s) r of
                 Inl e \<Rightarrow> Inl e
               | Inr bud \<Rightarrow>
                   Inr (test_buddy_bit_or_higher g bud ord
                          (drop_bit ord (buddy_bit g (stable_super s) blkno)))))"

section \<open>The file allocation reservoir (filerw.c)\<close>

text \<open>
  The part of \<open>alloc_file_block\<close> under the second \<open>if (sbi->file_alloc_count)\<close>:
  take the first block of the reservoir, or fail with \<open>ENOSPC\<close> when it is empty.
  The fields are \<open>u64\<close>.
\<close>

definition file_alloc_take :: "sb_info \<Rightarrow> (errno + nat) \<times> sb_info" where
  "file_alloc_take s =
     (if file_alloc_count s \<noteq> 0 then
        (Inr (file_alloc_blkno s),
         s\<lparr>file_alloc_blkno := (file_alloc_blkno s + 1) mod 2 ^ 64,
           file_alloc_count := (file_alloc_count s + 2 ^ 64 - 1) mod 2 ^ 64\<rparr>)
      else (Inl ENOSPC, s))"

text \<open>
  \<open>alloc_file_block\<close>. With an empty reservoir it asks the buddy allocator for an
  extent of the highest order and installs what it got if the reservoir is still
  empty; an extent that was not installed is freed at the end when its order is
  positive (\<open>if (order > 0)\<close>), and the result of that free is ignored.
\<close>

definition alloc_file_block :: "geometry \<Rightarrow> sb_info \<Rightarrow> ((errno + nat) \<times> sb_info) option" where
  "alloc_file_block g s =
     (if file_alloc_count s = 0 then
        (case scoutfs_buddy_alloc g s (int (SCOUTFS_BUDDY_ORDERS g) - 1) of
           None \<Rightarrow> None
         | Some (Inl e, s1) \<Rightarrow> Some (Inl e, s1)
         | Some (Inr (alloc_blkno, ord), s1) \<Rightarrow>
             (if file_alloc_count s1 = 0 then
                Some (file_alloc_take
                        (s1\<lparr>file_alloc_blkno := alloc_blkno, file_alloc_count := 2 ^ ord\<rparr>))
              else
                (case file_alloc_take s1 of
                   (r, s2) \<Rightarrow>
                     if 0 < ord then Some (r, snd (scoutfs_buddy_free g s2 alloc_blkno (int ord)))
                     else Some (r, s2))))
      else Some (file_alloc_take s))"

text \<open>
  \<open>return_file_block\<close> returns nothing and stops the kernel on
  \<open>BUG_ON(sbi->file_alloc_count && sbi->file_alloc_blkno != (blkno + 1))\<close>.
\<close>

definition return_file_block :: "sb_info \<Rightarrow> nat \<Rightarrow> halt + sb_info" where
  "return_file_block s blkno =
     (if file_alloc_count s \<noteq> 0 \<and> file_alloc_blkno s \<noteq> (blkno + 1) mod 2 ^ 64 then Inl BUG
      else
        Inr (s\<lparr>file_alloc_blkno :=
                 ((if file_alloc_count s = 0 then (blkno + 1) mod 2 ^ 64
                   else file_alloc_blkno s) + 2 ^ 64 - 1) mod 2 ^ 64,
               file_alloc_count := (file_alloc_count s + 1) mod 2 ^ 64\<rparr>))"

definition scoutfs_filerw_free_alloc ::
  "geometry \<Rightarrow> nat \<Rightarrow> sb_info \<Rightarrow> (halt + unit) \<times> sb_info" where
  "scoutfs_filerw_free_alloc g z s =
     (case (if file_alloc_count s \<noteq> 0
            then scoutfs_buddy_free_extent g z s (file_alloc_blkno s) (file_alloc_count s)
            else (Inr (), s)) of
        (Inl h, s1) \<Rightarrow> (Inl h, s1)
      | (Inr u, s1) \<Rightarrow> (Inr (), s1\<lparr>file_alloc_blkno := 0, file_alloc_count := 0\<rparr>))"

section \<open>The b-tree of block map items\<close>

text \<open>
  Modelled from the spec: \<open>btree.c\<close> is not among the sources. Section 6 of the
  specification: keyed access to the mapping-item store; \<open>update\<close> creates a writable
  view of an existing item, \<open>insert\<close> creates a new item, \<open>delete\<close> removes one, and
  \<open>lookup\<close> reads one. A missing item is \<open>ENOENT\<close>, an item that is already there
  makes \<open>insert\<close> fail, and every operation fails with the error of \<open>btree_fault\<close>
  when that is set. Writes through the cursor of \<open>update\<close> or \<open>insert\<close> are
  \<open>btree_store\<close>. The key of the block map item of a logical block is the inode
  number and \<open>iblock >> SCOUTFS_BLOCK_MAP_SHIFT\<close> (\<open>set_bmap_key\<close>).
\<close>

definition set_bmap_key :: "geometry \<Rightarrow> nat \<Rightarrow> nat \<Rightarrow> nat \<times> nat" where
  "set_bmap_key g ino iblock = (ino, drop_bit (SCOUTFS_BLOCK_MAP_SHIFT g) iblock)"

definition scoutfs_btree_lookup :: "sb_info \<Rightarrow> nat \<times> nat \<Rightarrow> errno + (nat \<Rightarrow> nat)" where
  "scoutfs_btree_lookup s key =
     (case btree_fault s of
        Some e \<Rightarrow> Inl e
      | None \<Rightarrow> (case btree s key of None \<Rightarrow> Inl ENOENT | Some item \<Rightarrow> Inr item))"

definition scoutfs_btree_update :: "sb_info \<Rightarrow> nat \<times> nat \<Rightarrow> errno + (nat \<Rightarrow> nat)" where
  "scoutfs_btree_update s key =
     (case btree_fault s of
        Some e \<Rightarrow> Inl e
      | None \<Rightarrow> (case btree s key of None \<Rightarrow> Inl ENOENT | Some item \<Rightarrow> Inr item))"

definition scoutfs_btree_insert :: "sb_info \<Rightarrow> nat \<times> nat \<Rightarrow> (nat \<Rightarrow> nat) \<Rightarrow> errno + sb_info" where
  "scoutfs_btree_insert s key item =
     (case btree_fault s of
        Some e \<Rightarrow> Inl e
      | None \<Rightarrow>
          (case btree s key of
             Some old \<Rightarrow> Inl EEXIST
           | None \<Rightarrow> Inr (s\<lparr>btree := (btree s)(key \<mapsto> item)\<rparr>)))"

definition scoutfs_btree_delete :: "sb_info \<Rightarrow> nat \<times> nat \<Rightarrow> errno + sb_info" where
  "scoutfs_btree_delete s key =
     (case btree_fault s of
        Some e \<Rightarrow> Inl e
      | None \<Rightarrow>
          (case btree s key of
             None \<Rightarrow> Inl ENOENT
           | Some item \<Rightarrow> Inr (s\<lparr>btree := (btree s)(key := None)\<rparr>)))"

definition btree_store :: "sb_info \<Rightarrow> nat \<times> nat \<Rightarrow> (nat \<Rightarrow> nat) \<Rightarrow> sb_info" where
  "btree_store s key item = s\<lparr>btree := (btree s)(key \<mapsto> item)\<rparr>"

section \<open>Mapping file blocks (filerw.c)\<close>

text \<open>
  \<open>contig_mapped_blocks\<close>: the loop counts the entries from \<open>i\<close> on that are not zero.
\<close>

function contig_count :: "geometry \<Rightarrow> (nat \<Rightarrow> nat) \<Rightarrow> nat \<Rightarrow> nat" where
  "contig_count g item i =
     (if i < SCOUTFS_BLOCK_MAP_COUNT g \<and> item i \<noteq> 0 then Suc (contig_count g item (Suc i))
      else 0)"
  by pat_completeness auto
termination
  by (relation "measure (\<lambda>(g, item, i). SCOUTFS_BLOCK_MAP_COUNT g - i)") auto

declare contig_count.simps [simp del]

definition contig_mapped_blocks :: "geometry \<Rightarrow> sb_info \<Rightarrow> nat \<Rightarrow> nat \<Rightarrow> (errno + nat) \<times> nat" where
  "contig_mapped_blocks g s ino iblock =
     (case scoutfs_btree_lookup s (set_bmap_key g ino iblock) of
        Inr item \<Rightarrow>
          (Inr (contig_count g item (iblock AND SCOUTFS_BLOCK_MAP_MASK g)),
           item (iblock AND SCOUTFS_BLOCK_MAP_MASK g))
      | Inl e \<Rightarrow> (if e = ENOENT then Inr 0 else Inl e, 0))"

text \<open>
  The \<open>out:\<close> label of \<open>map_writable_block\<close> for a non-zero \<open>ret\<close>: give a new block
  back to the reservoir and delete an item this call inserted. The result is the
  error to return, or the \<open>BUG_ON\<close> that stopped the kernel.
\<close>

definition map_writable_block_out ::
  "sb_info \<Rightarrow> nat \<times> nat \<Rightarrow> errno \<Rightarrow> nat \<Rightarrow> bool \<Rightarrow> (halt + errno + nat) \<times> sb_info" where
  "map_writable_block_out s key ret new_blkno inserted =
     (case (if new_blkno \<noteq> 0 then return_file_block s new_blkno else Inr s) of
        Inl h \<Rightarrow> (Inl h, s)
      | Inr s1 \<Rightarrow>
          (if inserted then
             (case scoutfs_btree_delete s1 key of
                Inl err \<Rightarrow> (Inl (BUG_ON err), s1)
              | Inr s2 \<Rightarrow> (Inr (Inl ret), s2))
           else (Inr (Inl ret), s1)))"

text \<open>
  \<open>map_writable_block\<close> from the point where it holds a writable item: \<open>item\<close> is the
  item's array as the cursor shows it.
\<close>

definition map_writable_item ::
  "geometry \<Rightarrow> sb_info \<Rightarrow> nat \<times> nat \<Rightarrow> nat \<Rightarrow> (nat \<Rightarrow> nat) \<Rightarrow> bool \<Rightarrow>
     ((halt + errno + nat) \<times> sb_info) option" where
  "map_writable_item g s key iblock item inserted =
     (let i = iblock AND SCOUTFS_BLOCK_MAP_MASK g;
          old_blkno = item i;
          was = (if old_blkno \<noteq> 0 then scoutfs_buddy_was_free g s old_blkno 0 else Inr False)
      in case was of
           Inl e \<Rightarrow> Some (map_writable_block_out s key e 0 inserted)
         | Inr True \<Rightarrow> Some (Inr (Inr old_blkno), s)
         | Inr False \<Rightarrow>
             (case alloc_file_block g s of
                None \<Rightarrow> None
              | Some (Inl e, s1) \<Rightarrow> Some (map_writable_block_out s1 key e 0 inserted)
              | Some (Inr new_blkno, s1) \<Rightarrow>
                  (case (if old_blkno \<noteq> 0 then scoutfs_buddy_free g s1 old_blkno 0
                         else (Inr (), s1)) of
                     (Inl e, s2) \<Rightarrow> Some (map_writable_block_out s2 key e new_blkno inserted)
                   | (Inr u, s2) \<Rightarrow>
                       Some (Inr (Inr new_blkno),
                             btree_store s2 key (item(i := new_blkno))))))"

definition map_writable_block ::
  "geometry \<Rightarrow> sb_info \<Rightarrow> nat \<Rightarrow> nat \<Rightarrow> ((halt + errno + nat) \<times> sb_info) option" where
  "map_writable_block g s ino iblock =
     (let key = set_bmap_key g ino iblock in
      case scoutfs_btree_update s key of
        Inr item \<Rightarrow> map_writable_item g s key iblock item False
      | Inl e \<Rightarrow>
          if e \<noteq> ENOENT then Some (map_writable_block_out s key e 0 False)
          else
            (case scoutfs_btree_insert s key (\<lambda>_. 0) of
               Inl e' \<Rightarrow> Some (map_writable_block_out s key e' 0 False)
             | Inr s1 \<Rightarrow> map_writable_item g s1 key iblock (\<lambda>_. 0) True))"

section \<open>Rollback in map_writable_block\<close>

text \<open>
  \<open>keeps_maps s s'\<close>: \<open>s'\<close> differs from \<open>s\<close> at most in the dirty stores and in the
  reservoir; the b-tree, the supers and the stable stores are the same.
\<close>

definition keeps_maps :: "sb_info \<Rightarrow> sb_info \<Rightarrow> bool" where
  "keeps_maps s s' =
     (s' = s\<lparr>dirty_bm := dirty_bm s', dirty_ind := dirty_ind s', dirty_bud := dirty_bud s',
              file_alloc_blkno := file_alloc_blkno s', file_alloc_count := file_alloc_count s'\<rparr>)"

lemma keeps_maps_refl [simp]: "keeps_maps s s"
  by (simp add: keeps_maps_def)

lemma keeps_maps_trans: "keeps_maps s s1 \<Longrightarrow> keeps_maps s1 s2 \<Longrightarrow> keeps_maps s s2"
  unfolding keeps_maps_def
  by (cases s, cases s1, cases s2) simp

lemma dirty_only_keeps_maps: "dirty_only s s' \<Longrightarrow> keeps_maps s s'"
  unfolding keeps_maps_def dirty_only_def
  by (cases s, cases s') simp

lemma keeps_maps_fields:
  assumes "keeps_maps s s'"
  shows "super s' = super s" "stable_super s' = stable_super s"
    "stable_bm s' = stable_bm s" "stable_ind s' = stable_ind s" "stable_bud s' = stable_bud s"
    "btree s' = btree s" "btree_fault s' = btree_fault s"
  using assms unfolding keeps_maps_def
  by (cases s, cases s', simp)+

lemma keeps_maps_reservoir [simp]:
  "keeps_maps s (s\<lparr>file_alloc_blkno := b, file_alloc_count := c\<rparr>)"
  by (simp add: keeps_maps_def)

lemma file_alloc_take_keeps_maps: "file_alloc_take s = (r, s') \<Longrightarrow> keeps_maps s s'"
  by (auto simp: file_alloc_take_def split: if_splits)

lemma file_alloc_take_ok:
  "file_alloc_take s = (Inr b, s') \<Longrightarrow>
     b = file_alloc_blkno s \<and> file_alloc_count s \<noteq> 0 \<and>
     file_alloc_blkno s' = (b + 1) mod 2 ^ 64 \<and>
     file_alloc_count s' = (file_alloc_count s + 2 ^ 64 - 1) mod 2 ^ 64"
  by (auto simp: file_alloc_take_def split: if_splits)

lemma scoutfs_buddy_alloc_dirty_only:
  "scoutfs_buddy_alloc g s ord = Some (r, s') \<Longrightarrow> dirty_only s s'"
  by (simp add: scoutfs_buddy_alloc_def alloc_region_def buddy_alloc_dirty_only)

lemma alloc_file_block_keeps_maps:
  assumes "alloc_file_block g s = Some (r, s')"
  shows "keeps_maps s s'"
proof (cases "file_alloc_count s = 0")
  case False
  then show ?thesis using assms
    by (auto simp: alloc_file_block_def dest: file_alloc_take_keeps_maps)
next
  case True
  obtain ra s1 where ba:
    "scoutfs_buddy_alloc g s (int (SCOUTFS_BUDDY_ORDERS g) - 1) = Some (ra, s1)"
    using assms True by (auto simp: alloc_file_block_def split: option.splits)
  have k1: "keeps_maps s s1"
    using scoutfs_buddy_alloc_dirty_only[OF ba] by (rule dirty_only_keeps_maps)
  show ?thesis
  proof (cases ra)
    case (Inl e)
    then show ?thesis using assms True ba k1 by (simp add: alloc_file_block_def)
  next
    case (Inr p)
    obtain alloc_blkno ord where p: "p = (alloc_blkno, ord)" by (cases p) auto
    show ?thesis
    proof (cases "file_alloc_count s1 = 0")
      case c0: True
      have "keeps_maps s1 (s1\<lparr>file_alloc_blkno := alloc_blkno, file_alloc_count := 2 ^ ord\<rparr>)"
        by simp
      moreover have "keeps_maps (s1\<lparr>file_alloc_blkno := alloc_blkno, file_alloc_count := 2 ^ ord\<rparr>) s'"
        using assms True ba Inr p c0
        by (auto simp: alloc_file_block_def intro: file_alloc_take_keeps_maps)
      ultimately show ?thesis using k1 keeps_maps_trans by blast
    next
      case c1: False
      obtain rt s2 where ft: "file_alloc_take s1 = (rt, s2)" by (cases "file_alloc_take s1") auto
      have k2: "keeps_maps s1 s2" using ft by (rule file_alloc_take_keeps_maps)
      have "s' = s2 \<or> s' = snd (scoutfs_buddy_free g s2 alloc_blkno (int ord))"
        using assms True ba Inr p c1 ft by (auto simp: alloc_file_block_def split: if_splits)
      moreover have "keeps_maps s2 (snd (scoutfs_buddy_free g s2 alloc_blkno (int ord)))"
        by (metis dirty_only_keeps_maps scoutfs_buddy_free_dirty_only prod.collapse)
      ultimately have "keeps_maps s2 s'" by auto
      then show ?thesis using k1 k2 keeps_maps_trans by blast
    qed
  qed
qed

lemma alloc_file_block_ok:
  assumes "alloc_file_block g s = Some (Inr b, s')"
  shows "file_alloc_blkno s' = (b + 1) mod 2 ^ 64"
proof (cases "file_alloc_count s = 0")
  case False
  then show ?thesis using assms
    by (auto simp: alloc_file_block_def dest: file_alloc_take_ok)
next
  case True
  obtain ra s1 where ba:
    "scoutfs_buddy_alloc g s (int (SCOUTFS_BUDDY_ORDERS g) - 1) = Some (ra, s1)"
    using assms True by (auto simp: alloc_file_block_def split: option.splits)
  obtain alloc_blkno ord where ra: "ra = Inr (alloc_blkno, ord)"
    using assms True ba by (cases ra) (auto simp: alloc_file_block_def)
  show ?thesis
  proof (cases "file_alloc_count s1 = 0")
    case c0: True
    then show ?thesis using assms True ba ra
      by (auto simp: alloc_file_block_def dest: file_alloc_take_ok)
  next
    case c1: False
    obtain rt s2 where ft: "file_alloc_take s1 = (rt, s2)" by (cases "file_alloc_take s1") auto
    have rt: "rt = Inr b"
      using assms True ba ra c1 ft by (auto simp: alloc_file_block_def split: if_splits)
    have b2: "file_alloc_blkno s2 = (b + 1) mod 2 ^ 64"
      using file_alloc_take_ok[OF ft[unfolded rt]] by simp
    have "s' = s2 \<or> s' = snd (scoutfs_buddy_free g s2 alloc_blkno (int ord))"
      using assms True ba ra c1 ft by (auto simp: alloc_file_block_def split: if_splits)
    moreover have "file_alloc_blkno (snd (scoutfs_buddy_free g s2 alloc_blkno (int ord))) =
                   file_alloc_blkno s2"
      by (metis dirty_only_fields(6) scoutfs_buddy_free_dirty_only prod.collapse)
    ultimately show ?thesis using b2 by auto
  qed
qed

lemma dec_after_inc_mod:
  assumes "0 < (m::nat)"
  shows "((b + 1) mod m + m - 1) mod m = b mod m"
proof -
  have "(b + 1) mod m + m - 1 = (b + 1) mod m + (m - 1)" using assms by simp
  also have "\<dots> mod m = (b + 1 + (m - 1)) mod m" by (rule mod_add_left_eq)
  also have "b + 1 + (m - 1) = b + m" using assms by simp
  also have "(b + m) mod m = b mod m" by simp
  finally show ?thesis .
qed

lemma return_file_block_after_take:
  assumes "file_alloc_blkno s = (b + 1) mod 2 ^ 64"
  shows "return_file_block s b =
           Inr (s\<lparr>file_alloc_blkno := b mod 2 ^ 64,
                  file_alloc_count := (file_alloc_count s + 1) mod 2 ^ 64\<rparr>)"
proof -
  have wrap: "((b + 1) mod 2 ^ 64 + 2 ^ 64 - 1) mod 2 ^ 64 = b mod (2 ^ 64 :: nat)"
    by (rule dec_after_inc_mod) simp
  have "return_file_block s b =
      Inr (s\<lparr>file_alloc_blkno := ((b + 1) mod 2 ^ 64 + 2 ^ 64 - 1) mod 2 ^ 64,
             file_alloc_count := (file_alloc_count s + 1) mod 2 ^ 64\<rparr>)"
    unfolding return_file_block_def using assms by (simp del: One_nat_def)
  then show ?thesis unfolding wrap .
qed

lemma map_writable_block_out_plain:
  "map_writable_block_out s key e 0 False = (Inr (Inl e), s)"
  by (simp add: map_writable_block_out_def)

text \<open>
  From the writable item on: a failure leaves the b-tree as it was before the item
  was obtained (\<open>bt\<close>), and puts a block that was taken from the reservoir back.
\<close>

lemma map_writable_item_failure:
  assumes run: "map_writable_item g s key iblock item inserted = Some (r, s')"
      and fail: "\<forall>b. r \<noteq> Inr (Inr b)"
      and ins: "if inserted then bt key = None \<and> btree s = bt(key \<mapsto> item) \<and>
                     item = (\<lambda>_. 0) \<and> btree_fault s = None
                else btree s = bt"
  shows "(\<exists>e. r = Inr (Inl e)) \<and> btree s' = bt \<and>
         (\<forall>new_blkno s1. \<not> inserted \<and> alloc_file_block g s = Some (Inr new_blkno, s1) \<and>
            new_blkno \<noteq> 0 \<and>
            (item (iblock AND SCOUTFS_BLOCK_MAP_MASK g) = 0 \<or>
             scoutfs_buddy_was_free g s (item (iblock AND SCOUTFS_BLOCK_MAP_MASK g)) 0 = Inr False)
            \<longrightarrow> file_alloc_blkno s' = new_blkno mod 2 ^ 64 \<and>
                file_alloc_count s' = (file_alloc_count s1 + 1) mod 2 ^ 64)"
proof -
  define i where "i = iblock AND SCOUTFS_BLOCK_MAP_MASK g"
  define old_blkno where "old_blkno = item i"
  define was where "was = (if old_blkno \<noteq> 0 then scoutfs_buddy_was_free g s old_blkno 0
                           else Inr False)"
  have unfold: "map_writable_item g s key iblock item inserted =
     (case was of
        Inl e \<Rightarrow> Some (map_writable_block_out s key e 0 inserted)
      | Inr True \<Rightarrow> Some (Inr (Inr old_blkno), s)
      | Inr False \<Rightarrow>
          (case alloc_file_block g s of
             None \<Rightarrow> None
           | Some (Inl e, s1) \<Rightarrow> Some (map_writable_block_out s1 key e 0 inserted)
           | Some (Inr new_blkno, s1) \<Rightarrow>
               (case (if old_blkno \<noteq> 0 then scoutfs_buddy_free g s1 old_blkno 0
                      else (Inr (), s1)) of
                  (Inl e, s2) \<Rightarrow> Some (map_writable_block_out s2 key e new_blkno inserted)
                | (Inr u, s2) \<Rightarrow>
                    Some (Inr (Inr new_blkno), btree_store s2 key (item(i := new_blkno))))))"
    unfolding map_writable_item_def Let_def was_def old_blkno_def i_def ..
  text \<open>the rollback without a block to give back\<close>
  have out0: "(\<exists>e. r = Inr (Inl e)) \<and> btree s' = bt"
    if out: "map_writable_block_out sx key e 0 inserted = (r, s')" and k: "keeps_maps s sx"
    for sx e
  proof (cases inserted)
    case False
    then show ?thesis using out ins keeps_maps_fields[OF k]
      by (auto simp: map_writable_block_out_def)
  next
    case True
    then have bt: "bt key = None" "btree sx = bt(key \<mapsto> item)" "btree_fault sx = None"
      using ins keeps_maps_fields[OF k] by auto
    have "scoutfs_btree_delete sx key = Inr (sx\<lparr>btree := (btree sx)(key := None)\<rparr>)"
      using bt by (simp add: scoutfs_btree_delete_def)
    moreover have "(btree sx)(key := None) = bt" using bt by auto
    ultimately show ?thesis using out True by (auto simp: map_writable_block_out_def)
  qed
  show ?thesis
  proof (cases was)
    case (Inl e)
    then have "map_writable_block_out s key e 0 inserted = (r, s')"
      using run unfolding unfold by simp
    from out0[OF this keeps_maps_refl] Inl show ?thesis
      unfolding was_def old_blkno_def i_def by (auto split: if_splits)
  next
    case (Inr free)
    then have nfree: "\<not> free" using run fail unfolding unfold by (cases free) auto
    obtain ra s1 where al: "alloc_file_block g s = Some (ra, s1)"
      using run Inr nfree unfolding unfold by (auto split: option.splits)
    have k1: "keeps_maps s s1" using al by (rule alloc_file_block_keeps_maps)
    show ?thesis
    proof (cases ra)
      case (Inl e)
      then have "map_writable_block_out s1 key e 0 inserted = (r, s')"
        using run Inr nfree al unfolding unfold by simp
      from out0[OF this k1] Inl al show ?thesis by auto
    next
      case new: (Inr new_blkno)
      obtain rf s2 where fr: "(if old_blkno \<noteq> 0 then scoutfs_buddy_free g s1 old_blkno 0
                      else (Inr (), s1)) = (rf, s2)"
        by (cases "if old_blkno \<noteq> 0 then scoutfs_buddy_free g s1 old_blkno 0
                   else (Inr (), s1)") auto
      obtain e where rf: "rf = Inl e"
        using run fail Inr nfree al new fr unfolding unfold by (cases rf) auto
      have old: "old_blkno \<noteq> 0" using fr rf by (auto split: if_splits)
      then have "scoutfs_buddy_free g s1 old_blkno 0 = (Inl e, s2)" using fr rf by simp
      then have d2: "dirty_only s1 s2" by (rule scoutfs_buddy_free_dirty_only)
      have nins: "\<not> inserted" using ins old unfolding old_blkno_def by (auto split: if_splits)
      have out: "map_writable_block_out s2 key e new_blkno False = (r, s')"
        using run Inr nfree al new fr rf nins unfolding unfold by simp
      have b2: "file_alloc_blkno s2 = (new_blkno + 1) mod 2 ^ 64"
        using alloc_file_block_ok[OF al[unfolded new]] dirty_only_fields(6)[OF d2] by simp
      have c2: "file_alloc_count s2 = file_alloc_count s1"
        using dirty_only_fields(7)[OF d2] by simp
      have bt2: "btree s2 = bt"
        using ins nins keeps_maps_fields(6)[OF k1] dirty_only_fields(8)[OF d2] by simp
      show ?thesis
      proof (cases "new_blkno = 0")
        case True
        then show ?thesis using out bt2 al new
          by (auto simp: map_writable_block_out_def)
      next
        case False
        then show ?thesis
          using out bt2 al new c2 return_file_block_after_take[OF b2]
          by (auto simp: map_writable_block_out_def)
      qed
    qed
  qed
qed

text \<open>
  C8. When \<open>map_writable_block\<close> does not return a block, it returns the error (it
  does not stop on a \<open>BUG_ON\<close>) and the block map items are exactly those from before
  the call: nothing was stored in the item, and an item that this call inserted has
  been deleted again. If the call held an existing item and had taken a new block
  from the reservoir (the old block, if any, was not free in the stable view), that
  block is the head of the reservoir again, whose count is one more than after the
  take.
\<close>

theorem map_writable_block_rolls_back:
  assumes run: "map_writable_block g s ino iblock = Some (r, s')"
      and fail: "\<forall>b. r \<noteq> Inr (Inr b)"
  shows "(\<exists>e. r = Inr (Inl e)) \<and> btree s' = btree s \<and>
         (\<forall>item new_blkno s1.
            scoutfs_btree_update s (set_bmap_key g ino iblock) = Inr item \<and>
            alloc_file_block g s = Some (Inr new_blkno, s1) \<and> new_blkno \<noteq> 0 \<and>
            (item (iblock AND SCOUTFS_BLOCK_MAP_MASK g) = 0 \<or>
             scoutfs_buddy_was_free g s (item (iblock AND SCOUTFS_BLOCK_MAP_MASK g)) 0 =
               Inr False)
            \<longrightarrow> file_alloc_blkno s' = new_blkno mod 2 ^ 64 \<and>
                file_alloc_count s' = (file_alloc_count s1 + 1) mod 2 ^ 64)"
proof -
  define key where "key = set_bmap_key g ino iblock"
  show ?thesis
  proof (cases "scoutfs_btree_update s key")
    case (Inr item)
    then have "map_writable_item g s key iblock item False = Some (r, s')"
      using run by (simp add: map_writable_block_def key_def)
    from map_writable_item_failure[OF this fail, of "btree s"] Inr
    show ?thesis unfolding key_def by auto
  next
    case (Inl e)
    show ?thesis
    proof (cases "e = ENOENT")
      case False
      then have "(r, s') = (Inr (Inl e), s)"
        using run Inl by (simp add: map_writable_block_def key_def map_writable_block_out_plain)
      then show ?thesis using Inl unfolding key_def by auto
    next
      case True
      show ?thesis
      proof (cases "scoutfs_btree_insert s key (\<lambda>_. 0)")
        case ins: (Inl e')
        then have "(r, s') = (Inr (Inl e'), s)"
          using run Inl True
          by (simp add: map_writable_block_def key_def map_writable_block_out_plain)
        then show ?thesis using Inl unfolding key_def by auto
      next
        case ins: (Inr s1)
        then have s1: "btree_fault s = None" "btree s key = None"
            "s1 = s\<lparr>btree := (btree s)(key \<mapsto> (\<lambda>_. 0))\<rparr>"
          by (auto simp: scoutfs_btree_insert_def split: option.splits)
        have "map_writable_item g s1 key iblock (\<lambda>_. 0) True = Some (r, s')"
          using run Inl True ins by (simp add: map_writable_block_def key_def)
        from map_writable_item_failure[OF this fail, of "btree s"] s1 Inl
        show ?thesis unfolding key_def by auto
      qed
    qed
  qed
qed

text \<open>
  In \<open>sb_stuck\<close> block 0 of inode 5 is mapped to block 12, which the stable view has
  allocated, and block 9 waits in the reservoir; the dirty buddy block of slot 1 is
  missing, so freeing block 12 fails with \<open>EIO\<close> after block 9 was taken. In
  \<open>sb_full\<close> nothing is mapped and nothing is free: the item is inserted, the
  allocation fails with \<open>ENOSPC\<close> and the item is deleted.
\<close>

definition ind_stuck :: buddy_indirect where
  "ind_stuck = ind_small (slot_small 5 0) (slot_small 6 0) (\<lambda>_. 0)"

definition sb_stuck :: sb_info where
  "sb_stuck =
     (sb_views ind_stuck [5 \<mapsto> bud_full] ind_stuck [5 \<mapsto> bud_full, 6 \<mapsto> bud_small 6 {} (\<lambda>_. 0)])
       \<lparr>file_alloc_blkno := 9, file_alloc_count := 1,
        btree := [(5, 0) \<mapsto> (\<lambda>_. 0)(0 := 12)]\<rparr>"

theorem map_writable_block_rolls_back_witness:
  "map_option fst (map_writable_block g_small sb_stuck 5 0) = Some (Inr (Inl EIO)) \<and>
   btree (snd (the (map_writable_block g_small sb_stuck 5 0))) = btree sb_stuck \<and>
   file_alloc_blkno (snd (the (map_writable_block g_small sb_stuck 5 0))) = 9 \<and>
   file_alloc_count (snd (the (map_writable_block g_small sb_stuck 5 0))) = 1 \<and>
   map_option fst (map_writable_block g_small sb_full 5 0) = Some (Inr (Inl ENOSPC)) \<and>
   btree (snd (the (map_writable_block g_small sb_full 5 0))) = btree sb_full"
proof -
  have r1: "map_option fst (map_writable_block g_small sb_stuck 5 0) = Some (Inr (Inl EIO))"
    by code_simp
  then have run1: "map_writable_block g_small sb_stuck 5 0 =
      Some (Inr (Inl EIO), snd (the (map_writable_block g_small sb_stuck 5 0)))"
    by (rule option_fst_result)
  have upd: "scoutfs_btree_update sb_stuck (set_bmap_key g_small 5 0) = Inr ((\<lambda>_. 0)(0 := 12))"
    by (simp add: scoutfs_btree_update_def set_bmap_key_def sb_stuck_def sb_views_def
                  sb_empty_def g_small_def)
  have "map_option fst (alloc_file_block g_small sb_stuck) = Some (Inr 9)"
    by code_simp
  then have al: "alloc_file_block g_small sb_stuck =
      Some (Inr 9, snd (the (alloc_file_block g_small sb_stuck)))"
    by (rule option_fst_result)
  have cnt: "file_alloc_count (snd (the (alloc_file_block g_small sb_stuck))) = 0"
    by code_simp
  have was: "scoutfs_buddy_was_free g_small sb_stuck
      (((\<lambda>_. 0)(0 := 12)) (0 AND SCOUTFS_BLOCK_MAP_MASK g_small)) 0 = Inr False"
    by code_simp
  have r2: "map_option fst (map_writable_block g_small sb_full 5 0) = Some (Inr (Inl ENOSPC))"
    by code_simp
  then have run2: "map_writable_block g_small sb_full 5 0 =
      Some (Inr (Inl ENOSPC), snd (the (map_writable_block g_small sb_full 5 0)))"
    by (rule option_fst_result)
  have first: "btree (snd (the (map_writable_block g_small sb_stuck 5 0))) = btree sb_stuck \<and>
      file_alloc_blkno (snd (the (map_writable_block g_small sb_stuck 5 0))) = 9 mod 2 ^ 64 \<and>
      file_alloc_count (snd (the (map_writable_block g_small sb_stuck 5 0))) =
        (file_alloc_count (snd (the (alloc_file_block g_small sb_stuck))) + 1) mod 2 ^ 64"
  proof -
    have nf: "\<forall>b. (Inr (Inl EIO) :: halt + errno + nat) \<noteq> Inr (Inr b)" by simp
    note rb = map_writable_block_rolls_back[OF run1 nf]
    have nz: "(9::nat) \<noteq> 0" by simp
    from rb have bt: "btree (snd (the (map_writable_block g_small sb_stuck 5 0))) = btree sb_stuck"
      by (elim conjE)
    from rb have "file_alloc_blkno (snd (the (map_writable_block g_small sb_stuck 5 0))) =
        9 mod 2 ^ 64 \<and>
      file_alloc_count (snd (the (map_writable_block g_small sb_stuck 5 0))) =
        (file_alloc_count (snd (the (alloc_file_block g_small sb_stuck))) + 1) mod 2 ^ 64"
      using upd al was nz by blast
    with bt show ?thesis by (rule conjI)
  qed
  have second: "btree (snd (the (map_writable_block g_small sb_full 5 0))) = btree sb_full"
  proof -
    have nf: "\<forall>b. (Inr (Inl ENOSPC) :: halt + errno + nat) \<noteq> Inr (Inr b)" by simp
    from map_writable_block_rolls_back[OF run2 nf] show ?thesis by (elim conjE)
  qed
  show ?thesis using r1 r2 first second cnt by simp
qed

section \<open>A fresh allocation is free in the stable view\<close>

text \<open>
  \<open>geometry_fits g sb\<close>: the sizes of the order bitmaps are exact (the order-0 bit
  count is a multiple of the size of the highest order's extents), block numbers
  of the buddy region are not zero, and all of them fit the 32 bits that
  \<open>indirect_slot\<close> and \<open>buddy_bit\<close> keep.
\<close>

definition geometry_fits :: "geometry \<Rightarrow> super_block \<Rightarrow> bool" where
  "geometry_fits g sb =
     (0 < SCOUTFS_BUDDY_ORDERS g \<and>
      2 ^ (SCOUTFS_BUDDY_ORDERS g - 1) dvd SCOUTFS_BUDDY_ORDER0_BITS g \<and>
      0 < first_blkno g sb \<and>
      first_blkno g sb + SCOUTFS_BUDDY_SLOTS g * SCOUTFS_BUDDY_ORDER0_BITS g \<le> 2 ^ 32)"

lemma order_size:
  assumes "2 ^ (SCOUTFS_BUDDY_ORDERS g - 1) dvd SCOUTFS_BUDDY_ORDER0_BITS g"
      and "k < SCOUTFS_BUDDY_ORDERS g"
  shows "order_off g (Suc k) = order_off g k + SCOUTFS_BUDDY_ORDER0_BITS g div 2 ^ k"
proof -
  define n where "n = SCOUTFS_BUDDY_ORDER0_BITS g"
  have dv: "2 ^ k dvd n"
  proof -
    have "(2::nat) ^ k dvd 2 ^ (SCOUTFS_BUDDY_ORDERS g - 1)"
      using assms(2) by (intro le_imp_power_dvd) simp
    then show ?thesis using assms(1) unfolding n_def by (rule dvd_trans)
  qed
  show ?thesis
  proof (cases k)
    case 0
    then show ?thesis by (simp add: order_off_def)
  next
    case (Suc j)
    have "n div 2 ^ j = 2 * (n div 2 ^ Suc j)"
    proof -
      from dv obtain q where q: "n = 2 ^ Suc j * q" unfolding Suc by (auto elim: dvdE)
      then have "n div 2 ^ j = 2 * q" by simp
      moreover have "n div 2 ^ Suc j = q" using q by simp
      ultimately show ?thesis by simp
    qed
    moreover have "n div 2 ^ j \<le> n" by (rule div_le_dividend)
    ultimately show ?thesis
      unfolding Suc order_off_def n_def[symmetric] by simp
  qed
qed

lemma order_nr_in_slot:
  assumes "2 ^ (SCOUTFS_BUDDY_ORDERS g - 1) dvd SCOUTFS_BUDDY_ORDER0_BITS g"
      and "k < SCOUTFS_BUDDY_ORDERS g"
      and "order_nr g k nr < order_off g (Suc k)"
  shows "push_bit k nr + 2 ^ k \<le> SCOUTFS_BUDDY_ORDER0_BITS g"
proof -
  define n where "n = SCOUTFS_BUDDY_ORDER0_BITS g"
  have dv: "2 ^ k dvd n"
  proof -
    have "(2::nat) ^ k dvd 2 ^ (SCOUTFS_BUDDY_ORDERS g - 1)"
      using assms(2) by (intro le_imp_power_dvd) simp
    then show ?thesis using assms(1) unfolding n_def by (rule dvd_trans)
  qed
  have "nr < n div 2 ^ k"
    using assms(3) order_size[OF assms(1,2)] by (simp add: order_nr_def n_def)
  then have "Suc nr \<le> n div 2 ^ k" by simp
  then have "Suc nr * 2 ^ k \<le> (n div 2 ^ k) * 2 ^ k" by (rule mult_le_mono1)
  also have "\<dots> = n" using dv by simp
  finally show ?thesis by (simp add: push_bit_eq_mult n_def)
qed

lemma test_buddy_bit_or_higher_iff:
  "test_buddy_bit_or_higher g bud i n \<longleftrightarrow>
     (\<exists>j. i \<le> j \<and> j < SCOUTFS_BUDDY_ORDERS g \<and> test_buddy_bit g bud j (drop_bit (j - i) n))"
proof
  assume "\<exists>j. i \<le> j \<and> j < SCOUTFS_BUDDY_ORDERS g \<and> test_buddy_bit g bud j (drop_bit (j - i) n)"
  then show "test_buddy_bit_or_higher g bud i n"
    using test_buddy_bit_or_higher_above by blast
next
  assume "test_buddy_bit_or_higher g bud i n"
  then show "\<exists>j. i \<le> j \<and> j < SCOUTFS_BUDDY_ORDERS g \<and>
                 test_buddy_bit g bud j (drop_bit (j - i) n)"
  proof (induction g bud i n rule: test_buddy_bit_or_higher.induct)
    case (1 g bud i nr)
    have lt: "i < SCOUTFS_BUDDY_ORDERS g"
      using "1.prems" by (subst (asm) test_buddy_bit_or_higher.simps) (simp split: if_splits)
    show ?case
    proof (cases "test_buddy_bit g bud i nr")
      case True
      then show ?thesis using lt by (intro exI[of _ i]) simp
    next
      case False
      then have "test_buddy_bit_or_higher g bud (Suc i) (drop_bit 1 nr)"
        using "1.prems" lt by (subst (asm) test_buddy_bit_or_higher.simps) simp
      from "1.IH"[OF lt False this] obtain j where
        j: "Suc i \<le> j" "j < SCOUTFS_BUDDY_ORDERS g"
           "test_buddy_bit g bud j (drop_bit (j - Suc i) (drop_bit 1 nr))"
        by blast
      have "i < j" using j(1) by simp
      then have "test_buddy_bit g bud j (drop_bit (j - i) nr)"
        using j(3) by (simp only: drop_bit_step)
      then show ?thesis using j(1,2) by (intro exI[of _ j]) simp
    qed
  qed
qed

lemma test_buddy_bit_or_higher_first_block:
  assumes "test_buddy_bit_or_higher g bud k nr"
  shows "test_buddy_bit_or_higher g bud 0 (push_bit k nr)"
proof -
  from assms obtain j where
    j: "k \<le> j" "j < SCOUTFS_BUDDY_ORDERS g" "test_buddy_bit g bud j (drop_bit (j - k) nr)"
    unfolding test_buddy_bit_or_higher_iff by blast
  have "drop_bit (j - 0) (push_bit k nr) = drop_bit (j - k) nr"
    using j(1) by (simp add: drop_bit_push_bit)
  then show ?thesis
    using j unfolding test_buddy_bit_or_higher_iff[of g bud 0] by (intro exI[of _ j]) simp
qed

lemma slot_fit_was_free:
  assumes geo: "geometry_fits g (super s)"
      and same: "buddy_blocks (stable_super s) = buddy_blocks (super s)"
      and refs: "ref_blkno (buddy_bm_ref (super s)) \<noteq> 0"
                "ref_blkno (buddy_bm_ref (stable_super s)) \<noteq> 0"
      and st_ind: "stable_ind s (ref_blkno (buddy_ind_ref (stable_super s))) = Some st_ind"
      and sl: "sl < SCOUTFS_BUDDY_SLOTS g"
      and view: "super s0 = super s" "stable_bud s0 = stable_bud s"
      and fit: "slot_fit g s0 ind0 sl (slot_ref (slots st_ind sl)) ord blkno"
  shows "scoutfs_buddy_was_free g s blkno 0 = Inr True \<and> blkno \<noteq> 0"
proof -
  define n where "n = SCOUTFS_BUDDY_ORDER0_BITS g"
  define first where "first = first_blkno g (super s)"
  from fit obtain st found nr where
    f: "ref_blkno (slot_ref (slots st_ind sl)) \<noteq> 0"
       "stable_bud s (ref_blkno (slot_ref (slots st_ind sl))) = Some st"
       "found < SCOUTFS_BUDDY_ORDERS g"
       "order_nr g found nr < order_off g (Suc found)"
       "test_buddy_bit_or_higher g st found nr"
       "blkno = slot_buddy_blkno g (super s) sl found nr"
    unfolding slot_fit_def view by blast
  have g1: "2 ^ (SCOUTFS_BUDDY_ORDERS g - 1) dvd n" "0 < first"
       "first + SCOUTFS_BUDDY_SLOTS g * n \<le> 2 ^ 32"
    using geo unfolding geometry_fits_def n_def first_def by auto
  define x where "x = push_bit found nr"
  have "x + 2 ^ found \<le> n"
    using order_nr_in_slot[OF g1(1)[unfolded n_def] f(3,4)] unfolding x_def n_def .
  then have xn: "x < n" by (metis add_lessD1 less_add_same_cancel1 order_less_le_trans zero_less_numeral zero_less_power)
  have "Suc sl * n \<le> SCOUTFS_BUDDY_SLOTS g * n" using sl by (intro mult_le_mono1) simp
  then have bound: "first + sl * n + x < 2 ^ 32" using xn g1(3) by simp
  then have b64: "first + sl * n + x < 2 ^ 64"
    by (rule less_le_trans) simp
  have blk: "blkno = first + sl * n + x"
    using f(6) b64 by (simp add: slot_buddy_blkno_def first_def n_def x_def)
  have first': "first_blkno g (stable_super s) = first"
    using same by (simp add: first_blkno_def first_def)
  have diff: "int blkno - int first = int (sl * n + x)" using blk by simp
  have red: "int (sl * n + x) mod 2 ^ 32 = int (sl * n + x)"
  proof -
    have "sl * n + x < 2 ^ 32" using bound by simp
    then have "int (sl * n + x) < int (2 ^ 32)" by (simp only: of_nat_less_iff)
    then have "int (sl * n + x) < 2 ^ 32" by simp
    then show ?thesis by (intro mod_pos_pos_trivial) simp_all
  qed
  have off: "blkno_offset_u32 g (stable_super s) blkno = sl * n + x"
    unfolding blkno_offset_u32_def first' diff red by (rule nat_int)
  have slot: "indirect_slot g (stable_super s) blkno = sl"
    using off xn by (simp add: indirect_slot_def n_def[symmetric])
  have bit: "buddy_bit g (stable_super s) blkno = x"
    using off xn by (simp add: buddy_bit_def n_def[symmetric])
  have "test_buddy_bit_or_higher g st 0 x"
    unfolding x_def using f(5) by (rule test_buddy_bit_or_higher_first_block)
  then have "scoutfs_buddy_was_free g s blkno 0 = Inr True"
    using refs st_ind f(1,2) slot bit
    by (simp add: scoutfs_buddy_was_free_def scoutfs_block_read_ref_def Let_def)
  moreover have "blkno \<noteq> 0" using blk g1(2) by simp
  ultimately show ?thesis by simp
qed

lemma buddy_alloc_slot_fit:
  assumes "buddy_alloc g s req = Some (Inr (blkno, granted), s')"
  shows "\<exists>s0 ind0 st_ind slot.
           dirty_only s s0 \<and> slot < SCOUTFS_BUDDY_SLOTS g \<and>
           stable_ind s (ref_blkno (buddy_ind_ref (stable_super s))) = Some st_ind \<and>
           slot_fit g s0 ind0 slot (slot_ref (slots st_ind slot)) granted blkno"
proof -
  have "buddy_alloc_orders g s (nat req) = Some (Inr (blkno, granted), s')"
    using assms by (auto simp: buddy_alloc_def split: if_splits)
  from buddy_alloc_orders_success[OF this] obtain sa where
    retries: "order_retries g s (nat req) granted = Some sa" and
    ao: "alloc_order g sa granted = Some (Inr blkno, s')" by blast
  have fr: "dirty_only s sa" using retries by (rule order_retries_dirty_only)
  from alloc_order_success[OF ao] obtain s0 ind0 st_ind slot where
    fit: "dirty_only sa s0" "slot < SCOUTFS_BUDDY_SLOTS g"
      "stable_ind sa (ref_blkno (buddy_ind_ref (stable_super sa))) = Some st_ind"
      "slot_fit g s0 ind0 slot (slot_ref (slots st_ind slot)) granted blkno"
    by blast
  have "dirty_only s s0" using fr fit(1) by (rule dirty_only_trans)
  then show ?thesis using fit dirty_only_fields[OF fr] by auto
qed

lemma buddy_alloc_was_free:
  assumes geo: "geometry_fits g (super s)"
      and same: "buddy_blocks (stable_super s) = buddy_blocks (super s)"
      and refs: "ref_blkno (buddy_bm_ref (super s)) \<noteq> 0"
                "ref_blkno (buddy_bm_ref (stable_super s)) \<noteq> 0"
      and ok: "buddy_alloc g s req = Some (Inr (blkno, granted), s')"
  shows "scoutfs_buddy_was_free g s blkno 0 = Inr True \<and> blkno \<noteq> 0"
proof -
  from buddy_alloc_slot_fit[OF ok] obtain s0 ind0 st_ind slot where
    a: "dirty_only s s0" "slot < SCOUTFS_BUDDY_SLOTS g"
       "stable_ind s (ref_blkno (buddy_ind_ref (stable_super s))) = Some st_ind"
       "slot_fit g s0 ind0 slot (slot_ref (slots st_ind slot)) granted blkno"
    by blast
  show ?thesis
    using slot_fit_was_free[OF geo same refs a(3) a(2) _ _ a(4)] dirty_only_fields[OF a(1)]
    by simp
qed

section \<open>Reuse of a block allocated in the same transaction\<close>

lemma scoutfs_buddy_was_free_same_view:
  assumes "(ref_blkno (buddy_bm_ref (super s')) = 0) = (ref_blkno (buddy_bm_ref (super s)) = 0)"
      and "stable_super s' = stable_super s" "stable_ind s' = stable_ind s"
      and "stable_bud s' = stable_bud s"
  shows "scoutfs_buddy_was_free g s' blkno ord = scoutfs_buddy_was_free g s blkno ord"
  unfolding scoutfs_buddy_was_free_def assms(2-4) using assms(1) by simp

lemma alloc_file_block_source:
  assumes "alloc_file_block g s = Some (Inr b, s1)"
  shows "(file_alloc_count s \<noteq> 0 \<and> b = file_alloc_blkno s) \<or>
         (file_alloc_count s = 0 \<and>
          (\<exists>granted s'. buddy_alloc g s (int (SCOUTFS_BUDDY_ORDERS g) - 1) =
                           Some (Inr (b, granted), s')))"
proof (cases "file_alloc_count s = 0")
  case False
  then show ?thesis using assms
    by (auto simp: alloc_file_block_def dest: file_alloc_take_ok)
next
  case True
  obtain ra sa where ba:
    "buddy_alloc g s (int (SCOUTFS_BUDDY_ORDERS g) - 1) = Some (ra, sa)"
    using assms True
    by (auto simp: alloc_file_block_def scoutfs_buddy_alloc_def alloc_region_def
             split: option.splits)
  obtain alloc_blkno ord where ra: "ra = Inr (alloc_blkno, ord)"
    using assms True ba
    by (cases ra) (auto simp: alloc_file_block_def scoutfs_buddy_alloc_def alloc_region_def)
  have "file_alloc_count sa = 0"
    using dirty_only_fields(7)[OF buddy_alloc_dirty_only[OF ba]] True by simp
  then have "file_alloc_take (sa\<lparr>file_alloc_blkno := alloc_blkno, file_alloc_count := 2 ^ ord\<rparr>) =
             (Inr b, s1)"
    using assms True ba ra
    by (simp add: alloc_file_block_def scoutfs_buddy_alloc_def alloc_region_def)
  then have "b = alloc_blkno" by (auto dest: file_alloc_take_ok)
  then show ?thesis using True ba ra by auto
qed

text \<open>
  \<open>same_stable_view s s'\<close>: the two states have the same stable super and stable
  stores, and the dirty super is the same.
\<close>

definition same_stable_view :: "sb_info \<Rightarrow> sb_info \<Rightarrow> bool" where
  "same_stable_view s s' =
     (super s' = super s \<and> stable_super s' = stable_super s \<and>
      stable_ind s' = stable_ind s \<and> stable_bud s' = stable_bud s)"

lemma keeps_maps_same_stable_view: "keeps_maps s s' \<Longrightarrow> same_stable_view s s'"
  by (simp add: same_stable_view_def keeps_maps_fields)

lemma same_stable_view_trans:
  "same_stable_view s s1 \<Longrightarrow> same_stable_view s1 s2 \<Longrightarrow> same_stable_view s s2"
  by (simp add: same_stable_view_def)

lemma same_stable_view_btree [simp]: "same_stable_view s (s\<lparr>btree := m\<rparr>)"
  by (simp add: same_stable_view_def)

text \<open>
  What a successful call leaves: the item holds the returned block, which is not
  block 0 and was free in the stable view.
\<close>

lemma map_writable_item_success:
  assumes run: "map_writable_item g s key iblock item inserted = Some (Inr (Inr b), s1)"
      and item: "btree s key = Some item"
      and geo: "geometry_fits g (super s)"
      and same: "buddy_blocks (stable_super s) = buddy_blocks (super s)"
      and refs: "ref_blkno (buddy_bm_ref (super s)) \<noteq> 0"
                "ref_blkno (buddy_bm_ref (stable_super s)) \<noteq> 0"
      and reservoir: "file_alloc_count s \<noteq> 0 \<longrightarrow> file_alloc_blkno s \<noteq> 0 \<and>
                        scoutfs_buddy_was_free g s (file_alloc_blkno s) 0 = Inr True"
  shows "same_stable_view s s1 \<and> btree_fault s1 = btree_fault s \<and>
         (\<exists>item1. btree s1 key = Some item1 \<and>
                   item1 (iblock AND SCOUTFS_BLOCK_MAP_MASK g) = b) \<and>
         b \<noteq> 0 \<and> scoutfs_buddy_was_free g s b 0 = Inr True"
proof -
  define i where "i = iblock AND SCOUTFS_BLOCK_MAP_MASK g"
  define old_blkno where "old_blkno = item i"
  define was where "was = (if old_blkno \<noteq> 0 then scoutfs_buddy_was_free g s old_blkno 0
                           else Inr False)"
  have unfold: "map_writable_item g s key iblock item inserted =
     (case was of
        Inl e \<Rightarrow> Some (map_writable_block_out s key e 0 inserted)
      | Inr True \<Rightarrow> Some (Inr (Inr old_blkno), s)
      | Inr False \<Rightarrow>
          (case alloc_file_block g s of
             None \<Rightarrow> None
           | Some (Inl e, s1) \<Rightarrow> Some (map_writable_block_out s1 key e 0 inserted)
           | Some (Inr new_blkno, s1) \<Rightarrow>
               (case (if old_blkno \<noteq> 0 then scoutfs_buddy_free g s1 old_blkno 0
                      else (Inr (), s1)) of
                  (Inl e, s2) \<Rightarrow> Some (map_writable_block_out s2 key e new_blkno inserted)
                | (Inr u, s2) \<Rightarrow>
                    Some (Inr (Inr new_blkno), btree_store s2 key (item(i := new_blkno))))))"
    unfolding map_writable_item_def Let_def was_def old_blkno_def i_def ..
  have no_out: "map_writable_block_out sx key e nb ins \<noteq> (Inr (Inr b), s1)" for sx e nb ins
    by (auto simp: map_writable_block_out_def split: sum.splits if_splits)
  show ?thesis
  proof (cases was)
    case (Inl e)
    then show ?thesis using run no_out unfolding unfold by simp
  next
    case (Inr free)
    show ?thesis
    proof (cases free)
      case True
      then have "b = old_blkno" "s1 = s" using run Inr unfolding unfold by auto
      moreover have "old_blkno \<noteq> 0 \<and> scoutfs_buddy_was_free g s old_blkno 0 = Inr True"
        using Inr True unfolding was_def by (auto split: if_splits)
      ultimately show ?thesis
        using item unfolding old_blkno_def i_def by (simp add: same_stable_view_def)
    next
      case False
      obtain ra s2 where al: "alloc_file_block g s = Some (ra, s2)"
        using run Inr False unfolding unfold by (auto split: option.splits)
      obtain nb where ra: "ra = Inr nb"
        using run Inr False al no_out unfolding unfold by (cases ra) auto
      obtain rf s3 where fr: "(if old_blkno \<noteq> 0 then scoutfs_buddy_free g s2 old_blkno 0
                      else (Inr (), s2)) = (rf, s3)"
        by (cases "if old_blkno \<noteq> 0 then scoutfs_buddy_free g s2 old_blkno 0
                   else (Inr (), s2)") auto
      obtain u where rf: "rf = Inr u"
        using run Inr False al ra fr no_out unfolding unfold by (cases rf) auto
      have res: "b = nb" "s1 = btree_store s3 key (item(i := nb))"
        using run Inr False al ra fr rf unfolding unfold by auto
      have k2: "keeps_maps s s2" using al by (rule alloc_file_block_keeps_maps)
      have k3: "keeps_maps s2 s3"
        using fr by (auto split: if_splits
                          dest!: scoutfs_buddy_free_dirty_only dirty_only_keeps_maps)
      have k: "keeps_maps s s3" using k2 k3 by (rule keeps_maps_trans)
      have view: "same_stable_view s s1"
        using keeps_maps_same_stable_view[OF k] unfolding res btree_store_def
        by (simp add: same_stable_view_def)
      have fault: "btree_fault s1 = btree_fault s"
        using keeps_maps_fields(7)[OF k] unfolding res btree_store_def by simp
      have stored: "btree s1 key = Some (item(i := nb))"
        unfolding res btree_store_def by simp
      have free_b: "nb \<noteq> 0 \<and> scoutfs_buddy_was_free g s nb 0 = Inr True"
        using alloc_file_block_source[OF al[unfolded ra]]
      proof
        assume "file_alloc_count s \<noteq> 0 \<and> nb = file_alloc_blkno s"
        then show ?thesis using reservoir by simp
      next
        assume "file_alloc_count s = 0 \<and>
          (\<exists>granted s'. buddy_alloc g s (int (SCOUTFS_BUDDY_ORDERS g) - 1) =
                           Some (Inr (nb, granted), s'))"
        then obtain granted s' where
          "buddy_alloc g s (int (SCOUTFS_BUDDY_ORDERS g) - 1) = Some (Inr (nb, granted), s')"
          by blast
        from buddy_alloc_was_free[OF geo same refs this] show ?thesis by simp
      qed
      show ?thesis using view fault stored free_b res(1) unfolding i_def by simp
    qed
  qed
qed

lemma map_writable_block_reuses:
  assumes "btree_fault s = None" "btree s (set_bmap_key g ino iblock) = Some item"
      and "item (iblock AND SCOUTFS_BLOCK_MAP_MASK g) = b" "b \<noteq> 0"
      and "scoutfs_buddy_was_free g s b 0 = Inr True"
  shows "map_writable_block g s ino iblock = Some (Inr (Inr b), s)"
  using assms
  by (simp add: map_writable_block_def scoutfs_btree_update_def map_writable_item_def Let_def)



section \<open>When the first-fit search finds nothing\<close>

lemma find_next_buddy_bit_none:
  assumes "find_next_buddy_bit g bud k start = INT_MAX"
      and "order_off g (Suc k) \<le> INT_MAX"
      and "start \<le> n" "order_nr g k n < order_off g (Suc k)"
  shows "\<not> test_buddy_bit g bud k n"
proof -
  define sz where "sz = order_off g (Suc k)"
  define m where "m = find_next_bit_le (bud_bits bud) sz (order_nr g k start)"
  have le: "m \<le> sz" unfolding m_def by (rule find_next_bit_le_le)
  have "sz \<le> m"
  proof (rule ccontr)
    assume "\<not> sz \<le> m"
    then have "m - order_off g k = INT_MAX"
      using assms(1) by (simp add: find_next_buddy_bit_def Let_def sz_def m_def)
    then show False using \<open>\<not> sz \<le> m\<close> assms(2) unfolding sz_def by simp
  qed
  then have "order_nr g k n < m" using assms(4) unfolding sz_def by simp
  moreover have "order_nr g k start \<le> order_nr g k n" using assms(3) by (simp add: order_nr_def)
  ultimately have "order_nr g k n \<notin> bud_bits bud"
    unfolding m_def by (intro find_next_bit_le_skips)
  then show ?thesis by (simp add: test_buddy_bit_def)
qed

lemma find_next_buddy_bit_between:
  assumes "find_next_buddy_bit g bud k start = x" "x \<noteq> INT_MAX"
      and "start \<le> n" "n < x"
  shows "\<not> test_buddy_bit g bud k n"
proof -
  define sz where "sz = order_off g (Suc k)"
  define m where "m = find_next_bit_le (bud_bits bud) sz (order_nr g k start)"
  have lt: "m < sz" and x: "x = m - order_off g k"
    using assms(1,2) by (auto simp: find_next_buddy_bit_def Let_def sz_def m_def split: if_splits)
  have "order_nr g k n < m" using assms(4) x by (simp add: order_nr_def)
  moreover have "order_nr g k start \<le> order_nr g k n" using assms(3) by (simp add: order_nr_def)
  ultimately have "order_nr g k n \<notin> bud_bits bud"
    unfolding m_def by (intro find_next_bit_le_skips)
  then show ?thesis by (simp add: test_buddy_bit_def)
qed

text \<open>
  \<open>no_fit g bud st_bud k n\<close>: the extent of order \<open>k\<close> at position \<open>n\<close> is not free in
  both views, or there is no stable buddy block. \<open>no_fit_below g bud st_bud ord nrs\<close>:
  this holds for all positions within the order bitmaps that the search has
  passed.
\<close>

definition no_fit :: "geometry \<Rightarrow> buddy_block \<Rightarrow> buddy_block option \<Rightarrow> nat \<Rightarrow> nat \<Rightarrow> bool" where
  "no_fit g bud st_bud k n =
     (\<not> (test_buddy_bit g bud k n \<and>
         (case st_bud of None \<Rightarrow> False | Some st \<Rightarrow> test_buddy_bit_or_higher g st k n)))"

definition no_fit_below ::
  "geometry \<Rightarrow> buddy_block \<Rightarrow> buddy_block option \<Rightarrow> nat \<Rightarrow> (nat \<Rightarrow> nat) \<Rightarrow> bool" where
  "no_fit_below g bud st_bud ord nrs =
     (\<forall>k n. ord \<le> k \<and> k < SCOUTFS_BUDDY_ORDERS g \<and> n < nrs k \<and>
            order_nr g k n < order_off g (Suc k) \<longrightarrow> no_fit g bud st_bud k n)"

lemma no_fit_below_update:
  assumes inv: "no_fit_below g bud st_bud ord nrs"
      and new: "\<And>n. nrs i \<le> n \<Longrightarrow> n < v \<Longrightarrow> order_nr g i n < order_off g (Suc i) \<Longrightarrow>
                  no_fit g bud st_bud i n"
  shows "no_fit_below g bud st_bud ord (nrs(i := v))"
  unfolding no_fit_below_def
proof (intro allI impI)
  fix k n
  assume a: "ord \<le> k \<and> k < SCOUTFS_BUDDY_ORDERS g \<and> n < (nrs(i := v)) k \<and>
             order_nr g k n < order_off g (Suc k)"
  show "no_fit g bud st_bud k n"
  proof (cases "k = i \<and> nrs i \<le> n")
    case True
    then show ?thesis using a new by auto
  next
    case False
    then have "n < nrs k" using a by (auto split: if_splits)
    then show ?thesis using a inv unfolding no_fit_below_def by blast
  qed
qed

lemma find_first_fit_orders_no_fit:
  assumes "find_first_fit_orders g sb sl bud st_bud i (nrs, blkno, order_ret, ret, mp) =
             (nrs', blkno', order_ret', ret', mp')"
      and "order_off g (SCOUTFS_BUDDY_ORDERS g) \<le> INT_MAX"
      and "no_fit_below g bud st_bud ord nrs"
  shows "no_fit_below g bud st_bud ord nrs' \<and> (mp \<longrightarrow> mp') \<and>
         (\<not> mp' \<longrightarrow> (\<forall>k. i \<le> k \<and> k < SCOUTFS_BUDDY_ORDERS g \<longrightarrow> nrs' k = INT_MAX)) \<and>
         (\<forall>k. k < i \<longrightarrow> nrs' k = nrs k)"
  using assms
proof (induction g sb sl bud st_bud i "(nrs, blkno, order_ret, ret, mp)"
       arbitrary: nrs blkno order_ret ret mp rule: find_first_fit_orders.induct)
  case (1 g sb sl bud st_bud i nrs blkno order_ret ret made_progress)
  show ?case
  proof (cases "i < SCOUTFS_BUDDY_ORDERS g")
    case False
    then show ?thesis using "1.prems" by (simp add: find_first_fit_orders.simps)
  next
    case True
    define x where "x = find_next_buddy_bit g bud i (nrs i)"
    have bound: "order_off g (Suc i) \<le> INT_MAX"
      using True "1.prems"(2) order_off_mono[of "Suc i" "SCOUTFS_BUDDY_ORDERS g" g]
      by simp
    have step: "find_first_fit_orders g sb sl bud st_bud i
                  (nrs, blkno, order_ret, ret, made_progress) =
       (if x = INT_MAX then
          find_first_fit_orders g sb sl bud st_bud (Suc i)
            (nrs(i := x), blkno, order_ret, ret, made_progress)
        else if (case st_bud of None \<Rightarrow> True
                 | Some st \<Rightarrow> \<not> test_buddy_bit_or_higher g st i x) then
          find_first_fit_orders g sb sl bud st_bud (Suc i)
            (nrs(i := x + 1), blkno, order_ret, ret, True)
        else if slot_buddy_blkno g sb sl i x < blkno then
          find_first_fit_orders g sb sl bud st_bud (Suc i)
            (nrs(i := x), slot_buddy_blkno g sb sl i x, i, x, True)
        else
          find_first_fit_orders g sb sl bud st_bud (Suc i)
            (nrs(i := x), blkno, order_ret, ret, True))"
      using True unfolding x_def
      by (subst find_first_fit_orders.simps) (simp add: Let_def)
    text \<open>what one more order adds to the recursive call's result\<close>
    have finish: ?thesis
      if rec: "no_fit_below g bud st_bud ord nrs' \<and> (mp1 \<longrightarrow> mp') \<and>
           (\<not> mp' \<longrightarrow> (\<forall>k. Suc i \<le> k \<and> k < SCOUTFS_BUDDY_ORDERS g \<longrightarrow> nrs' k = INT_MAX)) \<and>
           (\<forall>k. k < Suc i \<longrightarrow> nrs' k = (nrs(i := v)) k)"
        and mp1: "made_progress \<longrightarrow> mp1" and v: "\<not> mp1 \<longrightarrow> v = INT_MAX"
      for mp1 v
    proof -
      have "nrs' i = v" using rec by simp
      then have "\<not> mp' \<longrightarrow> (\<forall>k. i \<le> k \<and> k < SCOUTFS_BUDDY_ORDERS g \<longrightarrow> nrs' k = INT_MAX)"
        using rec v by (metis Suc_leI le_neq_implies_less)
      moreover have "\<forall>k. k < i \<longrightarrow> nrs' k = nrs k" using rec by simp
      ultimately show ?thesis using rec mp1 by blast
    qed
    consider (none) "x = INT_MAX"
      | (skip) "x \<noteq> INT_MAX" "(case st_bud of None \<Rightarrow> True
                  | Some st \<Rightarrow> \<not> test_buddy_bit_or_higher g st i x)"
      | (take) "x \<noteq> INT_MAX" "\<not> (case st_bud of None \<Rightarrow> True
                  | Some st \<Rightarrow> \<not> test_buddy_bit_or_higher g st i x)"
               "slot_buddy_blkno g sb sl i x < blkno"
      | (keep) "x \<noteq> INT_MAX" "\<not> (case st_bud of None \<Rightarrow> True
                  | Some st \<Rightarrow> \<not> test_buddy_bit_or_higher g st i x)"
               "\<not> slot_buddy_blkno g sb sl i x < blkno"
      by blast
    then show ?thesis
    proof cases
      case none
      have run: "find_first_fit_orders g sb sl bud st_bud (Suc i)
              (nrs(i := x), blkno, order_ret, ret, made_progress) =
            (nrs', blkno', order_ret', ret', mp')"
        using "1.prems"(1) none unfolding step by simp
      have inv: "no_fit_below g bud st_bud ord (nrs(i := x))"
      proof (rule no_fit_below_update[OF "1.prems"(3)])
        fix n assume "nrs i \<le> n" "order_nr g i n < order_off g (Suc i)"
        then have "\<not> test_buddy_bit g bud i n"
          using find_next_buddy_bit_none[OF _ bound, of bud "nrs i" n] none x_def by simp
        then show "no_fit g bud st_bud i n" by (simp add: no_fit_def)
      qed
      from "1.hyps"(1)[OF True x_def none run "1.prems"(2) inv]
      show ?thesis using none by (intro finish[where ?mp1.0 = made_progress and v = x]) auto
    next
      case skip
      have run: "find_first_fit_orders g sb sl bud st_bud (Suc i)
              (nrs(i := x + 1), blkno, order_ret, ret, True) =
            (nrs', blkno', order_ret', ret', mp')"
        using "1.prems"(1) skip unfolding step by simp
      have inv: "no_fit_below g bud st_bud ord (nrs(i := x + 1))"
      proof (rule no_fit_below_update[OF "1.prems"(3)])
        fix n assume n: "nrs i \<le> n" "n < x + 1"
        show "no_fit g bud st_bud i n"
        proof (cases "n = x")
          case True
          then show ?thesis using skip(2) by (cases st_bud) (auto simp: no_fit_def)
        next
          case False
          then have "n < x" using n(2) by simp
          then have "\<not> test_buddy_bit g bud i n"
            using find_next_buddy_bit_between[OF x_def[symmetric] skip(1) n(1)] by simp
          then show ?thesis by (simp add: no_fit_def)
        qed
      qed
      from "1.hyps"(2)[OF True x_def skip run "1.prems"(2) inv]
      show ?thesis by (intro finish[where ?mp1.0 = True and v = "x + 1"]) auto
    next
      case take
      have run: "find_first_fit_orders g sb sl bud st_bud (Suc i)
              (nrs(i := x), slot_buddy_blkno g sb sl i x, i, x, True) =
            (nrs', blkno', order_ret', ret', mp')"
        using "1.prems"(1) take unfolding step by simp
      have inv: "no_fit_below g bud st_bud ord (nrs(i := x))"
      proof (rule no_fit_below_update[OF "1.prems"(3)])
        fix n assume n: "nrs i \<le> n" "n < x"
        then have "\<not> test_buddy_bit g bud i n"
          using find_next_buddy_bit_between[OF x_def[symmetric] take(1)] by simp
        then show "no_fit g bud st_bud i n" by (simp add: no_fit_def)
      qed
      from "1.hyps"(3)[OF True x_def take run "1.prems"(2) inv]
      show ?thesis by (intro finish[where ?mp1.0 = True and v = x]) auto
    next
      case keep
      have run: "find_first_fit_orders g sb sl bud st_bud (Suc i)
              (nrs(i := x), blkno, order_ret, ret, True) =
            (nrs', blkno', order_ret', ret', mp')"
        using "1.prems"(1) keep unfolding step by simp
      have inv: "no_fit_below g bud st_bud ord (nrs(i := x))"
      proof (rule no_fit_below_update[OF "1.prems"(3)])
        fix n assume n: "nrs i \<le> n" "n < x"
        then have "\<not> test_buddy_bit g bud i n"
          using find_next_buddy_bit_between[OF x_def[symmetric] keep(1)] by simp
        then show "no_fit g bud st_bud i n" by (simp add: no_fit_def)
      qed
      from "1.hyps"(4)[OF True x_def keep run "1.prems"(2) inv]
      show ?thesis by (intro finish[where ?mp1.0 = True and v = x]) auto
    qed
  qed
qed


lemma find_first_fit_loop_no_fit:
  assumes "find_first_fit_loop g sb sl bud st_bud ord st = Some y"
      and "order_off g (SCOUTFS_BUDDY_ORDERS g) \<le> INT_MAX"
      and "no_fit_below g bud st_bud ord (fst st)"
      and "fst y = INT_MAX"
      and "ord \<le> k" "k < SCOUTFS_BUDDY_ORDERS g" "order_nr g k n < order_off g (Suc k)"
  shows "no_fit g bud st_bud k n"
proof -
  have "order_off g (SCOUTFS_BUDDY_ORDERS g) \<le> INT_MAX \<longrightarrow>
        no_fit_below g bud st_bud ord (fst st) \<longrightarrow> fst y = INT_MAX \<longrightarrow>
        no_fit_below g bud st_bud ord (\<lambda>_. INT_MAX)"
  proof (rule find_first_fit_loop.raw_induct
      [where P = "\<lambda>g sb sl bud st_bud ord st y.
          order_off g (SCOUTFS_BUDDY_ORDERS g) \<le> INT_MAX \<longrightarrow>
          no_fit_below g bud st_bud ord (fst st) \<longrightarrow> fst y = INT_MAX \<longrightarrow>
          no_fit_below g bud st_bud ord (\<lambda>_. INT_MAX)", OF _ assms(1)])
    fix loop :: "geometry \<Rightarrow> super_block \<Rightarrow> nat \<Rightarrow> buddy_block \<Rightarrow> buddy_block option \<Rightarrow>
        nat \<Rightarrow> (nat \<Rightarrow> nat) \<times> nat \<times> nat \<times> nat \<Rightarrow> (nat \<times> nat) option"
      and g sb sl bud st_bud ord and st :: "(nat \<Rightarrow> nat) \<times> nat \<times> nat \<times> nat" and y
    assume IH: "\<And>g sb sl bud st_bud ord st y. loop g sb sl bud st_bud ord st = Some y \<Longrightarrow>
        order_off g (SCOUTFS_BUDDY_ORDERS g) \<le> INT_MAX \<longrightarrow>
        no_fit_below g bud st_bud ord (fst st) \<longrightarrow> fst y = INT_MAX \<longrightarrow>
        no_fit_below g bud st_bud ord (\<lambda>_. INT_MAX)"
    assume body: "(case st of (nrs, blkno, order_ret, ret) \<Rightarrow>
        (case find_first_fit_orders g sb sl bud st_bud ord (nrs, blkno, order_ret, ret, False) of
           (nrs', blkno', order_ret', ret', made_progress) \<Rightarrow>
             if ret' = INT_MAX \<and> made_progress
             then loop g sb sl bud st_bud ord (nrs', blkno', order_ret', ret')
             else Some (ret', order_ret'))) = Some y"
    show "order_off g (SCOUTFS_BUDDY_ORDERS g) \<le> INT_MAX \<longrightarrow>
          no_fit_below g bud st_bud ord (fst st) \<longrightarrow> fst y = INT_MAX \<longrightarrow>
          no_fit_below g bud st_bud ord (\<lambda>_. INT_MAX)"
    proof (intro impI)
      assume bound: "order_off g (SCOUTFS_BUDDY_ORDERS g) \<le> INT_MAX"
         and inv: "no_fit_below g bud st_bud ord (fst st)"
         and none: "fst y = INT_MAX"
      obtain nrs blkno order_ret ret where st: "st = (nrs, blkno, order_ret, ret)"
        by (cases st) auto
      obtain nrs' blkno' order_ret' ret' mp' where
        run: "find_first_fit_orders g sb sl bud st_bud ord (nrs, blkno, order_ret, ret, False) =
                (nrs', blkno', order_ret', ret', mp')"
        by (cases "find_first_fit_orders g sb sl bud st_bud ord
                     (nrs, blkno, order_ret, ret, False)") auto
      have inv0: "no_fit_below g bud st_bud ord nrs" using inv st by simp
      note pass = find_first_fit_orders_no_fit[OF run bound inv0]
      show "no_fit_below g bud st_bud ord (\<lambda>_. INT_MAX)"
      proof (cases "ret' = INT_MAX \<and> mp'")
        case True
        then have "loop g sb sl bud st_bud ord (nrs', blkno', order_ret', ret') = Some y"
          using body st run by simp
        from IH[OF this] bound pass none show ?thesis by simp
      next
        case False
        then have "y = (ret', order_ret')" using body st run by auto
        then have "\<not> mp'" using False none by simp
        then have all: "\<forall>k. ord \<le> k \<and> k < SCOUTFS_BUDDY_ORDERS g \<longrightarrow> nrs' k = INT_MAX"
          using pass by blast
        have "no_fit_below g bud st_bud ord nrs'" using pass by blast
        then show ?thesis using all unfolding no_fit_below_def by metis
      qed
    qed
  qed
  then have all: "no_fit_below g bud st_bud ord (\<lambda>_. INT_MAX)" using assms(2,3,4) by blast
  have "order_off g (Suc k) \<le> order_off g (SCOUTFS_BUDDY_ORDERS g)"
    using assms(6) by (intro order_off_mono) simp
  then have "n < INT_MAX" using assms(2,7) by (simp add: order_nr_def)
  then show ?thesis using all assms(5,6,7) unfolding no_fit_below_def by blast
qed

lemma find_first_fit_none:
  assumes "find_first_fit g sb sl bud st_bud ord = Some (INT_MAX, found)"
      and "order_off g (SCOUTFS_BUDDY_ORDERS g) \<le> INT_MAX"
      and "ord \<le> k" "k < SCOUTFS_BUDDY_ORDERS g" "order_nr g k n < order_off g (Suc k)"
  shows "no_fit g bud st_bud k n"
proof -
  have "no_fit_below g bud st_bud ord (fst ((\<lambda>_. 0 :: nat), U64_MAX, 0 :: nat, INT_MAX))"
    by (simp add: no_fit_below_def)
  from find_first_fit_loop_no_fit[OF assms(1)[unfolded find_first_fit_def] assms(2) this _
      assms(3,4,5)]
  show ?thesis by simp
qed

section \<open>A failed search of the slots changes nothing\<close>

lemma alloc_slot_nospace:
  assumes "alloc_slot g s ind sl stable_ref ord = Some (Inl ENOSPC, s', ind')"
      and "ref_blkno (slot_ref (slots ind sl)) \<noteq> 0"
  shows "s' = s \<and> ind' = ind \<and>
         (\<exists>bud st_bud found.
            dirty_bud s (ref_blkno (slot_ref (slots ind sl))) = Some bud \<and>
            (if ref_blkno stable_ref \<noteq> 0
             then stable_bud s (ref_blkno stable_ref) = st_bud \<and> st_bud \<noteq> None
             else st_bud = None) \<and>
            find_first_fit g (super s) sl bud st_bud ord = Some (INT_MAX, found))"
proof -
  have db: "dirty_buddy_block g s ind sl =
        (scoutfs_block_dirty_ref (dirty_bud s) (slot_ref (slots ind sl)), s, ind)"
    using assms(2) by (simp add: dirty_buddy_block_def)
  obtain bud where bud: "dirty_bud s (ref_blkno (slot_ref (slots ind sl))) = Some bud"
    using assms(1) unfolding alloc_slot_def db
    by (cases "dirty_bud s (ref_blkno (slot_ref (slots ind sl)))")
       (auto simp: scoutfs_block_dirty_ref_def)
  have rb: "scoutfs_block_dirty_ref (dirty_bud s) (slot_ref (slots ind sl)) = Inr bud"
    using bud by (simp add: scoutfs_block_dirty_ref_def)
  define rd where "rd = (if ref_blkno stable_ref \<noteq> 0 then
                   (case scoutfs_block_read_ref (stable_bud s) stable_ref of
                      Inl e \<Rightarrow> Inl e
                    | Inr st \<Rightarrow> Inr (Some st))
                 else Inr None)"
  have eq: "alloc_slot g s ind sl stable_ref ord =
      (case rd of
         Inl e \<Rightarrow> Some (Inl e, s, ind)
       | Inr st_bud \<Rightarrow>
           (case find_first_fit g (super s) sl bud st_bud ord of
              None \<Rightarrow> None
            | Some (nr, found) \<Rightarrow>
                if nr = INT_MAX then Some (Inl ENOSPC, s, ind)
                else
                  (case clear_buddy_bit g ind bud found nr of
                     (ind2, bud2) \<Rightarrow>
                       (case free_right_buddies g ind2 bud2 ord found (push_bit 1 nr) of
                          (ind3, bud3) \<Rightarrow>
                            Some (Inr (slot_buddy_blkno g (super s) sl found nr),
                                  s\<lparr>dirty_bud := (dirty_bud s)
                                       (ref_blkno (slot_ref (slots ind3 sl)) \<mapsto> bud3)\<rparr>,
                                  ind3\<lparr>slots := (slots ind3)
                                       (sl := update_free_orders g (slots ind3 sl) bud3)\<rparr>)))))"
    unfolding alloc_slot_def rd_def db rb by simp
  obtain st_bud where rd_ok: "rd = Inr st_bud"
  proof (cases rd)
    case (Inl e)
    then have "e = ENOSPC" using assms(1) unfolding eq by simp
    then have "rd = Inl ENOSPC" using Inl by simp
    then have False
      unfolding rd_def scoutfs_block_read_ref_def
      by (auto split: if_splits option.splits)
    then show ?thesis ..
  next
    case (Inr x)
    then show ?thesis using that by blast
  qed
  obtain nr found where
    fit: "find_first_fit g (super s) sl bud st_bud ord = Some (nr, found)"
    using assms(1) rd_ok unfolding eq by (auto split: option.splits)
  have nr: "nr = INT_MAX" and same: "s' = s" "ind' = ind"
    using assms(1) rd_ok fit unfolding eq by (auto split: if_splits prod.splits)
  have "if ref_blkno stable_ref \<noteq> 0
        then stable_bud s (ref_blkno stable_ref) = st_bud \<and> st_bud \<noteq> None
        else st_bud = None"
  proof (cases "ref_blkno stable_ref \<noteq> 0")
    case True
    then show ?thesis
      using rd_ok unfolding rd_def scoutfs_block_read_ref_def
      by (cases "stable_bud s (ref_blkno stable_ref)") auto
  next
    case False
    then show ?thesis using rd_ok unfolding rd_def by simp
  qed
  then show ?thesis using same bud fit nr by blast
qed

lemma alloc_order_slots_nospace:
  assumes "alloc_order_slots g s ind st_ind msk ord i ret = Some (Inl ENOSPC, s', ind')"
      and "\<forall>sl. sl < SCOUTFS_BUDDY_SLOTS g \<and> free_orders (slots ind sl) \<noteq> 0 \<longrightarrow>
                ref_blkno (slot_ref (slots ind sl)) \<noteq> 0"
  shows "s' = s \<and> ind' = ind \<and>
         (\<forall>sl. i \<le> sl \<and> sl < SCOUTFS_BUDDY_SLOTS g \<and>
               msk AND free_orders (slots ind sl) \<noteq> 0 \<and>
               msk AND free_orders (slots st_ind sl) \<noteq> 0 \<longrightarrow>
               alloc_slot g s ind sl (slot_ref (slots st_ind sl)) ord =
                 Some (Inl ENOSPC, s, ind))"
  using assms
proof (induction g s ind st_ind msk ord i ret rule: alloc_order_slots.induct)
  case (1 g s ind st_ind msk ord i ret)
  show ?case
  proof (cases "i < SCOUTFS_BUDDY_SLOTS g")
    case False
    then have "s' = s \<and> ind' = ind"
      using "1.prems"(1) by (subst (asm) alloc_order_slots.simps) simp
    then show ?thesis using False by (meson le_less_trans)
  next
    case True
    show ?thesis
    proof (cases "msk AND free_orders (slots ind i) \<noteq> 0 \<and>
                  msk AND free_orders (slots st_ind i) \<noteq> 0")
      case False
      then have run: "alloc_order_slots g s ind st_ind msk ord (Suc i) (Inl ENOSPC) =
                   Some (Inl ENOSPC, s', ind')"
        using "1.prems"(1) True by (subst (asm) alloc_order_slots.simps) simp
      from "1.IH"(1)[OF True False run "1.prems"(2)]
      have rest: "s' = s \<and> ind' = ind \<and>
         (\<forall>sl. Suc i \<le> sl \<and> sl < SCOUTFS_BUDDY_SLOTS g \<and>
               msk AND free_orders (slots ind sl) \<noteq> 0 \<and>
               msk AND free_orders (slots st_ind sl) \<noteq> 0 \<longrightarrow>
               alloc_slot g s ind sl (slot_ref (slots st_ind sl)) ord =
                 Some (Inl ENOSPC, s, ind))" .
      show ?thesis
      proof (intro conjI allI impI)
        fix sl
        assume a: "i \<le> sl \<and> sl < SCOUTFS_BUDDY_SLOTS g \<and>
               msk AND free_orders (slots ind sl) \<noteq> 0 \<and>
               msk AND free_orders (slots st_ind sl) \<noteq> 0"
        then have "sl \<noteq> i" using False by blast
        then have "Suc i \<le> sl" using a by simp
        then show "alloc_slot g s ind sl (slot_ref (slots st_ind sl)) ord =
                 Some (Inl ENOSPC, s, ind)" using rest a by blast
      qed (use rest in simp_all)
    next
      case hint: True
      obtain r s1 ind1 where
        slot: "alloc_slot g s ind i (slot_ref (slots st_ind i)) ord = Some (r, s1, ind1)"
        using "1.prems"(1) True hint
        by (subst (asm) alloc_order_slots.simps)
           (cases "alloc_slot g s ind i (slot_ref (slots st_ind i)) ord"; auto)
      have r: "r = Inl ENOSPC"
        using "1.prems"(1) True hint slot
        by (subst (asm) alloc_order_slots.simps) (auto split: if_splits)
      have run: "alloc_order_slots g s1 ind1 st_ind msk ord (Suc i) r =
                   Some (Inl ENOSPC, s', ind')"
        using "1.prems"(1) True hint slot r
        by (subst (asm) alloc_order_slots.simps) simp
      have "free_orders (slots ind i) \<noteq> 0" using hint by auto
      then have pop: "ref_blkno (slot_ref (slots ind i)) \<noteq> 0" using "1.prems"(2) True by blast
      have same: "s1 = s" "ind1 = ind"
        using alloc_slot_nospace[OF slot[unfolded r] pop] by simp_all
      have hint': "\<not> \<not> (msk AND free_orders (slots ind i) \<noteq> 0 \<and>
                  msk AND free_orders (slots st_ind i) \<noteq> 0)" using hint by simp
      have nr: "\<not> r \<noteq> Inl ENOSPC" using r by simp
      have pop1: "\<forall>sl. sl < SCOUTFS_BUDDY_SLOTS g \<and> free_orders (slots ind1 sl) \<noteq> 0 \<longrightarrow>
                ref_blkno (slot_ref (slots ind1 sl)) \<noteq> 0"
        using "1.prems"(2) same by simp
      from "1.IH"(2)[OF True hint' slot refl refl nr run pop1]
      have rest: "s' = s \<and> ind' = ind \<and>
         (\<forall>sl. Suc i \<le> sl \<and> sl < SCOUTFS_BUDDY_SLOTS g \<and>
               msk AND free_orders (slots ind sl) \<noteq> 0 \<and>
               msk AND free_orders (slots st_ind sl) \<noteq> 0 \<longrightarrow>
               alloc_slot g s ind sl (slot_ref (slots st_ind sl)) ord =
                 Some (Inl ENOSPC, s, ind))" using same by simp
      show ?thesis
      proof (intro conjI allI impI)
        fix sl
        assume a: "i \<le> sl \<and> sl < SCOUTFS_BUDDY_SLOTS g \<and>
               msk AND free_orders (slots ind sl) \<noteq> 0 \<and>
               msk AND free_orders (slots st_ind sl) \<noteq> 0"
        show "alloc_slot g s ind sl (slot_ref (slots st_ind sl)) ord =
                 Some (Inl ENOSPC, s, ind)"
        proof (cases "sl = i")
          case True
          then show ?thesis using slot r same by simp
        next
          case False
          then have "Suc i \<le> sl" using a by simp
          then show ?thesis using rest a by blast
        qed
      qed (use rest in simp_all)
    qed
  qed
qed


lemma alloc_order_nospace:
  assumes "alloc_order g s ord = Some (Inl ENOSPC, s')"
      and "dirty_ind s (ref_blkno (buddy_ind_ref (super s))) = Some ind"
      and "\<forall>sl. sl < SCOUTFS_BUDDY_SLOTS g \<and> free_orders (slots ind sl) \<noteq> 0 \<longrightarrow>
                ref_blkno (slot_ref (slots ind sl)) \<noteq> 0"
  shows "s' = s \<and>
         (\<forall>st_ind sl.
            stable_ind s (ref_blkno (buddy_ind_ref (stable_super s))) = Some st_ind \<and>
            sl < SCOUTFS_BUDDY_SLOTS g \<and>
            ucast (push_bit ord (- 1 :: 32 word)) AND free_orders (slots ind sl) \<noteq> 0 \<and>
            ucast (push_bit ord (- 1 :: 32 word)) AND free_orders (slots st_ind sl) \<noteq> 0 \<longrightarrow>
            alloc_slot g s ind sl (slot_ref (slots st_ind sl)) ord = Some (Inl ENOSPC, s, ind))"
proof -
  have refs: "\<not> (ref_blkno (buddy_ind_ref (super s)) = 0 \<or>
                 ref_blkno (buddy_ind_ref (stable_super s)) = 0)"
    using assms(1) by (auto simp: alloc_order_def split: if_splits)
  have rd: "scoutfs_block_dirty_ref (dirty_ind s) (buddy_ind_ref (super s)) = Inr ind"
    using assms(2) by (simp add: scoutfs_block_dirty_ref_def)
  obtain st_ind where
    st: "stable_ind s (ref_blkno (buddy_ind_ref (stable_super s))) = Some st_ind"
    using assms(1) refs rd unfolding alloc_order_def scoutfs_block_read_ref_def
    by (cases "stable_ind s (ref_blkno (buddy_ind_ref (stable_super s)))") auto
  have rs: "scoutfs_block_read_ref (stable_ind s) (buddy_ind_ref (stable_super s)) = Inr st_ind"
    using st by (simp add: scoutfs_block_read_ref_def)
  obtain s1 ind1 where
    run: "alloc_order_slots g s ind st_ind (ucast (push_bit ord (- 1 :: 32 word))) ord 0
            (Inl ENOSPC) = Some (Inl ENOSPC, s1, ind1)"
     and s': "s' = s1\<lparr>dirty_ind := (dirty_ind s1)(ref_blkno (buddy_ind_ref (super s)) \<mapsto> ind1)\<rparr>"
    using assms(1) refs unfolding alloc_order_def rd rs
    by (auto split: option.splits)
  note slots = alloc_order_slots_nospace[OF run assms(3)]
  have "(dirty_ind s)(ref_blkno (buddy_ind_ref (super s)) \<mapsto> ind) = dirty_ind s"
    using assms(2) by (rule map_upd_triv)
  then have "s' = s" using s' slots by simp
  then show ?thesis using slots st by simp
qed

lemma buddy_alloc_orders_nospace:
  assumes "buddy_alloc_orders g s ord = Some (Inl ENOSPC, s')"
      and "dirty_ind s (ref_blkno (buddy_ind_ref (super s))) = Some ind"
      and "\<forall>sl. sl < SCOUTFS_BUDDY_SLOTS g \<and> free_orders (slots ind sl) \<noteq> 0 \<longrightarrow>
                ref_blkno (slot_ref (slots ind sl)) \<noteq> 0"
  shows "s' = s \<and> alloc_order g s 0 = Some (Inl ENOSPC, s)"
  using assms(1)
proof (induction ord)
  case 0
  then have "alloc_order g s 0 = Some (Inl ENOSPC, s')"
    by (auto split: option.splits sum.splits prod.splits)
  then show ?case using alloc_order_nospace[OF _ assms(2,3)] by simp
next
  case (Suc ord)
  obtain e s1 where first: "alloc_order g s (Suc ord) = Some (Inl e, s1)"
    using Suc.prems by (auto split: option.splits sum.splits prod.splits)
  show ?case
  proof (cases "e = ENOSPC")
    case True
    then have "s1 = s" using alloc_order_nospace[OF _ assms(2,3)] first by simp
    then have "buddy_alloc_orders g s ord = Some (Inl ENOSPC, s')"
      using Suc.prems first True by simp
    then show ?thesis by (rule Suc.IH)
  next
    case False
    then show ?thesis using Suc.prems first by simp
  qed
qed

text \<open>
  In slot 0 block 8 is free in the dirty view only and block 9 in the stable view
  only: block 9 was allocated and block 8 freed since the last commit. Blocks 10
  and 11 are allocated in both views.
\<close>

definition bud_other :: buddy_block where
  "bud_other = bud_small 5 {1} ((\<lambda>_. 0)(0 := 1))"

definition sb_apart :: sb_info where
  "sb_apart = sb_views ind_one [5 \<mapsto> bud_one] ind_one [5 \<mapsto> bud_other]"

text \<open>
  In slot 0 only block 8 is free in the stable view, and the whole slot is free in
  the dirty view as one extent of order 2: blocks 9, 10 and 11 were freed since the
  last commit and merged with block 8.
\<close>

definition ind_slot :: buddy_indirect where
  "ind_slot = ind_small (slot_small 5 4) (slot_small 0 0) ((\<lambda>_. 0)(2 := 1))"

definition bud_slot :: buddy_block where
  "bud_slot = bud_small 5 {6} ((\<lambda>_. 0)(2 := 1))"

definition sb_merged :: sb_info where
  "sb_merged = sb_views ind_slot [5 \<mapsto> bud_slot] ind_one [5 \<mapsto> bud_one]"

text \<open>
  The search only looks at the set bits of the dirty bitmap, and tests each against
  the stable bitmap at its own order or a higher one. In \<open>sb_merged\<close> block 8 is free
  in both views, and still a request of order 0 fails with \<open>-ENOSPC\<close>: the only set
  bit of the dirty bitmap has order 2, and the stable view has no free extent of
  order 2.
\<close>

lemma buddy_alloc_refuses_merged_extent:
  "map_option fst (buddy_alloc g_small sb_merged 0) = Some (Inl ENOSPC) \<and>
   test_buddy_bit_or_higher g_small (the (dirty_bud sb_merged 5)) 0 0 \<and>
   test_buddy_bit_or_higher g_small (the (stable_bud sb_merged 5)) 0 0 \<and>
   scoutfs_buddy_was_free g_small sb_merged 8 0 = Inr True"
  by code_simp




section \<open>Where merging stops\<close>

lemma in_range_iff:
  assumes "2 ^ (SCOUTFS_BUDDY_ORDERS g - 1) dvd SCOUTFS_BUDDY_ORDER0_BITS g"
      and "k < SCOUTFS_BUDDY_ORDERS g"
  shows "order_nr g k n < order_off g (Suc k) \<longleftrightarrow> n < SCOUTFS_BUDDY_ORDER0_BITS g div 2 ^ k"
  unfolding order_size[OF assms] by (simp add: order_nr_def)

lemma order_bits_even:
  assumes "2 ^ (SCOUTFS_BUDDY_ORDERS g - 1) dvd SCOUTFS_BUDDY_ORDER0_BITS g"
      and "Suc k < SCOUTFS_BUDDY_ORDERS g"
  shows "SCOUTFS_BUDDY_ORDER0_BITS g div 2 ^ k =
           2 * (SCOUTFS_BUDDY_ORDER0_BITS g div 2 ^ Suc k)"
proof -
  have "(2::nat) ^ Suc k dvd 2 ^ (SCOUTFS_BUDDY_ORDERS g - 1)"
    using assms(2) by (intro le_imp_power_dvd) simp
  then have "2 ^ Suc k dvd SCOUTFS_BUDDY_ORDER0_BITS g" using assms(1) by (rule dvd_trans)
  then obtain m where m: "SCOUTFS_BUDDY_ORDER0_BITS g = 2 ^ Suc k * m" by (auto elim: dvdE)
  have "SCOUTFS_BUDDY_ORDER0_BITS g div 2 ^ k = 2 * m"
    unfolding m by simp
  moreover have "SCOUTFS_BUDDY_ORDER0_BITS g div 2 ^ Suc k = m"
    unfolding m by simp
  ultimately show ?thesis by simp
qed

lemma in_range_parent:
  assumes "2 ^ (SCOUTFS_BUDDY_ORDERS g - 1) dvd SCOUTFS_BUDDY_ORDER0_BITS g"
      and "Suc k < SCOUTFS_BUDDY_ORDERS g" "order_nr g k n < order_off g (Suc k)"
  shows "order_nr g (Suc k) (drop_bit 1 n) < order_off g (Suc (Suc k))"
proof -
  have k: "k < SCOUTFS_BUDDY_ORDERS g" using assms(2) by simp
  have "n < 2 * (SCOUTFS_BUDDY_ORDER0_BITS g div 2 ^ Suc k)"
    using assms(3) unfolding in_range_iff[OF assms(1) k] order_bits_even[OF assms(1,2)] .
  then have "n div 2 < SCOUTFS_BUDDY_ORDER0_BITS g div 2 ^ Suc k" by simp
  then show ?thesis
    unfolding in_range_iff[OF assms(1,2)] by (simp add: drop_bit_eq_div)
qed

lemma in_range_buddy:
  assumes "2 ^ (SCOUTFS_BUDDY_ORDERS g - 1) dvd SCOUTFS_BUDDY_ORDER0_BITS g"
      and "Suc k < SCOUTFS_BUDDY_ORDERS g" "order_nr g k n < order_off g (Suc k)"
  shows "order_nr g k (n XOR 1) < order_off g (Suc k)"
proof -
  have k: "k < SCOUTFS_BUDDY_ORDERS g" using assms(2) by simp
  have "n < 2 * (SCOUTFS_BUDDY_ORDER0_BITS g div 2 ^ Suc k)"
    using assms(3) unfolding in_range_iff[OF assms(1) k] order_bits_even[OF assms(1,2)] .
  then have "n div 2 < SCOUTFS_BUDDY_ORDER0_BITS g div 2 ^ Suc k" by simp
  moreover have "(n XOR 1) div 2 = n div 2"
    using xor_one_half[of n] by (simp add: drop_bit_eq_div)
  ultimately have "(n XOR 1) div 2 < SCOUTFS_BUDDY_ORDER0_BITS g div 2 ^ Suc k" by simp
  then have "n XOR 1 < 2 * (SCOUTFS_BUDDY_ORDER0_BITS g div 2 ^ Suc k)" by simp
  then show ?thesis
    unfolding in_range_iff[OF assms(1) k] order_bits_even[OF assms(1,2)] .
qed

text \<open>
  \<open>merge_order g bud i nr\<close> is the order at which merging from the extent \<open>nr\<close> of order
  \<open>i\<close> stops in the block \<open>bud\<close>: the first order from \<open>i\<close> on that is the highest order
  or at which the buddy of the extent's ancestor is not free. \<open>merged_buddies g i nr j\<close>
  are the bits of the buddies of the ancestors below order \<open>j\<close>.
\<close>

function merge_order :: "geometry \<Rightarrow> buddy_block \<Rightarrow> nat \<Rightarrow> nat \<Rightarrow> nat" where
  "merge_order g bud i nr =
     (if i < SCOUTFS_BUDDY_ORDERS g - 1 \<and> test_buddy_bit g bud i (nr XOR 1)
      then merge_order g bud (Suc i) (drop_bit 1 nr) else i)"
  by pat_completeness auto
termination
  by (relation "measure (\<lambda>(g, bud, i, nr). SCOUTFS_BUDDY_ORDERS g - 1 - i)") auto

declare merge_order.simps [simp del]

definition merged_buddies :: "geometry \<Rightarrow> nat \<Rightarrow> nat \<Rightarrow> nat \<Rightarrow> nat set" where
  "merged_buddies g i nr j = (\<lambda>l. order_nr g l (drop_bit (l - i) nr XOR 1)) ` {i ..< j}"

lemma merged_buddies_step:
  assumes "i < j"
  shows "merged_buddies g i nr j =
           insert (order_nr g i (nr XOR 1)) (merged_buddies g (Suc i) (drop_bit 1 nr) j)"
proof -
  have set: "{i ..< j} = insert i {Suc i ..< j}" using assms by auto
  have "(\<lambda>l. order_nr g l (drop_bit (l - i) nr XOR 1)) ` {Suc i ..< j} =
        (\<lambda>l. order_nr g l (drop_bit (l - Suc i) (drop_bit 1 nr) XOR 1)) ` {Suc i ..< j}"
  proof (rule image_cong[OF refl])
    fix l assume "l \<in> {Suc i ..< j}"
    then have "i < l" by simp
    then show "order_nr g l (drop_bit (l - i) nr XOR 1) =
               order_nr g l (drop_bit (l - Suc i) (drop_bit 1 nr) XOR 1)"
      by (simp only: drop_bit_step)
  qed
  then show ?thesis unfolding merged_buddies_def set by simp
qed

lemma merged_buddies_empty: "merged_buddies g i nr i = {}"
  by (simp add: merged_buddies_def)

lemma merge_order_cong:
  assumes "\<And>l m. i \<le> l \<Longrightarrow> test_buddy_bit g bud' l m = test_buddy_bit g bud l m"
  shows "merge_order g bud' i nr = merge_order g bud i nr"
  using assms
proof (induction g bud i nr rule: merge_order.induct)
  case (1 g bud i nr)
  have same: "test_buddy_bit g bud' i (nr XOR 1) = test_buddy_bit g bud i (nr XOR 1)"
    using "1.prems" by simp
  show ?case
  proof (cases "i < SCOUTFS_BUDDY_ORDERS g - 1 \<and> test_buddy_bit g bud i (nr XOR 1)")
    case True
    have "merge_order g bud' (Suc i) (drop_bit 1 nr) = merge_order g bud (Suc i) (drop_bit 1 nr)"
      using "1.IH"[OF True] "1.prems" by simp
    then show ?thesis using True same
      by (subst merge_order.simps, subst (2) merge_order.simps) simp
  next
    case False
    then show ?thesis using same
      by (subst merge_order.simps, subst (2) merge_order.simps) auto
  qed
qed

lemma merge_order_bounds:
  "i \<le> merge_order g bud i nr \<and>
   (i < SCOUTFS_BUDDY_ORDERS g \<longrightarrow> merge_order g bud i nr < SCOUTFS_BUDDY_ORDERS g) \<and>
   (\<forall>l. i \<le> l \<and> l < merge_order g bud i nr \<longrightarrow>
        test_buddy_bit g bud l (drop_bit (l - i) nr XOR 1)) \<and>
   (Suc (merge_order g bud i nr) < SCOUTFS_BUDDY_ORDERS g \<longrightarrow>
      \<not> test_buddy_bit g bud (merge_order g bud i nr)
          (drop_bit (merge_order g bud i nr - i) nr XOR 1))"
proof (induction g bud i nr rule: merge_order.induct)
  case (1 g bud i nr)
  show ?case
  proof (cases "i < SCOUTFS_BUDDY_ORDERS g - 1 \<and> test_buddy_bit g bud i (nr XOR 1)")
    case False
    then have eq: "merge_order g bud i nr = i" by (subst merge_order.simps) auto
    show ?thesis unfolding eq using False by auto
  next
    case True
    define j where "j = merge_order g bud (Suc i) (drop_bit 1 nr)"
    have eq: "merge_order g bud i nr = j"
      unfolding j_def using True by (subst merge_order.simps) simp
    from "1.IH"[OF True] have
      ih: "Suc i \<le> j"
          "Suc i < SCOUTFS_BUDDY_ORDERS g \<longrightarrow> j < SCOUTFS_BUDDY_ORDERS g"
          "\<forall>l. Suc i \<le> l \<and> l < j \<longrightarrow>
               test_buddy_bit g bud l (drop_bit (l - Suc i) (drop_bit 1 nr) XOR 1)"
          "Suc j < SCOUTFS_BUDDY_ORDERS g \<longrightarrow>
             \<not> test_buddy_bit g bud j (drop_bit (j - Suc i) (drop_bit 1 nr) XOR 1)"
      unfolding j_def by blast+
    have lt: "i < j" using ih(1) by simp
    have all: "test_buddy_bit g bud l (drop_bit (l - i) nr XOR 1)" if "i \<le> l" "l < j" for l
    proof (cases "l = i")
      case True
      then show ?thesis using \<open>i < SCOUTFS_BUDDY_ORDERS g - 1 \<and> test_buddy_bit g bud i (nr XOR 1)\<close>
        by simp
    next
      case False
      then have il: "i < l" using that(1) by simp
      then have "test_buddy_bit g bud l (drop_bit (l - Suc i) (drop_bit 1 nr) XOR 1)"
        using ih(3) that(2) by simp
      then show ?thesis unfolding drop_bit_step[OF il] .
    qed
    have stop: "Suc j < SCOUTFS_BUDDY_ORDERS g \<longrightarrow>
                  \<not> test_buddy_bit g bud j (drop_bit (j - i) nr XOR 1)"
      using ih(4) unfolding drop_bit_step[OF lt] .
    show ?thesis unfolding eq using lt ih(2) True all stop by auto
  qed
qed

text \<open>
  The merge loop stops at \<open>merge_order\<close>, and has cleared exactly the bits of the
  buddies on the way.
\<close>

lemma buddy_free_merge_exact:
  assumes "buddy_free_merge g ind bud i nr = (ind', bud', j, nrj)"
      and "2 ^ (SCOUTFS_BUDDY_ORDERS g - 1) dvd SCOUTFS_BUDDY_ORDER0_BITS g"
      and "i < SCOUTFS_BUDDY_ORDERS g" "order_nr g i nr < order_off g (Suc i)"
  shows "j = merge_order g bud i nr \<and> nrj = drop_bit (j - i) nr \<and>
         bud_bits bud' = bud_bits bud - merged_buddies g i nr j"
  using assms
proof (induction g ind bud i nr rule: buddy_free_merge.induct)
  case (1 g ind bud i nr)
  show ?case
  proof (cases "i < SCOUTFS_BUDDY_ORDERS g - 1 \<and> test_buddy_bit g bud i (nr XOR 1)")
    case False
    then have res: "(ind', bud', j, nrj) = (ind, bud, i, nr)"
      using "1.prems"(1) by (subst (asm) buddy_free_merge.simps) (auto split: if_splits)
    have "merge_order g bud i nr = i" using False by (subst merge_order.simps) auto
    then show ?thesis using res by (simp add: merged_buddies_empty)
  next
    case True
    then have top: "Suc i < SCOUTFS_BUDDY_ORDERS g" by linarith
    obtain ind1 bud1 where cl: "clear_buddy_bit g ind bud i (nr XOR 1) = (ind1, bud1)"
      by (cases "clear_buddy_bit g ind bud i (nr XOR 1)") auto
    have run: "buddy_free_merge g ind1 bud1 (Suc i) (drop_bit 1 nr) = (ind', bud', j, nrj)"
      using "1.prems"(1) True cl by (subst (asm) buddy_free_merge.simps) simp
    have bits1: "bud_bits bud1 = bud_bits bud - {order_nr g i (nr XOR 1)}"
      using cl by (rule clear_buddy_bit_bits)
    have parent: "order_nr g (Suc i) (drop_bit 1 nr) < order_off g (Suc (Suc i))"
      using in_range_parent[OF "1.prems"(2) top "1.prems"(4)] .
    have buddy: "order_nr g i (nr XOR 1) < order_off g (Suc i)"
      using in_range_buddy[OF "1.prems"(2) top "1.prems"(4)] .
    from "1.IH"[OF _ _ cl[symmetric] run "1.prems"(2) top parent] True have
      ih: "j = merge_order g bud1 (Suc i) (drop_bit 1 nr)"
          "nrj = drop_bit (j - Suc i) (drop_bit 1 nr)"
          "bud_bits bud' = bud_bits bud1 - merged_buddies g (Suc i) (drop_bit 1 nr) j"
      by blast+
    have same: "test_buddy_bit g bud1 l m = test_buddy_bit g bud l m" if "Suc i \<le> l" for l m
    proof -
      have "i < l" using that by simp
      then have "order_nr g l m \<noteq> order_nr g i (nr XOR 1)"
        using order_nr_distinct[OF _ buddy, of l m] by metis
      then show ?thesis unfolding test_buddy_bit_def bits1 by simp
    qed
    have "merge_order g bud1 (Suc i) (drop_bit 1 nr) = merge_order g bud (Suc i) (drop_bit 1 nr)"
      using same by (rule merge_order_cong)
    moreover have "merge_order g bud i nr = merge_order g bud (Suc i) (drop_bit 1 nr)"
      using True by (subst merge_order.simps) simp
    ultimately have j: "j = merge_order g bud i nr" using ih(1) by simp
    have lt: "i < j" using merge_order_bounds[of "Suc i" g bud1 "drop_bit 1 nr"] ih(1) by simp
    have nrj: "nrj = drop_bit (j - i) nr" using ih(2) unfolding drop_bit_step[OF lt] .
    have "bud_bits bud' = bud_bits bud - merged_buddies g i nr j"
      unfolding ih(3) bits1 merged_buddies_step[OF lt] by blast
    then show ?thesis using j nrj by simp
  qed
qed

lemma buddy_free_bits_exact:
  assumes "buddy_free_bits g ind bud i nr = (ind', bud')"
      and "2 ^ (SCOUTFS_BUDDY_ORDERS g - 1) dvd SCOUTFS_BUDDY_ORDER0_BITS g"
      and "i < SCOUTFS_BUDDY_ORDERS g" "order_nr g i nr < order_off g (Suc i)"
  shows "bud_bits bud' =
           insert (order_nr g (merge_order g bud i nr)
                     (drop_bit (merge_order g bud i nr - i) nr))
                  (bud_bits bud - merged_buddies g i nr (merge_order g bud i nr))"
proof -
  obtain ind1 bud1 j nrj where m: "buddy_free_merge g ind bud i nr = (ind1, bud1, j, nrj)"
    by (cases "buddy_free_merge g ind bud i nr") auto
  have st: "set_buddy_bit g ind1 bud1 j nrj = (ind', bud')"
    using assms(1) m by (simp add: buddy_free_bits_def)
  from buddy_free_merge_exact[OF m assms(2,3,4)] set_buddy_bit_bits[OF st]
  show ?thesis by simp
qed


lemma in_range_path:
  assumes "2 ^ (SCOUTFS_BUDDY_ORDERS g - 1) dvd SCOUTFS_BUDDY_ORDER0_BITS g"
      and "order_nr g k n < order_off g (Suc k)"
      and "k \<le> l" "l < SCOUTFS_BUDDY_ORDERS g"
  shows "order_nr g l (drop_bit (l - k) n) < order_off g (Suc l)"
  using assms(3,4)
proof (induction l)
  case 0
  then show ?case using assms(2) by simp
next
  case (Suc l)
  show ?case
  proof (cases "k = Suc l")
    case True
    then show ?thesis using assms(2) by simp
  next
    case False
    then have kl: "k \<le> l" using Suc.prems(1) by simp
    have "order_nr g l (drop_bit (l - k) n) < order_off g (Suc l)"
      using Suc.IH[OF kl] Suc.prems(2) by simp
    from in_range_parent[OF assms(1) Suc.prems(2) this]
    have "order_nr g (Suc l) (drop_bit 1 (drop_bit (l - k) n)) < order_off g (Suc (Suc l))" .
    moreover have "drop_bit 1 (drop_bit (l - k) n) = drop_bit (Suc l - k) n"
      using kl by (simp add: Suc_diff_le)
    ultimately show ?thesis by simp
  qed
qed

lemma merged_buddies_member:
  "p \<in> merged_buddies g i nr j \<longleftrightarrow>
     (\<exists>l. i \<le> l \<and> l < j \<and> p = order_nr g l (drop_bit (l - i) nr XOR 1))"
  by (auto simp: merged_buddies_def)

text \<open>
  Freeing first one and then the other of two allocated buddies of order \<open>k\<close>: the
  second free clears the bit of the first and merges from their parent on.
\<close>

lemma buddy_free_bits_both_exact:
  assumes geo: "2 ^ (SCOUTFS_BUDDY_ORDERS g - 1) dvd SCOUTFS_BUDDY_ORDER0_BITS g"
      and top: "Suc k < SCOUTFS_BUDDY_ORDERS g"
      and range: "order_nr g k nr < order_off g (Suc k)"
      and clear: "\<not> test_buddy_bit g bud k nr" "\<not> test_buddy_bit g bud k (nr XOR 1)"
      and first: "buddy_free_bits g ind bud k nr = (ind1, bud1)"
      and second: "buddy_free_bits g inda bud1 k (nr XOR 1) = (ind2, bud2)"
  shows "bud_bits bud2 =
           insert (order_nr g (merge_order g bud (Suc k) (drop_bit 1 nr))
                     (drop_bit (merge_order g bud (Suc k) (drop_bit 1 nr) - k) nr))
             (bud_bits bud -
                merged_buddies g (Suc k) (drop_bit 1 nr)
                  (merge_order g bud (Suc k) (drop_bit 1 nr)))"
proof -
  define j where "j = merge_order g bud (Suc k) (drop_bit 1 nr)"
  have k: "k < SCOUTFS_BUDDY_ORDERS g" using top by simp
  have range': "order_nr g k (nr XOR 1) < order_off g (Suc k)"
    using in_range_buddy[OF geo top range] .
  have xx: "(nr XOR 1) XOR 1 = nr" by (rule xor_one_twice)
  have half: "drop_bit 1 (nr XOR 1) = drop_bit 1 nr" by (rule xor_one_half)
  have stop1: "merge_order g bud k nr = k"
    using clear(2) by (subst merge_order.simps) simp
  have bits1: "bud_bits bud1 = insert (order_nr g k nr) (bud_bits bud)"
    using buddy_free_bits_exact[OF first geo k range] unfolding stop1
    by (simp add: merged_buddies_empty)
  have set1: "test_buddy_bit g bud1 k ((nr XOR 1) XOR 1)"
    unfolding xx using bits1 by (simp add: test_buddy_bit_def)
  have same: "test_buddy_bit g bud1 l m = test_buddy_bit g bud l m" if "Suc k \<le> l" for l m
  proof -
    have "k < l" using that by simp
    then have "order_nr g l m \<noteq> order_nr g k nr"
      using order_nr_distinct[OF _ range, of l m] by metis
    then show ?thesis unfolding test_buddy_bit_def bits1 by simp
  qed
  have k1: "k < SCOUTFS_BUDDY_ORDERS g - 1" using top by linarith
  have "merge_order g bud1 k (nr XOR 1) = merge_order g bud1 (Suc k) (drop_bit 1 (nr XOR 1))"
    by (subst merge_order.simps) (simp only: k1 set1 simp_thms if_True)
  also have "\<dots> = merge_order g bud1 (Suc k) (drop_bit 1 nr)" unfolding half ..
  also have "\<dots> = j" unfolding j_def using same by (rule merge_order_cong)
  finally have stop2: "merge_order g bud1 k (nr XOR 1) = j" .
  have lt: "k < j" using merge_order_bounds[of "Suc k" g bud "drop_bit 1 nr"] by (simp add: j_def)
  have pos: "drop_bit (j - k) (nr XOR 1) = drop_bit (j - k) nr"
  proof -
    have "drop_bit (j - k) (nr XOR 1) = drop_bit (j - Suc k) (drop_bit 1 (nr XOR 1))"
      using drop_bit_step[OF lt, of "nr XOR 1"] by simp
    also have "\<dots> = drop_bit (j - Suc k) (drop_bit 1 nr)" unfolding half ..
    also have "\<dots> = drop_bit (j - k) nr" using drop_bit_step[OF lt, of nr] by simp
    finally show ?thesis .
  qed
  have cleared: "merged_buddies g k (nr XOR 1) j =
                   insert (order_nr g k nr) (merged_buddies g (Suc k) (drop_bit 1 nr) j)"
    unfolding merged_buddies_step[OF lt] xx half ..
  have notin: "order_nr g k nr \<notin> bud_bits bud" using clear(1) by (simp add: test_buddy_bit_def)
  have "bud_bits bud2 =
          insert (order_nr g j (drop_bit (j - k) nr))
            (bud_bits bud1 - merged_buddies g k (nr XOR 1) j)"
    using buddy_free_bits_exact[OF second geo k range'] unfolding stop2 pos .
  also have "bud_bits bud1 - merged_buddies g k (nr XOR 1) j =
             bud_bits bud - merged_buddies g (Suc k) (drop_bit 1 nr) j"
    unfolding bits1 cleared using notin by blast
  finally show ?thesis unfolding j_def .
qed


lemma buddy_free_bits_both_merge:
  assumes geo: "2 ^ (SCOUTFS_BUDDY_ORDERS g - 1) dvd SCOUTFS_BUDDY_ORDER0_BITS g"
      and top: "Suc k < SCOUTFS_BUDDY_ORDERS g"
      and range: "order_nr g k nr < order_off g (Suc k)"
      and clear: "\<not> test_buddy_bit g bud k nr" "\<not> test_buddy_bit g bud k (nr XOR 1)"
      and first: "buddy_free_bits g ind bud k nr = (ind1, bud1)"
      and second: "buddy_free_bits g inda bud1 k (nr XOR 1) = (ind2, bud2)"
      and j: "j = merge_order g bud (Suc k) (drop_bit 1 nr)"
  shows "Suc k \<le> j \<and> j < SCOUTFS_BUDDY_ORDERS g \<and>
         (\<forall>l. Suc k \<le> l \<and> l < j \<longrightarrow>
              test_buddy_bit g bud l (drop_bit (l - k) nr XOR 1) \<and>
              \<not> test_buddy_bit g bud2 l (drop_bit (l - k) nr XOR 1)) \<and>
         (Suc j < SCOUTFS_BUDDY_ORDERS g \<longrightarrow>
            \<not> test_buddy_bit g bud j (drop_bit (j - k) nr XOR 1)) \<and>
         bud_bits bud2 =
           insert (order_nr g j (drop_bit (j - k) nr))
             (bud_bits bud - merged_buddies g (Suc k) (drop_bit 1 nr) j) \<and>
         \<not> test_buddy_bit g bud2 k nr \<and> \<not> test_buddy_bit g bud2 k (nr XOR 1) \<and>
         test_buddy_bit g bud2 j (drop_bit (j - k) nr) \<and>
         (j = Suc k \<longleftrightarrow>
            Suc (Suc k) = SCOUTFS_BUDDY_ORDERS g \<or>
            \<not> test_buddy_bit g bud (Suc k) (drop_bit 1 nr XOR 1))"
proof -
  note b = merge_order_bounds[of "Suc k" g bud "drop_bit 1 nr", folded j]
  have le: "Suc k \<le> j" and lt: "j < SCOUTFS_BUDDY_ORDERS g" using b top by blast+
  have kj: "k < j" using le by simp
  have bits: "bud_bits bud2 =
           insert (order_nr g j (drop_bit (j - k) nr))
             (bud_bits bud - merged_buddies g (Suc k) (drop_bit 1 nr) j)"
    using buddy_free_bits_both_exact[OF geo top range clear first second] unfolding j .
  have range': "order_nr g k (nr XOR 1) < order_off g (Suc k)"
    using in_range_buddy[OF geo top range] .
  have were: "test_buddy_bit g bud l (drop_bit (l - k) nr XOR 1)" if "Suc k \<le> l" "l < j" for l
  proof -
    have kl: "k < l" using that(1) by simp
    have "test_buddy_bit g bud l (drop_bit (l - Suc k) (drop_bit 1 nr) XOR 1)"
      using b that by blast
    then show ?thesis unfolding drop_bit_step[OF kl] .
  qed
  have now: "\<not> test_buddy_bit g bud2 l (drop_bit (l - k) nr XOR 1)" if "Suc k \<le> l" "l < j" for l
  proof -
    have kl: "k < l" and l: "Suc l < SCOUTFS_BUDDY_ORDERS g" using that lt by simp_all
    have "order_nr g l (drop_bit (l - k) nr) < order_off g (Suc l)"
      using in_range_path[OF geo range, of l] kl l by simp
    from in_range_buddy[OF geo l this]
    have r: "order_nr g l (drop_bit (l - k) nr XOR 1) < order_off g (Suc l)" .
    have ne: "order_nr g l (drop_bit (l - k) nr XOR 1) \<noteq> order_nr g j (drop_bit (j - k) nr)"
      using order_nr_distinct[OF that(2) r] .
    have "order_nr g l (drop_bit (l - Suc k) (drop_bit 1 nr) XOR 1) \<in>
            merged_buddies g (Suc k) (drop_bit 1 nr) j"
      unfolding merged_buddies_member using that by blast
    then have "order_nr g l (drop_bit (l - k) nr XOR 1) \<in>
                 merged_buddies g (Suc k) (drop_bit 1 nr) j"
      unfolding drop_bit_step[OF kl] .
    then show ?thesis unfolding test_buddy_bit_def bits using ne by simp
  qed
  have stop: "Suc j < SCOUTFS_BUDDY_ORDERS g \<longrightarrow>
                \<not> test_buddy_bit g bud j (drop_bit (j - k) nr XOR 1)"
    using b unfolding drop_bit_step[OF kj] by blast
  have c1: "\<not> test_buddy_bit g bud2 k nr"
    using clear(1) order_nr_distinct[OF kj range, of "drop_bit (j - k) nr"]
    unfolding test_buddy_bit_def bits by simp
  have c2: "\<not> test_buddy_bit g bud2 k (nr XOR 1)"
    using clear(2) order_nr_distinct[OF kj range', of "drop_bit (j - k) nr"]
    unfolding test_buddy_bit_def bits by simp
  have set: "test_buddy_bit g bud2 j (drop_bit (j - k) nr)"
    unfolding test_buddy_bit_def bits by simp
  have parent: "j = Suc k \<longleftrightarrow>
            Suc (Suc k) = SCOUTFS_BUDDY_ORDERS g \<or>
            \<not> test_buddy_bit g bud (Suc k) (drop_bit 1 nr XOR 1)"
  proof
    assume "j = Suc k"
    then show "Suc (Suc k) = SCOUTFS_BUDDY_ORDERS g \<or>
            \<not> test_buddy_bit g bud (Suc k) (drop_bit 1 nr XOR 1)"
      using stop top by (cases "Suc (Suc k) = SCOUTFS_BUDDY_ORDERS g") auto
  next
    assume a: "Suc (Suc k) = SCOUTFS_BUDDY_ORDERS g \<or>
            \<not> test_buddy_bit g bud (Suc k) (drop_bit 1 nr XOR 1)"
    show "j = Suc k"
    proof (rule ccontr)
      assume "j \<noteq> Suc k"
      then have "Suc k < j" using le by simp
      then have "test_buddy_bit g bud (Suc k) (drop_bit (Suc k - k) nr XOR 1)"
            and "Suc (Suc k) < SCOUTFS_BUDDY_ORDERS g"
        using were[of "Suc k"] lt by simp_all
      then show False using a by simp
    qed
  qed
  show ?thesis using le lt were now stop bits c1 c2 set parent by blast
qed

text \<open>
  C6, as the code has it. \<open>buddy_free (blkno, k)\<close> runs the merge loop from
  \<open>nr = buddy_bit (blkno) >> k\<close> and sets the bit where the loop stops. When both
  buddies of an order \<open>k\<close> below the highest are allocated and then freed one after
  the other, the merge goes from their parent up to the order \<open>j\<close> (\<open>merge_order\<close>), the
  first order above \<open>k\<close> that is the highest or at which the buddy of their ancestor
  was not free. Below \<open>j\<close> the buddies of the ancestors were free and their bits are
  cleared; at \<open>j\<close> the bit of the ancestor is set; the bits of both children are clear;
  no other bit of the block changes. The parent bit is the one that is set exactly
  when \<open>j\<close> is the parent's order: when the parent has the highest order or its own
  buddy was not free.
\<close>

theorem buddy_free_merges_both_buddies:
  assumes geo: "2 ^ (SCOUTFS_BUDDY_ORDERS g - 1) dvd SCOUTFS_BUDDY_ORDER0_BITS g"
      and top: "Suc k < SCOUTFS_BUDDY_ORDERS g"
      and first: "buddy_free g s b (int k) = (Inr (), s1)"
      and second: "buddy_free g s1 b' (int k) = (Inr (), s2)"
      and same_slot: "indirect_slot g (super s) b' = indirect_slot g (super s) b"
      and buddies: "drop_bit k (buddy_bit g (super s) b') =
                    drop_bit k (buddy_bit g (super s) b) XOR 1"
      and ind: "dirty_ind s (ref_blkno (buddy_ind_ref (super s))) = Some ind"
      and bud: "dirty_bud s (ref_blkno (slot_ref (slots ind (indirect_slot g (super s) b)))) =
                  Some bud"
      and range: "order_nr g k (drop_bit k (buddy_bit g (super s) b)) < order_off g (Suc k)"
      and allocated: "\<not> test_buddy_bit g bud k (drop_bit k (buddy_bit g (super s) b))"
                     "\<not> test_buddy_bit g bud k (drop_bit k (buddy_bit g (super s) b'))"
      and nr: "nr = drop_bit k (buddy_bit g (super s) b)"
      and j: "j = merge_order g bud (Suc k) (drop_bit 1 nr)"
  shows "\<exists>bud2.
           dirty_bud s2 (ref_blkno (slot_ref (slots ind (indirect_slot g (super s) b)))) =
             Some bud2 \<and>
           Suc k \<le> j \<and> j < SCOUTFS_BUDDY_ORDERS g \<and>
           (\<forall>l. Suc k \<le> l \<and> l < j \<longrightarrow>
                test_buddy_bit g bud l (drop_bit (l - k) nr XOR 1) \<and>
                \<not> test_buddy_bit g bud2 l (drop_bit (l - k) nr XOR 1)) \<and>
           (Suc j < SCOUTFS_BUDDY_ORDERS g \<longrightarrow>
              \<not> test_buddy_bit g bud j (drop_bit (j - k) nr XOR 1)) \<and>
           bud_bits bud2 =
             insert (order_nr g j (drop_bit (j - k) nr))
               (bud_bits bud - merged_buddies g (Suc k) (drop_bit 1 nr) j) \<and>
           \<not> test_buddy_bit g bud2 k nr \<and> \<not> test_buddy_bit g bud2 k (nr XOR 1) \<and>
           test_buddy_bit g bud2 j (drop_bit (j - k) nr) \<and>
           (j = Suc k \<longleftrightarrow>
              Suc (Suc k) = SCOUTFS_BUDDY_ORDERS g \<or>
              \<not> test_buddy_bit g bud (Suc k) (drop_bit 1 nr XOR 1))"
proof -
  define sl where "sl = indirect_slot g (super s) b"
  define ki where "ki = ref_blkno (buddy_ind_ref (super s))"
  define kb where "kb = ref_blkno (slot_ref (slots ind sl))"
  from buddy_free_ok[OF first] ind bud obtain ind1 bud1 where
    bits1: "buddy_free_bits g ind bud k nr = (ind1, bud1)" and
    s1: "s1 = s\<lparr>dirty_ind := (dirty_ind s)
                 (ki \<mapsto> ind1\<lparr>slots := (slots ind1)
                       (sl := update_free_orders g (slots ind1 sl) bud1)\<rparr>),
              dirty_bud := (dirty_bud s)(kb \<mapsto> bud1)\<rparr>"
    unfolding sl_def nr ki_def kb_def by auto
  have sup1: "super s1 = super s" using s1 by simp
  have slots1: "slots ind1 = slots ind"
    using buddy_free_bits_result[OF bits1] by auto
  define inda where "inda = ind1\<lparr>slots := (slots ind1)
                       (sl := update_free_orders g (slots ind1 sl) bud1)\<rparr>"
  have inda: "dirty_ind s1 (ref_blkno (buddy_ind_ref (super s1))) = Some inda"
    using s1 sup1 by (simp add: ki_def inda_def)
  have ref_a: "slot_ref (slots inda sl) = slot_ref (slots ind sl)"
    using slots1 by (simp add: inda_def update_free_orders_def)
  have sl': "indirect_slot g (super s1) b' = sl"
    using same_slot sup1 by (simp add: sl_def)
  have bud1: "dirty_bud s1 (ref_blkno (slot_ref (slots inda
                 (indirect_slot g (super s1) b')))) = Some bud1"
    using s1 ref_a sl' by (simp add: kb_def)
  have nr': "drop_bit k (buddy_bit g (super s1) b') = nr XOR 1"
    using buddies sup1 by (simp add: nr)
  from buddy_free_ok[OF second] inda bud1 obtain ind2 bud2 where
    bits2: "buddy_free_bits g inda bud1 k (nr XOR 1) = (ind2, bud2)" and
    s2: "dirty_bud s2 = (dirty_bud s1)(kb \<mapsto> bud2)"
    using sl' ref_a nr' unfolding kb_def by auto
  have clear: "\<not> test_buddy_bit g bud k nr" "\<not> test_buddy_bit g bud k (nr XOR 1)"
    using allocated buddies unfolding nr by simp_all
  note res = buddy_free_bits_both_merge
    [OF geo top range[folded nr] clear bits1 bits2 j]
  have "dirty_bud s2 kb = Some bud2" using s2 by simp
  then show ?thesis
    using res unfolding kb_def sl_def by blast
qed

text \<open>
  Blocks 8 and 9 are allocated, blocks 10 and 11 are free at order 1: the parent of
  blocks 8 and 9 has a free buddy.
\<close>

definition ind_right :: buddy_indirect where
  "ind_right = ind_small (slot_small 5 2) (slot_small 0 0) ((\<lambda>_. 0)(1 := 1))"

definition bud_right :: buddy_block where
  "bud_right = bud_small 5 {5} ((\<lambda>_. 0)(1 := 1))"

definition sb_right :: sb_info where
  "sb_right = sb_views ind_right [5 \<mapsto> bud_right] ind_right [5 \<mapsto> bud_right]"

theorem buddy_free_merges_both_buddies_witness:
  "\<exists>bud2.
     dirty_bud (snd (buddy_free g_small (snd (buddy_free g_small sb_right 8 (int 0))) 9 (int 0)))
       (ref_blkno (slot_ref (slots ind_right (indirect_slot g_small (super sb_right) 8)))) =
       Some bud2 \<and>
     Suc 0 \<le> (2::nat) \<and> (2::nat) < SCOUTFS_BUDDY_ORDERS g_small \<and>
     (\<forall>l. Suc 0 \<le> l \<and> l < 2 \<longrightarrow>
          test_buddy_bit g_small bud_right l (drop_bit (l - 0) 0 XOR 1) \<and>
          \<not> test_buddy_bit g_small bud2 l (drop_bit (l - 0) 0 XOR 1)) \<and>
     (Suc 2 < SCOUTFS_BUDDY_ORDERS g_small \<longrightarrow>
        \<not> test_buddy_bit g_small bud_right 2 (drop_bit (2 - 0) 0 XOR 1)) \<and>
     bud_bits bud2 =
       insert (order_nr g_small 2 (drop_bit (2 - 0) 0))
         (bud_bits bud_right - merged_buddies g_small (Suc 0) (drop_bit 1 0) 2) \<and>
     \<not> test_buddy_bit g_small bud2 0 0 \<and> \<not> test_buddy_bit g_small bud2 0 (0 XOR 1) \<and>
     test_buddy_bit g_small bud2 2 (drop_bit (2 - 0) 0) \<and>
     ((2::nat) = Suc 0 \<longleftrightarrow>
        Suc (Suc 0) = SCOUTFS_BUDDY_ORDERS g_small \<or>
        \<not> test_buddy_bit g_small bud_right (Suc 0) (drop_bit 1 0 XOR 1)) \<and>
     bud_bits bud2 = {6}"
proof -
  define s1 where "s1 = snd (buddy_free g_small sb_right 8 (int 0))"
  define s2 where "s2 = snd (buddy_free g_small s1 9 (int 0))"
  have "fst (buddy_free g_small sb_right 8 (int 0)) = Inr ()" by code_simp
  then have first: "buddy_free g_small sb_right 8 (int 0) = (Inr (), s1)"
    unfolding s1_def by (metis prod.collapse)
  have "fst (buddy_free g_small (snd (buddy_free g_small sb_right 8 (int 0))) 9 (int 0)) = Inr ()"
    by code_simp
  then have second: "buddy_free g_small s1 9 (int 0) = (Inr (), s2)"
    unfolding s1_def s2_def by (metis prod.collapse)
  have geo: "2 ^ (SCOUTFS_BUDDY_ORDERS g_small - 1) dvd SCOUTFS_BUDDY_ORDER0_BITS g_small"
    by (simp add: g_small_def)
  have top: "Suc 0 < SCOUTFS_BUDDY_ORDERS g_small" by (simp add: g_small_def)
  have same_slot: "indirect_slot g_small (super sb_right) 9 = indirect_slot g_small (super sb_right) 8"
    by code_simp
  have buddies: "drop_bit 0 (buddy_bit g_small (super sb_right) 9) =
                 drop_bit 0 (buddy_bit g_small (super sb_right) 8) XOR 1"
    by code_simp
  have ind: "dirty_ind sb_right (ref_blkno (buddy_ind_ref (super sb_right))) = Some ind_right"
    by (simp add: sb_right_def sb_views_def sb_empty_def super_small_def)
  have slot: "ref_blkno (slot_ref (slots ind_right (indirect_slot g_small (super sb_right) 8))) = 5"
    by code_simp
  have bud: "dirty_bud sb_right
      (ref_blkno (slot_ref (slots ind_right (indirect_slot g_small (super sb_right) 8)))) =
      Some bud_right"
    unfolding slot by (simp add: sb_right_def sb_views_def sb_empty_def)
  have range: "order_nr g_small 0 (drop_bit 0 (buddy_bit g_small (super sb_right) 8)) <
                 order_off g_small (Suc 0)"
    by code_simp
  have allocated: "\<not> test_buddy_bit g_small bud_right 0 (drop_bit 0 (buddy_bit g_small (super sb_right) 8))"
      "\<not> test_buddy_bit g_small bud_right 0 (drop_bit 0 (buddy_bit g_small (super sb_right) 9))"
    by code_simp+
  have nr: "(0::nat) = drop_bit 0 (buddy_bit g_small (super sb_right) 8)" by code_simp
  have j: "(2::nat) = merge_order g_small bud_right (Suc 0) (drop_bit 1 0)" by code_simp
  have m: "merged_buddies g_small (Suc 0) (drop_bit 1 0) 2 = {5}" by code_simp
  have p: "order_nr g_small 2 (drop_bit (2 - 0) 0) = 6" by code_simp
  have bits: "insert (order_nr g_small 2 (drop_bit (2 - 0) 0))
                (bud_bits bud_right - merged_buddies g_small (Suc 0) (drop_bit 1 0) 2) = {6}"
    unfolding m p by (simp add: bud_right_def bud_small_def)
  from buddy_free_merges_both_buddies
    [OF geo top first second same_slot buddies ind bud range allocated nr j]
  show ?thesis unfolding s1_def s2_def using bits by auto
qed


text \<open>
  The claim as stated fails where the parent's buddy is free: after blocks 8 and 9
  (both buddies of order 0) are freed in \<open>sb_right\<close>, the bit of their parent (order
  1, position 0) is clear, because the merge went on to order 2.
\<close>

theorem buddy_free_parent_bit_counterexample:
  "fst (buddy_free g_small sb_right 8 0) = Inr () \<and>
   fst (buddy_free g_small (snd (buddy_free g_small sb_right 8 0)) 9 0) = Inr () \<and>
   dirty_bud (snd (buddy_free g_small (snd (buddy_free g_small sb_right 8 0)) 9 0)) 5 \<noteq> None \<and>
   bud_bits (the (dirty_bud
     (snd (buddy_free g_small (snd (buddy_free g_small sb_right 8 0)) 9 0)) 5)) = {6} \<and>
   \<not> test_buddy_bit g_small (the (dirty_bud
     (snd (buddy_free g_small (snd (buddy_free g_small sb_right 8 0)) 9 0)) 5)) 1 0"
  by code_simp

section \<open>The view in which an allocation is found\<close>

text \<open>
  \<open>slot_retries g s ind st_ind msk ord i sl\<close>: the loop of \<open>alloc_order\<close> over the slots,
  started at slot \<open>i\<close> with the state \<open>s\<close> and the indirect block \<open>ind\<close>, reaches slot
  \<open>sl\<close>: every slot before it was passed over or failed with \<open>ENOSPC\<close>, each attempt
  starting with what the previous one left; the result is the state and the indirect
  block with which slot \<open>sl\<close> is tried.
\<close>

function slot_retries ::
  "geometry \<Rightarrow> sb_info \<Rightarrow> buddy_indirect \<Rightarrow> buddy_indirect \<Rightarrow> 8 word \<Rightarrow> nat \<Rightarrow> nat \<Rightarrow> nat \<Rightarrow>
     (sb_info \<times> buddy_indirect) option" where
  "slot_retries g s ind st_ind msk ord i sl =
     (if i < sl then
        (if \<not> (msk AND free_orders (slots ind i) \<noteq> 0 \<and>
                msk AND free_orders (slots st_ind i) \<noteq> 0) then
           slot_retries g s ind st_ind msk ord (Suc i) sl
         else
           (case alloc_slot g s ind i (slot_ref (slots st_ind i)) ord of
              Some (Inl ENOSPC, s1, ind1) \<Rightarrow> slot_retries g s1 ind1 st_ind msk ord (Suc i) sl
            | _ \<Rightarrow> None))
      else if i = sl then Some (s, ind) else None)"
  by pat_completeness auto
termination
  by (relation "measure (\<lambda>(g, s, ind, st_ind, msk, ord, i, sl). sl - i)") auto

declare slot_retries.simps [simp del]

lemma slot_retries_dirty_only:
  "slot_retries g s ind st_ind msk ord i sl = Some (s1, ind1) \<Longrightarrow> dirty_only s s1"
proof (induction g s ind st_ind msk ord i sl rule: slot_retries.induct)
  case (1 g s ind st_ind msk ord i sl)
  show ?case
  proof (cases "i < sl")
    case False
    then show ?thesis using "1.prems"
      by (subst (asm) slot_retries.simps) (auto split: if_splits)
  next
    case True
    show ?thesis
    proof (cases "msk AND free_orders (slots ind i) \<noteq> 0 \<and>
                  msk AND free_orders (slots st_ind i) \<noteq> 0")
      case False
      then have "slot_retries g s ind st_ind msk ord (Suc i) sl = Some (s1, ind1)"
        using "1.prems" True by (subst (asm) slot_retries.simps) auto
      from "1.IH"(1)[OF True False this] show ?thesis .
    next
      case hints: True
      obtain sa inda where
        as: "alloc_slot g s ind i (slot_ref (slots st_ind i)) ord = Some (Inl ENOSPC, sa, inda)"
        and rest: "slot_retries g sa inda st_ind msk ord (Suc i) sl = Some (s1, ind1)"
        using "1.prems" True hints
        by (subst (asm) slot_retries.simps)
           (auto split: option.splits sum.splits errno.splits prod.splits)
      have nh: "\<not> \<not> (msk AND free_orders (slots ind i) \<noteq> 0 \<and>
                  msk AND free_orders (slots st_ind i) \<noteq> 0)" using hints by simp
      have "dirty_only s sa" using as by (rule alloc_slot_dirty_only)
      moreover have "dirty_only sa s1"
        using "1.IH"(2)[OF True nh as refl refl refl refl rest] .
      ultimately show ?thesis by (rule dirty_only_trans)
    qed
  qed
qed

lemma alloc_order_slots_found:
  assumes "alloc_order_slots g s ind st_ind msk ord i ret = Some (Inr blkno, s', ind')"
      and "ret = Inl e"
  shows "\<exists>sl s1 ind1. i \<le> sl \<and> sl < SCOUTFS_BUDDY_SLOTS g \<and>
           slot_retries g s ind st_ind msk ord i sl = Some (s1, ind1) \<and>
           alloc_slot g s1 ind1 sl (slot_ref (slots st_ind sl)) ord = Some (Inr blkno, s', ind')"
  using assms
proof (induction g s ind st_ind msk ord i ret arbitrary: e rule: alloc_order_slots.induct)
  case (1 g s ind st_ind msk ord i ret)
  show ?case
  proof (cases "i < SCOUTFS_BUDDY_SLOTS g")
    case False
    then show ?thesis using "1.prems" by (simp add: alloc_order_slots.simps)
  next
    case True
    show ?thesis
    proof (cases "msk AND free_orders (slots ind i) \<noteq> 0 \<and>
                  msk AND free_orders (slots st_ind i) \<noteq> 0")
      case False
      then have run: "alloc_order_slots g s ind st_ind msk ord (Suc i) (Inl ENOSPC) =
                   Some (Inr blkno, s', ind')"
        using "1.prems"(1) True by (subst (asm) alloc_order_slots.simps) auto
      from "1.IH"(1)[OF True False run refl] obtain sl s1 ind1 where
        r: "Suc i \<le> sl" "sl < SCOUTFS_BUDDY_SLOTS g"
           "slot_retries g s ind st_ind msk ord (Suc i) sl = Some (s1, ind1)"
           "alloc_slot g s1 ind1 sl (slot_ref (slots st_ind sl)) ord = Some (Inr blkno, s', ind')"
        by blast
      have "slot_retries g s ind st_ind msk ord i sl = Some (s1, ind1)"
        using r(1,3) False by (subst slot_retries.simps) auto
      then show ?thesis using r by (intro exI[of _ sl] exI[of _ s1] exI[of _ ind1]) simp
    next
      case hints: True
      obtain r1 sa inda where
        as: "alloc_slot g s ind i (slot_ref (slots st_ind i)) ord = Some (r1, sa, inda)"
        using "1.prems"(1) True hints
        by (subst (asm) alloc_order_slots.simps) (auto split: option.splits)
      show ?thesis
      proof (cases "r1 = Inl ENOSPC")
        case False
        then have "r1 = Inr blkno" "sa = s'" "inda = ind'" using "1.prems"(1) True hints as
          by (subst (asm) alloc_order_slots.simps, auto)+
        moreover have "slot_retries g s ind st_ind msk ord i i = Some (s, ind)"
          by (subst slot_retries.simps) simp
        ultimately show ?thesis using as True
          by (intro exI[of _ i] exI[of _ s] exI[of _ ind]) simp
      next
        case enospc: True
        then have run: "alloc_order_slots g sa inda st_ind msk ord (Suc i) r1 =
                     Some (Inr blkno, s', ind')"
          using "1.prems"(1) True hints as by (subst (asm) alloc_order_slots.simps) auto
        have nh: "\<not> \<not> (msk AND free_orders (slots ind i) \<noteq> 0 \<and>
                  msk AND free_orders (slots st_ind i) \<noteq> 0)" using hints by simp
        have nr: "\<not> r1 \<noteq> Inl ENOSPC" using enospc by simp
        from "1.IH"(2)[OF True nh as refl refl nr run enospc] obtain sl s1 ind1 where
          r: "Suc i \<le> sl" "sl < SCOUTFS_BUDDY_SLOTS g"
             "slot_retries g sa inda st_ind msk ord (Suc i) sl = Some (s1, ind1)"
             "alloc_slot g s1 ind1 sl (slot_ref (slots st_ind sl)) ord = Some (Inr blkno, s', ind')"
          by blast
        have "slot_retries g s ind st_ind msk ord i sl = Some (s1, ind1)"
          using r(1,3) hints as enospc by (subst slot_retries.simps) auto
        then show ?thesis using r by (intro exI[of _ sl] exI[of _ s1] exI[of _ ind1]) simp
      qed
    qed
  qed
qed

lemma alloc_slot_found:
  assumes "alloc_slot g s ind sl stable_ref ord = Some (Inr blkno, s', ind')"
  shows "\<exists>bud st nr found.
           fst (dirty_buddy_block g s ind sl) = Inr bud \<and>
           ref_blkno stable_ref \<noteq> 0 \<and> stable_bud s (ref_blkno stable_ref) = Some st \<and>
           find_first_fit g (super s) sl bud (Some st) ord = Some (nr, found) \<and>
           nr \<noteq> INT_MAX \<and> blkno = slot_buddy_blkno g (super s) sl found nr"
proof -
  obtain rb s1 ind1 where db: "dirty_buddy_block g s ind sl = (rb, s1, ind1)"
    by (cases "dirty_buddy_block g s ind sl") auto
  have fr: "dirty_only s s1" using db by (rule dirty_buddy_block_dirty_only)
  obtain bud where rb: "rb = Inr bud"
    using assms db by (cases rb) (auto simp: alloc_slot_def)
  define rd where "rd = (if ref_blkno stable_ref \<noteq> 0 then
                   (case scoutfs_block_read_ref (stable_bud s1) stable_ref of
                      Inl e \<Rightarrow> Inl e
                    | Inr st \<Rightarrow> Inr (Some st))
                 else Inr None)"
  have eq: "alloc_slot g s ind sl stable_ref ord =
      (case rd of
         Inl e \<Rightarrow> Some (Inl e, s1, ind1)
       | Inr st_bud \<Rightarrow>
           (case find_first_fit g (super s1) sl bud st_bud ord of
              None \<Rightarrow> None
            | Some (nr, found) \<Rightarrow>
                if nr = INT_MAX then Some (Inl ENOSPC, s1, ind1)
                else
                  (case clear_buddy_bit g ind1 bud found nr of
                     (ind2, bud2) \<Rightarrow>
                       (case free_right_buddies g ind2 bud2 ord found (push_bit 1 nr) of
                          (ind3, bud3) \<Rightarrow>
                            Some (Inr (slot_buddy_blkno g (super s1) sl found nr),
                                  s1\<lparr>dirty_bud := (dirty_bud s1)
                                       (ref_blkno (slot_ref (slots ind3 sl)) \<mapsto> bud3)\<rparr>,
                                  ind3\<lparr>slots := (slots ind3)
                                       (sl := update_free_orders g (slots ind3 sl) bud3)\<rparr>)))))"
    unfolding alloc_slot_def rd_def using db rb by simp
  obtain st_bud where rd_ok: "rd = Inr st_bud"
    using assms unfolding eq by (cases rd) auto
  obtain nr found where
    fit: "find_first_fit g (super s1) sl bud st_bud ord = Some (nr, found)"
    using assms rd_ok unfolding eq by (auto split: option.splits)
  have nr: "nr \<noteq> INT_MAX" and blkno: "blkno = slot_buddy_blkno g (super s1) sl found nr"
    using assms rd_ok fit unfolding eq by (auto split: if_splits prod.splits)
  from find_first_fit_sound[OF fit nr] obtain st where st: "st_bud = Some st" by blast
  have "ref_blkno stable_ref \<noteq> 0 \<and> stable_bud s1 (ref_blkno stable_ref) = Some st"
    using rd_ok st unfolding rd_def
    by (auto simp: scoutfs_block_read_ref_def split: if_splits option.splits sum.splits)
  then show ?thesis
    using db rb fit nr blkno st dirty_only_fields[OF fr] by auto
qed

lemma alloc_order_found:
  assumes "alloc_order g s ord = Some (Inr blkno, s')"
  shows "\<exists>ind st_ind sl s1 ind1 s2 ind2.
           dirty_ind s (ref_blkno (buddy_ind_ref (super s))) = Some ind \<and>
           stable_ind s (ref_blkno (buddy_ind_ref (stable_super s))) = Some st_ind \<and>
           sl < SCOUTFS_BUDDY_SLOTS g \<and>
           slot_retries g s ind st_ind (ucast (push_bit ord (- 1 :: 32 word))) ord 0 sl =
             Some (s1, ind1) \<and>
           alloc_slot g s1 ind1 sl (slot_ref (slots st_ind sl)) ord = Some (Inr blkno, s2, ind2)"
proof -
  have refs: "\<not> (ref_blkno (buddy_ind_ref (super s)) = 0 \<or>
                 ref_blkno (buddy_ind_ref (stable_super s)) = 0)"
    using assms by (auto simp: alloc_order_def split: if_splits)
  obtain ind where ind: "dirty_ind s (ref_blkno (buddy_ind_ref (super s))) = Some ind"
    using assms refs unfolding alloc_order_def scoutfs_block_dirty_ref_def
    by (cases "dirty_ind s (ref_blkno (buddy_ind_ref (super s)))") auto
  have rd: "scoutfs_block_dirty_ref (dirty_ind s) (buddy_ind_ref (super s)) = Inr ind"
    using ind by (simp add: scoutfs_block_dirty_ref_def)
  obtain st_ind where
    st: "stable_ind s (ref_blkno (buddy_ind_ref (stable_super s))) = Some st_ind"
    using assms refs rd unfolding alloc_order_def scoutfs_block_read_ref_def
    by (cases "stable_ind s (ref_blkno (buddy_ind_ref (stable_super s)))") auto
  have rs: "scoutfs_block_read_ref (stable_ind s) (buddy_ind_ref (stable_super s)) = Inr st_ind"
    using st by (simp add: scoutfs_block_read_ref_def)
  obtain s2 ind2 where
    run: "alloc_order_slots g s ind st_ind (ucast (push_bit ord (- 1 :: 32 word))) ord 0
            (Inl ENOSPC) = Some (Inr blkno, s2, ind2)"
    using assms refs unfolding alloc_order_def rd rs
    by (auto split: option.splits)
  from alloc_order_slots_found[OF run refl] ind st show ?thesis by blast
qed

lemma buddy_alloc_found:
  assumes "buddy_alloc g s req = Some (Inr (blkno, granted), s')"
  shows "\<exists>sa ind st_ind sl s1 ind1 bud st nr found.
      order_retries g s (nat req) granted = Some sa \<and>
      dirty_ind sa (ref_blkno (buddy_ind_ref (super s))) = Some ind \<and>
      stable_ind s (ref_blkno (buddy_ind_ref (stable_super s))) = Some st_ind \<and>
      sl < SCOUTFS_BUDDY_SLOTS g \<and>
      slot_retries g sa ind st_ind (ucast (push_bit granted (- 1 :: 32 word))) granted 0 sl =
        Some (s1, ind1) \<and>
      fst (dirty_buddy_block g s1 ind1 sl) = Inr bud \<and>
      ref_blkno (slot_ref (slots st_ind sl)) \<noteq> 0 \<and>
      stable_bud s (ref_blkno (slot_ref (slots st_ind sl))) = Some st \<and>
      find_first_fit g (super s) sl bud (Some st) granted = Some (nr, found) \<and>
      nr \<noteq> INT_MAX \<and> blkno = slot_buddy_blkno g (super s) sl found nr"
proof -
  from assms have "buddy_alloc_orders g s (nat req) = Some (Inr (blkno, granted), s')"
    by (auto simp: buddy_alloc_def split: if_splits)
  from buddy_alloc_orders_success[OF this] obtain sa where
    retries: "order_retries g s (nat req) granted = Some sa" and
    ao: "alloc_order g sa granted = Some (Inr blkno, s')" by blast
  note fa = dirty_only_fields[OF order_retries_dirty_only[OF retries]]
  from alloc_order_found[OF ao] obtain ind st_ind sl s1 ind1 s2 ind2 where
    f: "dirty_ind sa (ref_blkno (buddy_ind_ref (super sa))) = Some ind"
       "stable_ind sa (ref_blkno (buddy_ind_ref (stable_super sa))) = Some st_ind"
       "sl < SCOUTFS_BUDDY_SLOTS g"
       "slot_retries g sa ind st_ind (ucast (push_bit granted (- 1 :: 32 word))) granted 0 sl =
          Some (s1, ind1)"
       "alloc_slot g s1 ind1 sl (slot_ref (slots st_ind sl)) granted = Some (Inr blkno, s2, ind2)"
    by blast
  note f1 = dirty_only_fields[OF slot_retries_dirty_only[OF f(4)]]
  from alloc_slot_found[OF f(5)] obtain bud st nr found where
    a: "fst (dirty_buddy_block g s1 ind1 sl) = Inr bud"
       "ref_blkno (slot_ref (slots st_ind sl)) \<noteq> 0"
       "stable_bud s1 (ref_blkno (slot_ref (slots st_ind sl))) = Some st"
       "find_first_fit g (super s1) sl bud (Some st) granted = Some (nr, found)"
       "nr \<noteq> INT_MAX" "blkno = slot_buddy_blkno g (super s1) sl found nr"
    by blast
  show ?thesis
    using retries f(1,2,3,4) a unfolding f1 fa
    by (intro exI[of _ sa] exI[of _ ind] exI[of _ st_ind] exI[of _ sl] exI[of _ s1]
              exI[of _ ind1] exI[of _ bud] exI[of _ st] exI[of _ nr] exI[of _ found]) simp
qed


lemma test_buddy_bit_or_higher_block:
  assumes "test_buddy_bit_or_higher g b k nr" "drop_bit k x = nr"
  shows "test_buddy_bit_or_higher g b 0 x"
proof -
  from assms(1) obtain j where
    j: "k \<le> j" "j < SCOUTFS_BUDDY_ORDERS g" "test_buddy_bit g b j (drop_bit (j - k) nr)"
    unfolding test_buddy_bit_or_higher_iff by blast
  have "drop_bit (j - k) nr = drop_bit j x"
    unfolding assms(2)[symmetric] using j(1) by simp
  then have "test_buddy_bit g b j (drop_bit (j - 0) x)" using j(3) by simp
  then show ?thesis using j(2) unfolding test_buddy_bit_or_higher_iff by blast
qed

section \<open>Every allocation is free in both views\<close>

text \<open>
  C1. A bit that \<open>find_first_fit\<close> returns is set in the dirty buddy block at the
  returned order, and the stable buddy block has a free extent of that order or a
  higher one covering it; with no stable buddy block nothing is returned. A block
  that \<open>bitmap_alloc\<close> returns is \<open>BM_BLKNO + BM_NR + d\<close> for an index \<open>d\<close> set in
  both the dirty and the stable self-host bitmap. A block that \<open>buddy_alloc\<close>
  returns was found by \<open>find_first_fit\<close> at the granted order, in the slot \<open>sl\<close> that
  the loop of \<open>alloc_order\<close> had reached (\<open>order_retries\<close>, \<open>slot_retries\<close>): in the dirty
  buddy block \<open>bud\<close> that \<open>dirty_buddy_block\<close> gives for that slot at that moment, and in
  the stable buddy block \<open>st\<close> of that slot. It is the first block of the extent \<open>nr\<close>
  of order \<open>found\<close>; the bit of this extent is set in \<open>bud\<close>, the extent is free in \<open>st\<close>,
  and so every block of it is free in both views: it overlaps nothing that either
  view has allocated.
\<close>

theorem allocations_free_in_both_views:
  "(find_first_fit g sb sl bud st_bud ord = Some (nr, found) \<and> nr \<noteq> INT_MAX \<longrightarrow>
      test_buddy_bit g bud found nr \<and>
      (\<exists>st. st_bud = Some st \<and> test_buddy_bit_or_higher g st found nr)) \<and>
   (bitmap_alloc g s = (Inr b, s1) \<longrightarrow>
      (\<exists>bm st_bm d.
         dirty_bm s (ref_blkno (buddy_bm_ref (super s))) = Some bm \<and>
         stable_bm s (ref_blkno (buddy_bm_ref (stable_super s))) = Some st_bm \<and>
         b = SCOUTFS_BUDDY_BM_BLKNO g + SCOUTFS_BUDDY_BM_NR g + d \<and>
         d < buddy_blocks (super s) \<and> d \<in> bm \<and> d \<in> st_bm)) \<and>
   (buddy_alloc g s req = Some (Inr (blkno, granted), s') \<longrightarrow>
      (\<exists>sa ind st_ind slot sf indf budf stf nrf foundf.
         order_retries g s (nat req) granted = Some sa \<and>
         dirty_ind sa (ref_blkno (buddy_ind_ref (super s))) = Some ind \<and>
         stable_ind s (ref_blkno (buddy_ind_ref (stable_super s))) = Some st_ind \<and>
         slot < SCOUTFS_BUDDY_SLOTS g \<and>
         slot_retries g sa ind st_ind (ucast (push_bit granted (- 1 :: 32 word))) granted 0 slot =
           Some (sf, indf) \<and>
         fst (dirty_buddy_block g sf indf slot) = Inr budf \<and>
         ref_blkno (slot_ref (slots st_ind slot)) \<noteq> 0 \<and>
         stable_bud s (ref_blkno (slot_ref (slots st_ind slot))) = Some stf \<and>
         find_first_fit g (super s) slot budf (Some stf) granted = Some (nrf, foundf) \<and>
         nrf \<noteq> INT_MAX \<and> blkno = slot_buddy_blkno g (super s) slot foundf nrf \<and>
         test_buddy_bit g budf foundf nrf \<and> test_buddy_bit_or_higher g stf foundf nrf \<and>
         (\<forall>x. drop_bit foundf x = nrf \<longrightarrow>
              test_buddy_bit_or_higher g budf 0 x \<and> test_buddy_bit_or_higher g stf 0 x)))"
proof -
  have first_fit: "find_first_fit g sb sl bud st_bud ord = Some (nr, found) \<and> nr \<noteq> INT_MAX \<longrightarrow>
      test_buddy_bit g bud found nr \<and>
      (\<exists>st. st_bud = Some st \<and> test_buddy_bit_or_higher g st found nr)"
    using find_first_fit_sound[of g sb sl bud st_bud ord nr found] by simp
  have bitmap: "\<exists>bm st_bm d.
         dirty_bm s (ref_blkno (buddy_bm_ref (super s))) = Some bm \<and>
         stable_bm s (ref_blkno (buddy_bm_ref (stable_super s))) = Some st_bm \<and>
         b = SCOUTFS_BUDDY_BM_BLKNO g + SCOUTFS_BUDDY_BM_NR g + d \<and>
         d < buddy_blocks (super s) \<and> d \<in> bm \<and> d \<in> st_bm"
    if ba: "bitmap_alloc g s = (Inr b, s1)"
  proof -
  from ba obtain bm st_bm where
    bm: "dirty_bm s (ref_blkno (buddy_bm_ref (super s))) = Some bm" and
    st: "stable_bm s (ref_blkno (buddy_bm_ref (stable_super s))) = Some st_bm"
    by (auto simp: bitmap_alloc_def scoutfs_block_dirty_ref_def scoutfs_block_read_ref_def
             split: if_splits option.splits)
  define d where "d = bitmap_alloc_scan bm st_bm (buddy_blocks (super s)) 0"
  have res: "d < buddy_blocks (super s)"
      "b = SCOUTFS_BUDDY_BM_BLKNO g + SCOUTFS_BUDDY_BM_NR g + d"
    using ba bm st
    by (auto simp: bitmap_alloc_def scoutfs_block_dirty_ref_def scoutfs_block_read_ref_def
                   Let_def d_def split: if_splits)
  have "d \<in> bm \<and> d \<in> st_bm"
    using res(1) unfolding d_def by (rule bitmap_alloc_scan_both)
  then show ?thesis
    using bm st res by blast
  qed
  have buddy: "\<exists>sa ind st_ind slot sf indf budf stf nrf foundf.
         order_retries g s (nat req) granted = Some sa \<and>
         dirty_ind sa (ref_blkno (buddy_ind_ref (super s))) = Some ind \<and>
         stable_ind s (ref_blkno (buddy_ind_ref (stable_super s))) = Some st_ind \<and>
         slot < SCOUTFS_BUDDY_SLOTS g \<and>
         slot_retries g sa ind st_ind (ucast (push_bit granted (- 1 :: 32 word))) granted 0 slot =
           Some (sf, indf) \<and>
         fst (dirty_buddy_block g sf indf slot) = Inr budf \<and>
         ref_blkno (slot_ref (slots st_ind slot)) \<noteq> 0 \<and>
         stable_bud s (ref_blkno (slot_ref (slots st_ind slot))) = Some stf \<and>
         find_first_fit g (super s) slot budf (Some stf) granted = Some (nrf, foundf) \<and>
         nrf \<noteq> INT_MAX \<and> blkno = slot_buddy_blkno g (super s) slot foundf nrf \<and>
         test_buddy_bit g budf foundf nrf \<and> test_buddy_bit_or_higher g stf foundf nrf \<and>
         (\<forall>x. drop_bit foundf x = nrf \<longrightarrow>
              test_buddy_bit_or_higher g budf 0 x \<and> test_buddy_bit_or_higher g stf 0 x)"
    if ok: "buddy_alloc g s req = Some (Inr (blkno, granted), s')"
  proof -
    from buddy_alloc_found[OF ok] obtain sa ind st_ind slot sf indf budf stf nrf foundf where
      f: "order_retries g s (nat req) granted = Some sa"
         "dirty_ind sa (ref_blkno (buddy_ind_ref (super s))) = Some ind"
         "stable_ind s (ref_blkno (buddy_ind_ref (stable_super s))) = Some st_ind"
         "slot < SCOUTFS_BUDDY_SLOTS g"
         "slot_retries g sa ind st_ind (ucast (push_bit granted (- 1 :: 32 word))) granted 0 slot =
            Some (sf, indf)"
         "fst (dirty_buddy_block g sf indf slot) = Inr budf"
         "ref_blkno (slot_ref (slots st_ind slot)) \<noteq> 0"
         "stable_bud s (ref_blkno (slot_ref (slots st_ind slot))) = Some stf"
         "find_first_fit g (super s) slot budf (Some stf) granted = Some (nrf, foundf)"
         "nrf \<noteq> INT_MAX" "blkno = slot_buddy_blkno g (super s) slot foundf nrf"
      by blast
    from find_first_fit_sound[OF f(9,10)] have
      snd: "foundf < SCOUTFS_BUDDY_ORDERS g" "test_buddy_bit g budf foundf nrf"
           "test_buddy_bit_or_higher g stf foundf nrf"
      by auto
    have "test_buddy_bit g budf foundf (drop_bit (foundf - foundf) nrf)" using snd(2) by simp
    then have hi: "test_buddy_bit_or_higher g budf foundf nrf"
      using snd(1) by (intro test_buddy_bit_or_higher_above[of foundf foundf]) auto
    have blocks: "\<forall>x. drop_bit foundf x = nrf \<longrightarrow>
              test_buddy_bit_or_higher g budf 0 x \<and> test_buddy_bit_or_higher g stf 0 x"
      using test_buddy_bit_or_higher_block[OF hi] test_buddy_bit_or_higher_block[OF snd(3)]
      by blast
    show ?thesis
      using f snd(2,3) blocks
      by (intro exI[of _ sa] exI[of _ ind] exI[of _ st_ind] exI[of _ slot] exI[of _ sf]
                exI[of _ indf] exI[of _ budf] exI[of _ stf] exI[of _ nrf] exI[of _ foundf]) simp
  qed
  show ?thesis using first_fit bitmap buddy by blast
qed

theorem allocations_free_in_both_views_witness:
  "(test_buddy_bit g_small bud_split 0 1 \<and>
      (\<exists>st. Some bud_whole = Some st \<and> test_buddy_bit_or_higher g_small st 0 1)) \<and>
   (\<exists>bm st_bm d.
      dirty_bm (sb_bitmaps {0, 1, 3} {1, 2, 3})
        (ref_blkno (buddy_bm_ref (super (sb_bitmaps {0, 1, 3} {1, 2, 3})))) = Some bm \<and>
      stable_bm (sb_bitmaps {0, 1, 3} {1, 2, 3})
        (ref_blkno (buddy_bm_ref (stable_super (sb_bitmaps {0, 1, 3} {1, 2, 3})))) = Some st_bm \<and>
      (5::nat) = SCOUTFS_BUDDY_BM_BLKNO g_small + SCOUTFS_BUDDY_BM_NR g_small + d \<and>
      d < buddy_blocks (super (sb_bitmaps {0, 1, 3} {1, 2, 3})) \<and> d \<in> bm \<and> d \<in> st_bm) \<and>
   (\<exists>sa ind st_ind slot sf indf budf stf nrf foundf.
      order_retries g_small sb_whole (nat 0) 0 = Some sa \<and>
      dirty_ind sa (ref_blkno (buddy_ind_ref (super sb_whole))) = Some ind \<and>
      stable_ind sb_whole (ref_blkno (buddy_ind_ref (stable_super sb_whole))) = Some st_ind \<and>
      slot < SCOUTFS_BUDDY_SLOTS g_small \<and>
      slot_retries g_small sa ind st_ind (ucast (push_bit 0 (- 1 :: 32 word))) 0 0 slot =
        Some (sf, indf) \<and>
      fst (dirty_buddy_block g_small sf indf slot) = Inr budf \<and>
      ref_blkno (slot_ref (slots st_ind slot)) \<noteq> 0 \<and>
      stable_bud sb_whole (ref_blkno (slot_ref (slots st_ind slot))) = Some stf \<and>
      find_first_fit g_small (super sb_whole) slot budf (Some stf) 0 = Some (nrf, foundf) \<and>
      nrf \<noteq> INT_MAX \<and> (8::nat) = slot_buddy_blkno g_small (super sb_whole) slot foundf nrf \<and>
      test_buddy_bit g_small budf foundf nrf \<and> test_buddy_bit_or_higher g_small stf foundf nrf \<and>
      (\<forall>x. drop_bit foundf x = nrf \<longrightarrow>
           test_buddy_bit_or_higher g_small budf 0 x \<and>
           test_buddy_bit_or_higher g_small stf 0 x))"
proof -
  have fit: "find_first_fit g_small (super_small 2 4) 0 bud_split (Some bud_whole) 0 = Some (1, 0)"
    by code_simp
  have nr: "(1::nat) \<noteq> INT_MAX" by (simp add: INT_MAX_def)
  have bm: "fst (bitmap_alloc g_small (sb_bitmaps {0, 1, 3} {1, 2, 3})) = Inr 5"
    by code_simp
  then have bm': "bitmap_alloc g_small (sb_bitmaps {0, 1, 3} {1, 2, 3}) =
      (Inr 5, snd (bitmap_alloc g_small (sb_bitmaps {0, 1, 3} {1, 2, 3})))"
    by (metis prod.collapse)
  have "map_option fst (buddy_alloc g_small sb_whole 0) = Some (Inr (8, 0))"
    by code_simp
  then have ba: "buddy_alloc g_small sb_whole 0 =
      Some (Inr (8, 0), snd (the (buddy_alloc g_small sb_whole 0)))"
    by (rule option_fst_result)
  note c1 = allocations_free_in_both_views
      [where g = g_small and sb = "super_small 2 4" and sl = 0 and bud = bud_split
         and st_bud = "Some bud_whole" and ord = 0 and nr = 1 and found = 0,
       THEN conjunct1, rule_format, OF conjI[OF fit nr]]
  note c2 = allocations_free_in_both_views
      [where g = g_small and s = "sb_bitmaps {0, 1, 3} {1, 2, 3}" and b = 5
         and ?s1.0 = "snd (bitmap_alloc g_small (sb_bitmaps {0, 1, 3} {1, 2, 3}))",
       THEN conjunct2, THEN conjunct1, rule_format, OF bm']
  note c3 = allocations_free_in_both_views
      [where g = g_small and s = sb_whole and req = 0 and blkno = 8 and granted = 0
         and s' = "snd (the (buddy_alloc g_small sb_whole 0))",
       THEN conjunct2, THEN conjunct2, rule_format, OF ba]
  show ?thesis by (rule conjI[OF c1 conjI[OF c2 c3]])
qed

section \<open>The granted order\<close>

text \<open>
  C4. A successful \<open>buddy_alloc\<close> was given a valid order and grants an order that
  is not larger. It got there by retrying: \<open>alloc_order\<close> failed with \<open>ENOSPC\<close> at
  every order from the requested one down to the one above the granted one
  (\<open>order_retries\<close>) and then succeeded at the granted order. There \<open>find_first_fit\<close>
  found the extent \<open>nr\<close> of an order \<open>found\<close> that is at least the granted one, in the
  dirty buddy block \<open>bud\<close> that the slot had at that moment and in the stable buddy
  block \<open>st\<close> of the slot. The block returned is the first block of that extent, and
  so of its first extent of the granted order: each of the \<open>2 ^ granted\<close> blocks from
  it on is free in the dirty view and in the stable view.
\<close>

theorem buddy_alloc_grants_at_most_requested:
  assumes "buddy_alloc g s req = Some (Inr (blkno, granted), s')"
  shows "0 \<le> req \<and> req < int (SCOUTFS_BUDDY_ORDERS g) \<and> int granted \<le> req \<and>
         (\<exists>sa. order_retries g s (nat req) granted = Some sa \<and>
               alloc_order g sa granted = Some (Inr blkno, s') \<and>
               (\<exists>ind st_ind sl s1 ind1 bud st nr found.
                  dirty_ind sa (ref_blkno (buddy_ind_ref (super s))) = Some ind \<and>
                  stable_ind s (ref_blkno (buddy_ind_ref (stable_super s))) = Some st_ind \<and>
                  sl < SCOUTFS_BUDDY_SLOTS g \<and>
                  slot_retries g sa ind st_ind (ucast (push_bit granted (- 1 :: 32 word)))
                    granted 0 sl = Some (s1, ind1) \<and>
                  fst (dirty_buddy_block g s1 ind1 sl) = Inr bud \<and>
                  ref_blkno (slot_ref (slots st_ind sl)) \<noteq> 0 \<and>
                  stable_bud s (ref_blkno (slot_ref (slots st_ind sl))) = Some st \<and>
                  find_first_fit g (super s) sl bud (Some st) granted = Some (nr, found) \<and>
                  nr \<noteq> INT_MAX \<and> granted \<le> found \<and> found < SCOUTFS_BUDDY_ORDERS g \<and>
                  order_nr g found nr < order_off g (Suc found) \<and>
                  test_buddy_bit g bud found nr \<and> test_buddy_bit_or_higher g st found nr \<and>
                  blkno = slot_buddy_blkno g (super s) sl granted
                            (push_bit (found - granted) nr) \<and>
                  (\<forall>x. drop_bit granted x = push_bit (found - granted) nr \<longrightarrow>
                       test_buddy_bit_or_higher g bud 0 x \<and>
                       test_buddy_bit_or_higher g st 0 x)))"
proof -
  have valid: "0 \<le> req" "req < int (SCOUTFS_BUDDY_ORDERS g)"
    and run: "buddy_alloc_orders g s (nat req) = Some (Inr (blkno, granted), s')"
    using assms by (auto simp: buddy_alloc_def split: if_splits)
  from buddy_alloc_orders_success[OF run] obtain sa where
    le: "granted \<le> nat req" and
    retries: "order_retries g s (nat req) granted = Some sa" and
    ao: "alloc_order g sa granted = Some (Inr blkno, s')" by blast
  from buddy_alloc_found[OF assms] retries obtain ind st_ind sl s1 ind1 bud st nr found where
    f: "dirty_ind sa (ref_blkno (buddy_ind_ref (super s))) = Some ind"
       "stable_ind s (ref_blkno (buddy_ind_ref (stable_super s))) = Some st_ind"
       "sl < SCOUTFS_BUDDY_SLOTS g"
       "slot_retries g sa ind st_ind (ucast (push_bit granted (- 1 :: 32 word))) granted 0 sl =
          Some (s1, ind1)"
       "fst (dirty_buddy_block g s1 ind1 sl) = Inr bud"
       "ref_blkno (slot_ref (slots st_ind sl)) \<noteq> 0"
       "stable_bud s (ref_blkno (slot_ref (slots st_ind sl))) = Some st"
       "find_first_fit g (super s) sl bud (Some st) granted = Some (nr, found)"
       "nr \<noteq> INT_MAX" "blkno = slot_buddy_blkno g (super s) sl found nr"
    by auto
  from find_first_fit_sound[OF f(8,9)] have
    snd: "granted \<le> found" "found < SCOUTFS_BUDDY_ORDERS g" "test_buddy_bit g bud found nr"
         "order_nr g found nr < order_off g (Suc found)"
         "test_buddy_bit_or_higher g st found nr"
    by auto
  have push: "push_bit granted (push_bit (found - granted) nr) = push_bit found nr"
    using snd(1) by (simp add: push_bit_eq_mult flip: power_add)
  have start: "blkno = slot_buddy_blkno g (super s) sl granted (push_bit (found - granted) nr)"
    unfolding f(10) slot_buddy_blkno_def push ..
  have "test_buddy_bit g bud found (drop_bit (found - found) nr)" using snd(3) by simp
  then have hi: "test_buddy_bit_or_higher g bud found nr"
    using snd(2) by (intro test_buddy_bit_or_higher_above[of found found]) auto
  have whole: "drop_bit found x = nr" if "drop_bit granted x = push_bit (found - granted) nr" for x
  proof -
    have "drop_bit found x = drop_bit (found - granted) (drop_bit granted x)"
      using snd(1) by simp
    also have "\<dots> = nr" unfolding that by (simp add: drop_bit_eq_div push_bit_eq_mult)
    finally show ?thesis .
  qed
  have blocks: "\<forall>x. drop_bit granted x = push_bit (found - granted) nr \<longrightarrow>
                  test_buddy_bit_or_higher g bud 0 x \<and> test_buddy_bit_or_higher g st 0 x"
    using test_buddy_bit_or_higher_block[OF hi whole]
          test_buddy_bit_or_higher_block[OF snd(5) whole] by blast
  have "\<exists>ind st_ind sl s1 ind1 bud st nr found.
                  dirty_ind sa (ref_blkno (buddy_ind_ref (super s))) = Some ind \<and>
                  stable_ind s (ref_blkno (buddy_ind_ref (stable_super s))) = Some st_ind \<and>
                  sl < SCOUTFS_BUDDY_SLOTS g \<and>
                  slot_retries g sa ind st_ind (ucast (push_bit granted (- 1 :: 32 word)))
                    granted 0 sl = Some (s1, ind1) \<and>
                  fst (dirty_buddy_block g s1 ind1 sl) = Inr bud \<and>
                  ref_blkno (slot_ref (slots st_ind sl)) \<noteq> 0 \<and>
                  stable_bud s (ref_blkno (slot_ref (slots st_ind sl))) = Some st \<and>
                  find_first_fit g (super s) sl bud (Some st) granted = Some (nr, found) \<and>
                  nr \<noteq> INT_MAX \<and> granted \<le> found \<and> found < SCOUTFS_BUDDY_ORDERS g \<and>
                  order_nr g found nr < order_off g (Suc found) \<and>
                  test_buddy_bit g bud found nr \<and> test_buddy_bit_or_higher g st found nr \<and>
                  blkno = slot_buddy_blkno g (super s) sl granted
                            (push_bit (found - granted) nr) \<and>
                  (\<forall>x. drop_bit granted x = push_bit (found - granted) nr \<longrightarrow>
                       test_buddy_bit_or_higher g bud 0 x \<and>
                       test_buddy_bit_or_higher g st 0 x)"
    using f(1-9) snd start blocks
    by (intro exI[of _ ind] exI[of _ st_ind] exI[of _ sl] exI[of _ s1]
              exI[of _ ind1] exI[of _ bud] exI[of _ st] exI[of _ nr] exI[of _ found]) simp
  then show ?thesis using valid le retries ao by simp
qed

theorem buddy_alloc_grants_at_most_requested_witness:
  "(0::int) \<le> 2 \<and> (2::int) < int (SCOUTFS_BUDDY_ORDERS g_small) \<and> int 0 \<le> (2::int) \<and>
   (\<exists>sa. order_retries g_small sb_one_free (nat 2) 0 = Some sa \<and>
         alloc_order g_small sa 0 =
           Some (Inr 8, snd (the (buddy_alloc g_small sb_one_free 2))) \<and>
         (\<exists>ind st_ind sl s1 ind1 bud st nr found.
            dirty_ind sa (ref_blkno (buddy_ind_ref (super sb_one_free))) = Some ind \<and>
            stable_ind sb_one_free
              (ref_blkno (buddy_ind_ref (stable_super sb_one_free))) = Some st_ind \<and>
            sl < SCOUTFS_BUDDY_SLOTS g_small \<and>
            slot_retries g_small sa ind st_ind (ucast (push_bit 0 (- 1 :: 32 word)))
              0 0 sl = Some (s1, ind1) \<and>
            fst (dirty_buddy_block g_small s1 ind1 sl) = Inr bud \<and>
            ref_blkno (slot_ref (slots st_ind sl)) \<noteq> 0 \<and>
            stable_bud sb_one_free (ref_blkno (slot_ref (slots st_ind sl))) = Some st \<and>
            find_first_fit g_small (super sb_one_free) sl bud (Some st) 0 = Some (nr, found) \<and>
            nr \<noteq> INT_MAX \<and> 0 \<le> found \<and> found < SCOUTFS_BUDDY_ORDERS g_small \<and>
            order_nr g_small found nr < order_off g_small (Suc found) \<and>
            test_buddy_bit g_small bud found nr \<and>
            test_buddy_bit_or_higher g_small st found nr \<and>
            (8::nat) = slot_buddy_blkno g_small (super sb_one_free) sl 0
                         (push_bit (found - 0) nr) \<and>
            (\<forall>x. drop_bit 0 x = push_bit (found - 0) nr \<longrightarrow>
                 test_buddy_bit_or_higher g_small bud 0 x \<and>
                 test_buddy_bit_or_higher g_small st 0 x)))"
proof -
  have "map_option fst (buddy_alloc g_small sb_one_free 2) = Some (Inr (8, 0))"
    by code_simp
  then have "buddy_alloc g_small sb_one_free 2 =
      Some (Inr (8, 0), snd (the (buddy_alloc g_small sb_one_free 2)))"
    by (rule option_fst_result)
  from buddy_alloc_grants_at_most_requested[OF this] show ?thesis .
qed


section \<open>Freeing an unaligned extent: the blocks are free afterwards\<close>

lemma lowest_set_bit_dvd: "n \<noteq> 0 \<Longrightarrow> 2 ^ lowest_set_bit n dvd n"
proof (induction n rule: lowest_set_bit.induct)
  case (1 n)
  show ?case
  proof (cases "odd n")
    case True
    then have "lowest_set_bit n = 0" by (subst lowest_set_bit.simps) simp
    then show ?thesis by simp
  next
    case False
    then have half: "n div 2 \<noteq> 0" using "1.prems" by auto
    have eq: "lowest_set_bit n = Suc (lowest_set_bit (n div 2))"
      using False "1.prems" by (subst lowest_set_bit.simps) simp
    have "2 ^ lowest_set_bit (n div 2) dvd n div 2"
      using "1.IH" False "1.prems" half by simp
    then have "2 * 2 ^ lowest_set_bit (n div 2) dvd 2 * (n div 2)" by simp
    moreover have "2 * (n div 2) = n" using False by simp
    ultimately show ?thesis unfolding eq by simp
  qed
qed

lemma aligned_low_bits:
  assumes "x = 0 \<or> ord \<le> lowest_set_bit x"
  shows "(x::nat) AND (2 ^ ord - 1) = 0"
proof -
  have "(2::nat) ^ ord dvd x"
  proof (cases "x = 0")
    case True
    then show ?thesis by simp
  next
    case False
    then have "(2::nat) ^ ord dvd 2 ^ lowest_set_bit x"
      using assms by (intro le_imp_power_dvd) simp
    then show ?thesis using lowest_set_bit_dvd[OF False] by (rule dvd_trans)
  qed
  then have "take_bit ord x = 0" by (simp add: take_bit_eq_mod)
  then show ?thesis by (simp add: take_bit_eq_mask mask_eq_exp_minus_1)
qed

lemma order_nr_inj:
  assumes "order_nr g i n < order_off g (Suc i)" "order_nr g j m < order_off g (Suc j)"
      and "order_nr g i n = order_nr g j m"
  shows "i = j \<and> n = m"
proof -
  have "\<not> i < j" using order_nr_distinct[OF _ assms(1), of j m] assms(3) by blast
  moreover have "\<not> j < i" using order_nr_distinct[OF _ assms(2), of i n] assms(3) by force
  ultimately have "i = j" by simp
  then show ?thesis using assms(3) by (simp add: order_nr_def)
qed

lemma offset_in_range:
  assumes geo: "2 ^ (SCOUTFS_BUDDY_ORDERS g - 1) dvd SCOUTFS_BUDDY_ORDER0_BITS g"
      and "l < SCOUTFS_BUDDY_ORDERS g" "x < SCOUTFS_BUDDY_ORDER0_BITS g"
  shows "order_nr g l (drop_bit l x) < order_off g (Suc l)"
proof -
  have "(2::nat) ^ l dvd 2 ^ (SCOUTFS_BUDDY_ORDERS g - 1)"
    using assms(2) by (intro le_imp_power_dvd) simp
  then have "2 ^ l dvd SCOUTFS_BUDDY_ORDER0_BITS g" using geo by (rule dvd_trans)
  then obtain m where m: "SCOUTFS_BUDDY_ORDER0_BITS g = 2 ^ l * m" by (auto elim: dvdE)
  have "x div 2 ^ l < m"
    using assms(3) unfolding m by (simp add: less_mult_imp_div_less mult.commute)
  then show ?thesis unfolding in_range_iff[OF geo assms(2)] m by (simp add: drop_bit_eq_div)
qed

text \<open>
  A free leaves free what was free, and the extent it is given is free afterwards:
  a buddy bit that the merge clears is covered by the bit that is set at the end.
\<close>

lemma buddy_free_bits_keeps_free:
  assumes bits: "buddy_free_bits g ind bud i nr = (ind', bud')"
      and geo: "2 ^ (SCOUTFS_BUDDY_ORDERS g - 1) dvd SCOUTFS_BUDDY_ORDER0_BITS g"
      and i: "i < SCOUTFS_BUDDY_ORDERS g" and range: "order_nr g i nr < order_off g (Suc i)"
      and x: "x < SCOUTFS_BUDDY_ORDER0_BITS g"
      and free: "test_buddy_bit_or_higher g bud 0 x \<or> drop_bit i x = nr"
  shows "test_buddy_bit_or_higher g bud' 0 x"
proof -
  define j where "j = merge_order g bud i nr"
  note b = merge_order_bounds[of i g bud nr, folded j_def]
  have ij: "i \<le> j" and jo: "j < SCOUTFS_BUDDY_ORDERS g" using b i by blast+
  have bits': "bud_bits bud' =
      insert (order_nr g j (drop_bit (j - i) nr)) (bud_bits bud - merged_buddies g i nr j)"
    using buddy_free_bits_exact[OF bits geo i range] unfolding j_def .
  have top: "test_buddy_bit_or_higher g bud' 0 x" if "drop_bit j x = drop_bit (j - i) nr"
  proof -
    have "test_buddy_bit g bud' j (drop_bit (j - 0) x)"
      unfolding test_buddy_bit_def bits' using that by simp
    then show ?thesis using jo unfolding test_buddy_bit_or_higher_iff by blast
  qed
  from free show ?thesis
  proof
    assume "drop_bit i x = nr"
    then have "drop_bit (j - i) nr = drop_bit j x" using ij by auto
    then show ?thesis using top by simp
  next
    assume "test_buddy_bit_or_higher g bud 0 x"
    then obtain l where l: "l < SCOUTFS_BUDDY_ORDERS g" "test_buddy_bit g bud l (drop_bit l x)"
      unfolding test_buddy_bit_or_higher_iff by auto
    show ?thesis
    proof (cases "order_nr g l (drop_bit l x) \<in> merged_buddies g i nr j")
      case False
      then have "test_buddy_bit g bud' l (drop_bit (l - 0) x)"
        using l(2) unfolding test_buddy_bit_def bits' by simp
      then show ?thesis using l(1) unfolding test_buddy_bit_or_higher_iff by blast
    next
      case True
      then obtain l' where
        l': "i \<le> l'" "l' < j" "order_nr g l (drop_bit l x) =
                                   order_nr g l' (drop_bit (l' - i) nr XOR 1)"
        unfolding merged_buddies_member by blast
      have sl': "Suc l' < SCOUTFS_BUDDY_ORDERS g" using l'(2) jo by simp
      have r1: "order_nr g l (drop_bit l x) < order_off g (Suc l)"
        using offset_in_range[OF geo l(1) x] .
      have "order_nr g l' (drop_bit (l' - i) nr) < order_off g (Suc l')"
        using in_range_path[OF geo range l'(1)] sl' by simp
      from in_range_buddy[OF geo sl' this]
      have r2: "order_nr g l' (drop_bit (l' - i) nr XOR 1) < order_off g (Suc l')" .
      note inj = order_nr_inj[OF r1 r2 l'(3)]
      have e1: "l = l'" using inj by (rule conjunct1)
      have e2: "drop_bit l x = drop_bit (l - i) nr XOR 1"
        using inj[THEN conjunct2] unfolding e1 .
      note eq = e1 e2
      have lj: "l < j" and il: "i \<le> l" using eq(1) l' by simp_all
      define A where "A = drop_bit (l - i) nr"
      have "drop_bit j x = drop_bit (j - l) (drop_bit l x)" using lj by simp
      also have "\<dots> = drop_bit (j - l) (A XOR 1)" unfolding eq(2) A_def ..
      also have "\<dots> = drop_bit (j - Suc l) (drop_bit 1 (A XOR 1))"
        by (rule drop_bit_step[OF lj, symmetric])
      also have "\<dots> = drop_bit (j - Suc l) (drop_bit 1 A)"
        by (simp only: xor_one_half)
      also have "\<dots> = drop_bit (j - l) A" by (rule drop_bit_step[OF lj])
      also have "\<dots> = drop_bit (j - i) nr" unfolding A_def using lj il by simp
      finally show ?thesis by (rule top)
    qed
  qed
qed

text \<open>
  \<open>dirty_free g s blkno\<close>: the block is free in the dirty view, as
  \<open>scoutfs_buddy_was_free\<close> tells it of the stable view at order 0: the dirty buddy
  block of its slot has the bit of an extent that covers it.
\<close>

definition dirty_free :: "geometry \<Rightarrow> sb_info \<Rightarrow> nat \<Rightarrow> bool" where
  "dirty_free g s blkno =
     (case dirty_ind s (ref_blkno (buddy_ind_ref (super s))) of
        None \<Rightarrow> False
      | Some ind \<Rightarrow>
          (case dirty_bud s (ref_blkno (slot_ref (slots ind (indirect_slot g (super s) blkno)))) of
             None \<Rightarrow> False
           | Some bud \<Rightarrow> test_buddy_bit_or_higher g bud 0 (buddy_bit g (super s) blkno)))"

text \<open>
  \<open>extent_pinned g s blkno count\<close>: the extent lies in the buddy region, within the
  slots, and the blocks that map it are there: the dirty indirect block and the
  dirty buddy block of the slot of each of its blocks. Both supers give the same
  start of the buddy region, and the size of a slot is a multiple of the size of the
  largest extent.
\<close>

definition extent_pinned :: "geometry \<Rightarrow> sb_info \<Rightarrow> nat \<Rightarrow> nat \<Rightarrow> bool" where
  "extent_pinned g s blkno count =
     (0 < SCOUTFS_BUDDY_ORDERS g \<and> 0 < SCOUTFS_BUDDY_ORDER0_BITS g \<and>
      2 ^ (SCOUTFS_BUDDY_ORDERS g - 1) dvd SCOUTFS_BUDDY_ORDER0_BITS g \<and>
      buddy_blocks (stable_super s) = buddy_blocks (super s) \<and>
      first_blkno g (super s) \<le> blkno \<and>
      blkno + count \<le> first_blkno g (super s) +
                        SCOUTFS_BUDDY_SLOTS g * SCOUTFS_BUDDY_ORDER0_BITS g \<and>
      first_blkno g (super s) + SCOUTFS_BUDDY_SLOTS g * SCOUTFS_BUDDY_ORDER0_BITS g \<le> 2 ^ 32 \<and>
      ref_blkno (buddy_ind_ref (super s)) \<noteq> 0 \<and>
      (case dirty_ind s (ref_blkno (buddy_ind_ref (super s))) of
         None \<Rightarrow> False
       | Some ind \<Rightarrow>
           (\<forall>b \<in> {blkno ..< blkno + count}.
              dirty_bud s (ref_blkno (slot_ref (slots ind (indirect_slot g (super s) b)))) \<noteq>
                None)))"

lemma buddy_free_bits_slots:
  "buddy_free_bits g ind bud k n = (ind', bud') \<Longrightarrow> slots ind' = slots ind"
  using buddy_free_bits_result[of g ind bud k n ind' bud'] by auto

lemma blkno_offset_in_region:
  assumes "first_blkno g sb \<le> c" "c < first_blkno g sb + 2 ^ 32"
  shows "blkno_offset_u32 g sb c = c - first_blkno g sb"
proof -
  define d where "d = c - first_blkno g sb"
  have diff: "int c - int (first_blkno g sb) = int d" using assms(1) by (simp add: d_def)
  have "d < 2 ^ 32" using assms by (simp add: d_def)
  then have "int d < int (2 ^ 32)" by (simp only: of_nat_less_iff)
  then have "int d < 2 ^ 32" by simp
  then have red: "int d mod 2 ^ 32 = int d" by (intro mod_pos_pos_trivial) simp_all
  show ?thesis unfolding blkno_offset_u32_def diff red d_def[symmetric] by (rule nat_int)
qed

lemma piece_in_slot:
  assumes "(2::nat) ^ ord dvd a" "2 ^ ord dvd n" "a < n" "d < 2 ^ ord"
  shows "a + d < n \<and> (a + d) div 2 ^ ord = a div 2 ^ ord"
proof -
  obtain p where p: "a = 2 ^ ord * p" using assms(1) by (auto elim: dvdE)
  obtain q where q: "n = 2 ^ ord * q" using assms(2) by (auto elim: dvdE)
  have "p < q" using assms(3) unfolding p q by simp
  then have "Suc p \<le> q" by simp
  then have "2 ^ ord * Suc p \<le> 2 ^ ord * q" by (intro mult_le_mono2)
  then have "a + 2 ^ ord \<le> n" unfolding p q by simp
  then have 1: "a + d < n" using assms(4) by simp
  have "(2 ^ ord * p + d) div 2 ^ ord = p" using assms(4) by simp
  then have 2: "(a + d) div 2 ^ ord = a div 2 ^ ord" unfolding p by simp
  show ?thesis using 1 2 by simp
qed

lemma extent_pinned_step:
  assumes pinned: "extent_pinned g s blkno count" and pos: "0 < count"
      and ord: "ord = extent_order g z (stable_super s) blkno count"
  shows "\<exists>s1. scoutfs_buddy_free g s blkno (int ord) = (Inr (), s1) \<and>
              extent_pinned g s1 (blkno + 2 ^ ord) (count - 2 ^ ord) \<and>
              (blkno + 2 ^ ord) mod 2 ^ 64 = blkno + 2 ^ ord \<and> 2 ^ ord \<le> count \<and>
              stable_super s1 = stable_super s \<and>
              (\<forall>c. dirty_free g s c \<longrightarrow> dirty_free g s1 c) \<and>
              (\<forall>c \<in> {blkno ..< blkno + 2 ^ ord}. dirty_free g s1 c)"
proof -
  define ki where "ki = ref_blkno (buddy_ind_ref (super s))"
  define sl where "sl = indirect_slot g (super s) blkno"
  define n0 where "n0 = SCOUTFS_BUDDY_ORDER0_BITS g"
  define first where "first = first_blkno g (super s)"
  from pinned obtain ind where
    geo: "0 < SCOUTFS_BUDDY_ORDERS g" "0 < n0"
         "2 ^ (SCOUTFS_BUDDY_ORDERS g - 1) dvd SCOUTFS_BUDDY_ORDER0_BITS g" and
    same: "buddy_blocks (stable_super s) = buddy_blocks (super s)" and
    lo: "first \<le> blkno" and
    hi: "blkno + count \<le> first + SCOUTFS_BUDDY_SLOTS g * n0" and
    fits: "first + SCOUTFS_BUDDY_SLOTS g * n0 \<le> 2 ^ 32" and
    ref: "ki \<noteq> 0" and ind: "dirty_ind s ki = Some ind" and
    buds: "\<forall>b \<in> {blkno ..< blkno + count}.
              dirty_bud s (ref_blkno (slot_ref (slots ind (indirect_slot g (super s) b)))) \<noteq> None"
    unfolding extent_pinned_def ki_def n0_def first_def by (auto split: option.splits)
  obtain bud where bud: "dirty_bud s (ref_blkno (slot_ref (slots ind sl))) = Some bud"
    using buds pos unfolding sl_def by force
  have region: "blkno_region g (super s) blkno = REGION_BUDDY"
    using lo by (auto simp: blkno_region_def first_blkno_def first_def Let_def)
  have bit_eq: "buddy_bit g (stable_super s) blkno = buddy_bit g (super s) blkno"
    using same by (simp add: buddy_bit_def blkno_offset_u32_def first_blkno_def)
  define a where "a = buddy_bit g (super s) blkno"
  have le1: "ord \<le> SCOUTFS_BUDDY_ORDERS g - 1" and le2: "ord \<le> ffs64 z a"
    using bit_eq by (simp_all add: ord extent_order_def a_def)
  have lt: "ord < SCOUTFS_BUDDY_ORDERS g" using le1 geo(1) by simp
  have low: "a = 0 \<or> ord \<le> lowest_set_bit a"
    using le2 by (auto simp: ffs64_def split: if_splits)
  then have valid: "valid_order g (super s) blkno ord"
    unfolding valid_order_def a_def by (rule aligned_low_bits)
  have dvd_a: "2 ^ ord dvd a"
  proof (cases "a = 0")
    case True
    then show ?thesis by simp
  next
    case False
    then have "(2::nat) ^ ord dvd 2 ^ lowest_set_bit a"
      using low by (intro le_imp_power_dvd) simp
    then show ?thesis using lowest_set_bit_dvd[OF False] by (rule dvd_trans)
  qed
  have "(2::nat) ^ ord dvd 2 ^ (SCOUTFS_BUDDY_ORDERS g - 1)"
    using le1 by (intro le_imp_power_dvd)
  then have dvd_n: "2 ^ ord dvd n0" unfolding n0_def using geo(3) by (rule dvd_trans)
  have a_lt: "a < n0" using geo(2) by (simp add: a_def buddy_bit_def n0_def)
  define nr where "nr = drop_bit ord a"
  have range: "order_nr g ord nr < order_off g (Suc ord)"
    unfolding nr_def using offset_in_range[OF geo(3) lt] a_lt by (simp add: n0_def)
  obtain ind1 bud1 where bits: "buddy_free_bits g ind bud ord nr = (ind1, bud1)"
    by (cases "buddy_free_bits g ind bud ord nr") auto
  define ind2 where "ind2 = ind1\<lparr>slots := (slots ind1)(sl := update_free_orders g (slots ind1 sl) bud1)\<rparr>"
  define kb where "kb = ref_blkno (slot_ref (slots ind sl))"
  define s1 where "s1 = s\<lparr>dirty_ind := (dirty_ind s)(ki \<mapsto> ind2),
                          dirty_bud := (dirty_bud s)(kb \<mapsto> bud1)\<rparr>"
  have free: "buddy_free g s blkno (int ord) = (Inr (), s1)"
    unfolding buddy_free_def
    using lt valid ref ind bud bits
    by (simp add: scoutfs_block_dirty_ref_def Let_def ki_def[symmetric] sl_def[symmetric]
                  s1_def ind2_def nr_def a_def kb_def)
  then have free': "scoutfs_buddy_free g s blkno (int ord) = (Inr (), s1)"
    using region by (simp add: scoutfs_buddy_free_def)
  have size: "2 ^ ord \<le> count"
    unfolding ord using pos by (rule extent_order_le)
  have refs: "slot_ref (slots ind2 x) = slot_ref (slots ind x)" for x
    using buddy_free_bits_slots[OF bits] by (simp add: ind2_def update_free_orders_def)
  have sup: "super s1 = super s" "stable_super s1 = stable_super s"
    by (simp_all add: s1_def)
  have ind': "dirty_ind s1 (ref_blkno (buddy_ind_ref (super s1))) = Some ind2"
    by (simp add: s1_def ki_def)
  have buds': "\<forall>b \<in> {blkno + 2 ^ ord ..< blkno + 2 ^ ord + (count - 2 ^ ord)}.
      dirty_bud s1 (ref_blkno (slot_ref (slots ind2 (indirect_slot g (super s1) b)))) \<noteq> None"
  proof
    fix b assume "b \<in> {blkno + 2 ^ ord ..< blkno + 2 ^ ord + (count - 2 ^ ord)}"
    then have "b \<in> {blkno ..< blkno + count}" using size by auto
    then have "dirty_bud s (ref_blkno (slot_ref (slots ind (indirect_slot g (super s) b)))) \<noteq> None"
      using buds by blast
    then show "dirty_bud s1 (ref_blkno (slot_ref (slots ind2 (indirect_slot g (super s1) b)))) \<noteq>
                 None"
      unfolding refs sup by (simp add: s1_def)
  qed
  have pinned': "extent_pinned g s1 (blkno + 2 ^ ord) (count - 2 ^ ord)"
    unfolding extent_pinned_def sup ind'[unfolded sup]
    using geo same lo hi fits ref size buds'[unfolded sup]
    by (simp add: ki_def n0_def first_def)
  have "blkno + 2 ^ ord \<le> 2 ^ 32" using hi fits size by simp
  also have "\<dots> < (2::nat) ^ 64" by simp
  finally have nowrap: "(blkno + 2 ^ ord) mod 2 ^ 64 = blkno + 2 ^ ord" by simp
  text \<open>what was free stays free\<close>
  have block: "dirty_free g s1 c"
    if key: "dirty_bud s (ref_blkno (slot_ref (slots ind (indirect_slot g (super s) c)))) =
               Some b0"
       and fr: "ref_blkno (slot_ref (slots ind (indirect_slot g (super s) c))) = kb \<longrightarrow>
                 test_buddy_bit_or_higher g bud 0 (buddy_bit g (super s) c) \<or>
                 drop_bit ord (buddy_bit g (super s) c) = nr"
       and other: "ref_blkno (slot_ref (slots ind (indirect_slot g (super s) c))) \<noteq> kb \<longrightarrow>
                 test_buddy_bit_or_higher g b0 0 (buddy_bit g (super s) c)"
    for c b0
  proof (cases "ref_blkno (slot_ref (slots ind (indirect_slot g (super s) c))) = kb")
    case True
    have x: "buddy_bit g (super s) c < SCOUTFS_BUDDY_ORDER0_BITS g"
      using geo(2) by (simp add: buddy_bit_def n0_def)
    have "test_buddy_bit_or_higher g bud1 0 (buddy_bit g (super s) c)"
      using buddy_free_bits_keeps_free[OF bits geo(3) lt range x] fr True by blast
    then show ?thesis
      unfolding dirty_free_def sup ind'[unfolded sup] using True by (simp add: s1_def refs)
  next
    case False
    then show ?thesis
      unfolding dirty_free_def sup ind'[unfolded sup] using key other
      by (simp add: s1_def refs)
  qed
  have keeps: "\<forall>c. dirty_free g s c \<longrightarrow> dirty_free g s1 c"
  proof (intro allI impI)
    fix c assume df: "dirty_free g s c"
    then obtain b0 where
      key: "dirty_bud s (ref_blkno (slot_ref (slots ind (indirect_slot g (super s) c)))) = Some b0"
      and t: "test_buddy_bit_or_higher g b0 0 (buddy_bit g (super s) c)"
      unfolding dirty_free_def using ind by (auto simp: ki_def split: option.splits)
    have "ref_blkno (slot_ref (slots ind (indirect_slot g (super s) c))) = kb \<longrightarrow> b0 = bud"
      using key bud by (auto simp: kb_def)
    then show "dirty_free g s1 c" using block[OF key] t by blast
  qed
  have freed: "\<forall>c \<in> {blkno ..< blkno + 2 ^ ord}. dirty_free g s1 c"
  proof
    fix c assume c: "c \<in> {blkno ..< blkno + 2 ^ ord}"
    define d where "d = c - blkno"
    have d: "d < 2 ^ ord" "c = blkno + d" using c by (auto simp: d_def)
    have c_hi: "c < first + 2 ^ 32" using c size hi fits by simp
    have b_hi: "blkno < first + 2 ^ 32" using pos hi fits by simp
    have off_c: "blkno_offset_u32 g (super s) c = (blkno - first) + d"
      using blkno_offset_in_region[of g "super s" c] lo c_hi d(2) by (simp add: first_def)
    have off_b: "blkno_offset_u32 g (super s) blkno = blkno - first"
      using blkno_offset_in_region[of g "super s" blkno] lo b_hi by (simp add: first_def)
    define off where "off = blkno - first"
    have a: "a = off mod n0" and sl: "sl = off div n0"
      by (simp_all add: a_def sl_def buddy_bit_def indirect_slot_def off_b off_def n0_def)
    from piece_in_slot[OF dvd_a dvd_n a_lt d(1)]
    have fit: "a + d < n0" and half: "(a + d) div 2 ^ ord = a div 2 ^ ord" by simp_all
    have split: "off + d = sl * n0 + (a + d)" unfolding a sl by simp
    have slot_c: "indirect_slot g (super s) c = sl"
      unfolding indirect_slot_def off_c off_def[symmetric] n0_def[symmetric] split
      using fit by simp
    have bit_c: "buddy_bit g (super s) c = a + d"
      unfolding buddy_bit_def off_c off_def[symmetric] n0_def[symmetric] split
      using fit by simp
    have "drop_bit ord (buddy_bit g (super s) c) = nr"
      unfolding bit_c nr_def using half by (simp add: drop_bit_eq_div)
    then show "dirty_free g s1 c"
      using block[of c bud] bud unfolding slot_c kb_def by simp
  qed
  show ?thesis using free' pinned' nowrap size sup(2) keeps freed by blast
qed

lemma free_extent_frees:
  assumes "extent_pinned g s blkno count"
  shows "fst (scoutfs_buddy_free_extent g z s blkno count) = Inr () \<and>
         (\<forall>c. dirty_free g s c \<longrightarrow>
              dirty_free g (snd (scoutfs_buddy_free_extent g z s blkno count)) c) \<and>
         (\<forall>c \<in> {blkno ..< blkno + count}.
              dirty_free g (snd (scoutfs_buddy_free_extent g z s blkno count)) c)"
  using assms
proof (induction count arbitrary: s blkno rule: less_induct)
  case (less count)
  show ?case
  proof (cases "count = 0")
    case True
    then show ?thesis by (subst (1 2 3) scoutfs_buddy_free_extent.simps) simp
  next
    case False
    define ord where "ord = extent_order g z (stable_super s) blkno count"
    from extent_pinned_step[OF less.prems _ ord_def] False obtain s1 where
      free: "scoutfs_buddy_free g s blkno (int ord) = (Inr (), s1)" and
      pinned: "extent_pinned g s1 (blkno + 2 ^ ord) (count - 2 ^ ord)" and
      nowrap: "(blkno + 2 ^ ord) mod 2 ^ 64 = blkno + 2 ^ ord" and
      size: "2 ^ ord \<le> count" and
      keeps: "\<forall>c. dirty_free g s c \<longrightarrow> dirty_free g s1 c" and
      freed: "\<forall>c \<in> {blkno ..< blkno + 2 ^ ord}. dirty_free g s1 c"
      by auto
    have ord_eq: "min (ffs64 z (buddy_bit g (stable_super s) blkno))
                    (min (fls64 count - 1) (SCOUTFS_BUDDY_ORDERS g - 1)) = ord"
      using fls64_floor_log2[of count] by (simp add: ord_def extent_order_def)
    have step: "scoutfs_buddy_free_extent g z s blkno count =
                scoutfs_buddy_free_extent g z s1 (blkno + 2 ^ ord) (count - 2 ^ ord)"
      using False ord_eq free nowrap
      by (subst scoutfs_buddy_free_extent.simps) (simp add: Let_def)
    have "count - 2 ^ ord < count" using False by simp
    from less.IH[OF this pinned] have
      ih: "fst (scoutfs_buddy_free_extent g z s1 (blkno + 2 ^ ord) (count - 2 ^ ord)) = Inr ()"
          "\<forall>c. dirty_free g s1 c \<longrightarrow>
              dirty_free g (snd (scoutfs_buddy_free_extent g z s1 (blkno + 2 ^ ord)
                                   (count - 2 ^ ord))) c"
          "\<forall>c \<in> {blkno + 2 ^ ord ..< blkno + 2 ^ ord + (count - 2 ^ ord)}.
              dirty_free g (snd (scoutfs_buddy_free_extent g z s1 (blkno + 2 ^ ord)
                                   (count - 2 ^ ord))) c"
      by blast+
    have all: "\<forall>c \<in> {blkno ..< blkno + count}.
              dirty_free g (snd (scoutfs_buddy_free_extent g z s1 (blkno + 2 ^ ord)
                                   (count - 2 ^ ord))) c"
    proof
      fix c assume c: "c \<in> {blkno ..< blkno + count}"
      show "dirty_free g (snd (scoutfs_buddy_free_extent g z s1 (blkno + 2 ^ ord)
                                   (count - 2 ^ ord))) c"
      proof (cases "c < blkno + 2 ^ ord")
        case True
        then have "dirty_free g s1 c" using freed c by simp
        then show ?thesis using ih(2) by blast
      next
        case False
        then have "c \<in> {blkno + 2 ^ ord ..< blkno + 2 ^ ord + (count - 2 ^ ord)}"
          using c size by auto
        then show ?thesis using ih(3) by blast
      qed
    qed
    show ?thesis unfolding step using ih(1,2) keeps all by blast
  qed
qed

text \<open>
  C9. \<open>scoutfs_buddy_free_extent (blkno, count)\<close> is the freeing of the
  specification's pieces: each piece starts where the previous one ended, has the
  order \<open>min (lowest set bit of the offset, floor (log2 count), ORDERS - 1)\<close> for the
  count that is left, and is freed with \<open>scoutfs_buddy_free\<close>; a failed free stops the
  kernel. At an offset of 0, which has no set bit, the first of the three is what
  the platform's \<open>__ffs64\<close> returns for 0 (\<open>z\<close>). The sizes of the pieces add up to
  exactly \<open>count\<close>. When the blocks that map the extent are there (\<open>extent_pinned\<close>),
  every free succeeds, and afterwards each of the \<open>count\<close> blocks from \<open>blkno\<close> on is
  free in the dirty view.
\<close>

theorem free_extent_frees_count_blocks:
  "scoutfs_buddy_free_extent g z s blkno count =
     free_pieces g s (extent_pieces g z (stable_super s) blkno count) \<and>
   (\<Sum>(b, ord) \<leftarrow> extent_pieces g z (stable_super s) blkno count. 2 ^ ord) = count \<and>
   extent_pieces g z (stable_super s) blkno count =
     (if count = 0 then []
      else (blkno, extent_order g z (stable_super s) blkno count) #
           extent_pieces g z (stable_super s)
             ((blkno + 2 ^ extent_order g z (stable_super s) blkno count) mod 2 ^ 64)
             (count - 2 ^ extent_order g z (stable_super s) blkno count)) \<and>
   extent_order g z (stable_super s) blkno count =
     min (if buddy_bit g (stable_super s) blkno = 0 then z
          else lowest_set_bit (buddy_bit g (stable_super s) blkno))
         (min (floor_log2 count) (SCOUTFS_BUDDY_ORDERS g - 1)) \<and>
   (extent_pinned g s blkno count \<longrightarrow>
      fst (scoutfs_buddy_free_extent g z s blkno count) = Inr () \<and>
      (\<forall>c \<in> {blkno ..< blkno + count}.
         dirty_free g (snd (scoutfs_buddy_free_extent g z s blkno count)) c))"
  using free_extent_pieces[OF refl, of g z s blkno count]
    extent_pieces_sum[of g z "stable_super s" blkno count]
    extent_pieces.simps[of g z "stable_super s" blkno count]
    free_extent_frees[of g s blkno count z]
  by (simp add: extent_order_def ffs64_def)

text \<open>
  All four blocks of slot 0 are allocated. The extent of three blocks from block 9
  is freed as block 9 at order 0 and blocks 10 and 11 at order 1. The extent of four
  blocks from block 8, at offset 0 of the slot, is freed as one piece of order 2 when
  \<open>__ffs64 (0)\<close> is 64, and as blocks 8 and 9 at order 0 and blocks 10 and 11 at order
  1 when it is 0; the whole slot is free afterwards in both cases.
\<close>

theorem free_extent_frees_count_blocks_witness:
  "fst (scoutfs_buddy_free_extent g_small 64 sb_full 8 4) = Inr () \<and>
   dirty_free g_small (snd (scoutfs_buddy_free_extent g_small 64 sb_full 8 4)) 8 \<and>
   dirty_free g_small (snd (scoutfs_buddy_free_extent g_small 64 sb_full 8 4)) 9 \<and>
   dirty_free g_small (snd (scoutfs_buddy_free_extent g_small 64 sb_full 8 4)) 10 \<and>
   dirty_free g_small (snd (scoutfs_buddy_free_extent g_small 64 sb_full 8 4)) 11 \<and>
   extent_pieces g_small 64 (stable_super sb_full) 8 4 = [(8, 2)] \<and>
   extent_pieces g_small 0 (stable_super sb_full) 8 4 = [(8, 0), (9, 0), (10, 1)] \<and>
   extent_pieces g_small 64 (stable_super sb_full) 9 3 = [(9, 0), (10, 1)] \<and>
   map_option bud_bits (dirty_bud (snd (scoutfs_buddy_free_extent g_small 64 sb_full 8 4)) 5) =
     Some {6} \<and>
   map_option bud_bits (dirty_bud (snd (scoutfs_buddy_free_extent g_small 0 sb_full 8 4)) 5) =
     Some {6} \<and>
   map_option bud_bits (dirty_bud (snd (scoutfs_buddy_free_extent g_small 64 sb_full 9 3)) 5) =
     Some {1, 5}"
proof -
  have pinned: "extent_pinned g_small sb_full 8 4" by code_simp
  have set: "{8 ..< 8 + 4} = {8::nat, 9, 10, 11}" by auto
  note ok = free_extent_frees_count_blocks[of g_small 64 sb_full 8 4,
      THEN conjunct2, THEN conjunct2, THEN conjunct2, THEN conjunct2, rule_format, OF pinned]
  have blocks: "dirty_free g_small (snd (scoutfs_buddy_free_extent g_small 64 sb_full 8 4)) c"
    if "c \<in> {8::nat, 9, 10, 11}" for c
    using ok[THEN conjunct2] that unfolding set by blast
  have p1: "extent_pieces g_small 64 (stable_super sb_full) 8 4 = [(8, 2)]" by code_simp
  have p2: "extent_pieces g_small 0 (stable_super sb_full) 8 4 = [(8, 0), (9, 0), (10, 1)]"
    by code_simp
  have p3: "extent_pieces g_small 64 (stable_super sb_full) 9 3 = [(9, 0), (10, 1)]"
    by code_simp
  have b1: "map_option bud_bits
      (dirty_bud (snd (free_pieces g_small sb_full [(8, 2)])) 5) = Some {6}"
    by code_simp
  have b2: "map_option bud_bits
      (dirty_bud (snd (free_pieces g_small sb_full [(8, 0), (9, 0), (10, 1)])) 5) = Some {6}"
    by code_simp
  have b3: "map_option bud_bits
      (dirty_bud (snd (free_pieces g_small sb_full [(9, 0), (10, 1)])) 5) = Some {1, 5}"
    by code_simp
  have e1: "scoutfs_buddy_free_extent g_small 64 sb_full 8 4 =
              free_pieces g_small sb_full [(8, 2)]"
    using free_extent_frees_count_blocks[of g_small 64 sb_full 8 4, THEN conjunct1]
    unfolding p1 .
  have e2: "scoutfs_buddy_free_extent g_small 0 sb_full 8 4 =
              free_pieces g_small sb_full [(8, 0), (9, 0), (10, 1)]"
    using free_extent_frees_count_blocks[of g_small 0 sb_full 8 4, THEN conjunct1]
    unfolding p2 .
  have e3: "scoutfs_buddy_free_extent g_small 64 sb_full 9 3 =
              free_pieces g_small sb_full [(9, 0), (10, 1)]"
    using free_extent_frees_count_blocks[of g_small 64 sb_full 9 3, THEN conjunct1]
    unfolding p3 .
  show ?thesis
    using ok[THEN conjunct1] blocks[of 8] blocks[of 9] blocks[of 10] blocks[of 11]
      p1 p2 p3 b1[folded e1] b2[folded e2] b3[folded e3]
    by (intro conjI) simp_all
qed

end
